(* ===== verification/Sprout_Prelude.thy ===== *)
theory Sprout_Prelude
  imports Main "HOL-Library.Word" "HOL-Library.Code_Target_Nat"
begin

text \<open>
  The vocabulary the component theories share: machine integers, C strings and the
  parts of \<^verbatim>\<open>string.h\<close>, \<^verbatim>\<open>stdio.h\<close> and \<^verbatim>\<open>stdlib.h\<close> the sources call, and the shape of
  the bounded \<^verbatim>\<open>for (hop = 0; hop < N; hop++)\<close> loops that the sources use wherever
  they follow symbolic links or probe a table.

  A C string is the list of its bytes before the terminating NUL, so \<^term>\<open>length\<close> is
  \<^verbatim>\<open>strlen\<close> and reading index \<^term>\<open>length s\<close> gives the NUL. A pointer that may be
  NULL is an \<^typ>\<open>'a option\<close>. A fixed buffer of \<open>cap\<close> bytes holds at most \<open>cap - 1\<close>
  bytes of string; every copy into one is written with its truncation.
\<close>

named_theorems sp_const \<open>the numeric limits of the sources\<close>
named_theorems path_simps \<open>rewrite rules on path strings and their components\<close>

section \<open>Machine integers and limits\<close>

type_synonym u8 = "8 word"
type_synonym u16 = "16 word"
type_synonym u32 = "32 word"
type_synonym u64 = "64 word"

type_synonym cstr = string
type_synonym cptr = "string option"

definition SP_PATH_MAX :: nat where
  [sp_const]: "SP_PATH_MAX = 4096"

definition SP_MAX_BINDS :: nat where
  [sp_const]: "SP_MAX_BINDS = 64"

definition SP_MAX_PASSTHROUGH :: nat where
  [sp_const]: "SP_MAX_PASSTHROUGH = 32"

abbreviation slash :: char where
  "slash \<equiv> CHR ''/''"

abbreviation NUL :: char where
  "NUL \<equiv> CHR 0x00"

section \<open>Error numbers\<close>

datatype errno =
    EPERM | ENOENT | EIO | E2BIG | ENOEXEC | EAGAIN | ENOMEM | EACCES | EFAULT | EEXIST
  | EINVAL | EFBIG | ERANGE | ENAMETOOLONG | ENOSYS | ELOOP | EIDRM | EPROTONOSUPPORT
  | ENODEV | EOTHER nat

section \<open>C strings\<close>

text \<open>\<open>char_at s i\<close> reads \<^verbatim>\<open>s[i]\<close> for \<open>i \<le> strlen(s)\<close>; the byte at \<open>strlen(s)\<close> is NUL.\<close>

definition char_at :: "cstr \<Rightarrow> nat \<Rightarrow> char" where
  "char_at s i = (if i < length s then s ! i else NUL)"

text \<open>\<^verbatim>\<open>strncmp(a, b, n) == 0\<close> on NUL-free strings.\<close>

definition strncmp_eq :: "cstr \<Rightarrow> cstr \<Rightarrow> nat \<Rightarrow> bool" where
  "strncmp_eq a b n \<longleftrightarrow> take n a = take n b"

fun strchr :: "cstr \<Rightarrow> char \<Rightarrow> nat option" where
  "strchr [] c = None"
| "strchr (x # xs) c = (if x = c then Some 0 else map_option Suc (strchr xs c))"

definition strrchr :: "cstr \<Rightarrow> char \<Rightarrow> nat option" where
  "strrchr s c = (case strchr (rev s) c of None \<Rightarrow> None | Some j \<Rightarrow> Some (length s - 1 - j))"

definition strchr_from :: "cstr \<Rightarrow> nat \<Rightarrow> char \<Rightarrow> nat option" where
  "strchr_from s i c = map_option (\<lambda>j. i + j) (strchr (drop i s) c)"

text \<open>\<^verbatim>\<open>strncmp(s, pre, strlen(pre)) == 0\<close>.\<close>

definition starts_with :: "cstr \<Rightarrow> cstr \<Rightarrow> bool" where
  "starts_with pre s \<longleftrightarrow> strncmp_eq s pre (length pre)"

fun strstr :: "cstr \<Rightarrow> cstr \<Rightarrow> bool" where
  "strstr [] needle = (needle = [])"
| "strstr (x # xs) needle = (starts_with needle (x # xs) \<or> strstr xs needle)"

text \<open>\<^verbatim>\<open>snprintf(dst, cap, "%s", s)\<close>: what \<open>dst\<close> holds afterwards.\<close>

definition snprintf_s :: "nat \<Rightarrow> cstr \<Rightarrow> cstr" where
  "snprintf_s cap s = take (cap - 1) s"

text \<open>The tokens that repeated \<^verbatim>\<open>strtok_r\<close> calls with one delimiter return.\<close>

function strtok_all :: "char \<Rightarrow> cstr \<Rightarrow> cstr list" where
  "strtok_all d s =
     (let r = dropWhile (\<lambda>c. c = d) s in
      if r = [] then []
      else takeWhile (\<lambda>c. c \<noteq> d) r # strtok_all d (dropWhile (\<lambda>c. c \<noteq> d) r))"
  by pat_completeness auto
termination
proof (relation "measure (\<lambda>(d, s). length s)", goal_cases)
  case 1
  show ?case by simp
next
  case (2 d s r)
  then have "r \<noteq> []" "hd r \<noteq> d"
    using hd_dropWhile [of "\<lambda>c. c = d" s] by auto
  then have "length (dropWhile (\<lambda>c. c \<noteq> d) r) < length r"
    by (cases r) (auto simp: le_imp_less_Suc length_dropWhile_le)
  also have "length r \<le> length s"
    using 2 by (simp add: length_dropWhile_le)
  finally show ?case by simp
qed

declare strtok_all.simps [simp del]

section \<open>Environment rows\<close>

text \<open>
  \<^verbatim>\<open>environ\<close> is an array of \<^verbatim>\<open>KEY=VALUE\<close> rows; \<^verbatim>\<open>getenv\<close> returns the value of the first row
  of that key.
\<close>

type_synonym env = "cstr list"

definition row_of_key :: "cstr \<Rightarrow> cstr \<Rightarrow> bool" where
  "row_of_key k row \<longleftrightarrow> strncmp_eq row k (length k) \<and> length k \<le> length row \<and> char_at row (length k) = CHR ''=''"

fun getenv :: "env \<Rightarrow> cstr \<Rightarrow> cptr" where
  "getenv [] k = None"
| "getenv (r # rs) k = (if row_of_key k r then Some (drop (Suc (length k)) r) else getenv rs k)"

text \<open>The idiom \<^verbatim>\<open>e && e[0] == '1'\<close>.\<close>

definition env_is_1 :: "cptr \<Rightarrow> bool" where
  "env_is_1 e = (case e of None \<Rightarrow> False | Some v \<Rightarrow> char_at v 0 = CHR ''1'')"

text \<open>The idiom \<^verbatim>\<open>(e && *e) ? e : fallback\<close>.\<close>

definition nonempty_or :: "cptr \<Rightarrow> cptr \<Rightarrow> cptr" where
  "nonempty_or e d = (case e of Some (c # cs) \<Rightarrow> e | _ \<Rightarrow> d)"

section \<open>Bounded loops\<close>

text \<open>
  One iteration of a loop either returns from the function with a result or goes on with
  a new state; after the last iteration the loop falls through with its last state.
\<close>

datatype ('s, 'r) hop = Return 'r | Continue 's

fun hop_loop :: "('s \<Rightarrow> ('s, 'r) hop) \<Rightarrow> nat \<Rightarrow> 's \<Rightarrow> ('s, 'r) hop" where
  "hop_loop step 0 s = Continue s"
| "hop_loop step (Suc n) s =
     (case step s of Return r \<Rightarrow> Return r | Continue s' \<Rightarrow> hop_loop step n s')"

text \<open>The contract of such a loop: an invariant each iteration keeps, and what a return gives.\<close>

locale hop_invariant =
  fixes step :: "'s \<Rightarrow> ('s, 'r) hop"
    and inv :: "'s \<Rightarrow> bool"
    and post :: "'r \<Rightarrow> bool"
  assumes step_continue: "inv s \<Longrightarrow> step s = Continue s' \<Longrightarrow> inv s'"
    and step_return: "inv s \<Longrightarrow> step s = Return r \<Longrightarrow> post r"
begin

lemma loop_continue: "inv s \<Longrightarrow> hop_loop step n s = Continue s' \<Longrightarrow> inv s'"
  by (induction n arbitrary: s) (auto split: hop.splits dest: step_continue)

lemma loop_return: "inv s \<Longrightarrow> hop_loop step n s = Return r \<Longrightarrow> post r"
  by (induction n arbitrary: s) (auto split: hop.splits dest: step_continue step_return)

end

section \<open>Lemmas on C strings\<close>

lemma char_at_simps [simp]:
  "char_at s (length s) = NUL"
  "i < length s \<Longrightarrow> char_at s i = s ! i"
  by (simp_all add: char_at_def)

lemma strchr_None_iff: "strchr s c = None \<longleftrightarrow> c \<notin> set s"
  by (induction s) auto

lemma strchr_notin [simp]: "c \<notin> set s \<Longrightarrow> strchr s c = None"
  by (simp add: strchr_None_iff)

lemma strchr_Some:
  "strchr s c = Some i \<Longrightarrow> i < length s \<and> s ! i = c \<and> c \<notin> set (take i s)"
  by (induction s arbitrary: i) (auto split: if_splits)

lemma strchr_append:
  "strchr (xs @ ys) c = (case strchr xs c of Some i \<Rightarrow> Some i | None \<Rightarrow> map_option (\<lambda>j. length xs + j) (strchr ys c))"
proof (induction xs)
  case Nil
  show ?case by (cases "strchr ys c") auto
next
  case (Cons a xs)
  then show ?case by (cases "strchr xs c"; cases "strchr ys c") auto
qed

lemma strchr_take:
  assumes "strchr s c = Some i"
  shows "take i s = takeWhile (\<lambda>x. x \<noteq> c) s" and "drop i s = dropWhile (\<lambda>x. x \<noteq> c) s"
  using assms by (induction s arbitrary: i) (auto split: if_splits)

lemma strrchr_None_iff: "strrchr s c = None \<longleftrightarrow> c \<notin> set s"
  using strchr_None_iff [of "rev s" c] by (auto simp: strrchr_def split: option.splits)

lemma strrchr_Some:
  assumes "strrchr s c = Some i"
  shows "i < length s" and "s ! i = c" and "c \<notin> set (drop (Suc i) s)"
proof -
  from assms obtain j where j: "strchr (rev s) c = Some j" "i = length s - 1 - j"
    by (auto simp: strrchr_def split: option.splits)
  from strchr_Some [OF j(1)] have jl: "j < length s" and jn: "rev s ! j = c"
    and jt: "c \<notin> set (take j (rev s))" by auto
  from jl j(2) show "i < length s" by simp
  from jl jn j(2) show "s ! i = c" by (simp add: rev_nth)
  have "take j (rev s) = rev (drop (length s - j) s)"
    using jl by (simp add: take_rev)
  moreover have "length s - j = Suc i" using jl j(2) by simp
  ultimately show "c \<notin> set (drop (Suc i) s)" using jt by simp
qed

lemma strrchr_append_notin:
  "c \<notin> set ys \<Longrightarrow> strrchr (xs @ c # ys) c = Some (length xs)"
  by (simp add: strrchr_def strchr_append)

lemma strchr_from_Some:
  assumes "strchr_from s i c = Some j"
  shows "i \<le> j" and "j < length s" and "s ! j = c"
  using assms strchr_Some [of "drop i s" c] by (auto simp: strchr_from_def)

lemma starts_with_iff: "starts_with pre s \<longleftrightarrow> take (length pre) s = pre"
  by (auto simp: starts_with_def strncmp_eq_def)

lemma strstr_iff: "strstr hay needle \<longleftrightarrow> (\<exists>a b. hay = a @ needle @ b)"
proof (induction hay needle rule: strstr.induct)
  case (1 needle)
  then show ?case by auto
next
  case (2 x xs needle)
  have "starts_with needle (x # xs) \<longleftrightarrow> (\<exists>b. x # xs = needle @ b)"
    by (auto simp: starts_with_iff) (metis append_take_drop_id)
  moreover have "(\<exists>a b. x # xs = a @ needle @ b) \<longleftrightarrow>
      (\<exists>b. x # xs = needle @ b) \<or> (\<exists>a b. xs = a @ needle @ b)"
    by (metis append_Cons append_Nil list.sel(3) neq_Nil_conv tl_append2)
  ultimately show ?case using 2 by simp
qed

lemma snprintf_s_fits [simp]: "length s < cap \<Longrightarrow> snprintf_s cap s = s"
  by (simp add: snprintf_s_def)

lemma length_snprintf_s [simp]: "0 < cap \<Longrightarrow> length (snprintf_s cap s) < cap"
  by (auto simp: snprintf_s_def min_def)

lemma strtok_all_Nil [simp]: "strtok_all d [] = []"
  by (simp add: strtok_all.simps)

lemma strtok_all_delim [simp]: "strtok_all d (d # s) = strtok_all d s"
  by (subst strtok_all.simps) (subst (2) strtok_all.simps, simp)

lemma strtok_all_token:
  "d \<notin> set t \<Longrightarrow> t \<noteq> [] \<Longrightarrow> strtok_all d (t @ d # s) = t # strtok_all d s"
proof -
  assume t: "d \<notin> set t" "t \<noteq> []"
  then have "dropWhile (\<lambda>c. c = d) (t @ d # s) = t @ d # s"
    by (cases t) auto
  moreover have "takeWhile (\<lambda>c. c \<noteq> d) (t @ d # s) = t"
    and "dropWhile (\<lambda>c. c \<noteq> d) (t @ d # s) = d # s"
    using t(1) by (induction t) auto
  ultimately show ?thesis
    by (subst strtok_all.simps) (simp add: Let_def)
qed

lemma strtok_all_last:
  "d \<notin> set t \<Longrightarrow> t \<noteq> [] \<Longrightarrow> strtok_all d t = [t]"
proof -
  assume t: "d \<notin> set t" "t \<noteq> []"
  then have "dropWhile (\<lambda>c. c = d) t = t" by (cases t) auto
  moreover have "takeWhile (\<lambda>c. c \<noteq> d) t = t" "dropWhile (\<lambda>c. c \<noteq> d) t = []"
    using t(1) by (induction t) auto
  ultimately show ?thesis
    using t by (subst strtok_all.simps) (simp add: Let_def del: dropWhile_eq_Nil_conv)
qed

lemma strtok_all_clean:
  "t \<in> set (strtok_all d s) \<Longrightarrow> t \<noteq> [] \<and> d \<notin> set t \<and> length t \<le> length s \<and> set t \<subseteq> set s"
proof (induction d s rule: strtok_all.induct)
  case (1 d s)
  let ?r = "dropWhile (\<lambda>c. c = d) s"
  have sub: "set ?r \<subseteq> set s" and le: "length ?r \<le> length s"
    by (auto dest: set_dropWhileD simp: length_dropWhile_le)
  from "1.prems" have ne: "?r \<noteq> []" by (subst (asm) strtok_all.simps) (auto simp: Let_def split: if_splits)
  with "1.prems" consider (hd) "t = takeWhile (\<lambda>c. c \<noteq> d) ?r"
    | (tl) "t \<in> set (strtok_all d (dropWhile (\<lambda>c. c \<noteq> d) ?r))"
    by (subst (asm) strtok_all.simps) (auto simp: Let_def simp del: dropWhile_eq_Nil_conv)
  then show ?case
  proof cases
    case hd
    have "hd ?r \<noteq> d" using hd_dropWhile [OF ne] by simp
    with ne have "t \<noteq> []" unfolding hd by (cases ?r) auto
    moreover have "length t \<le> length ?r" "set t \<subseteq> set ?r" "d \<notin> set t"
      unfolding hd by (auto dest: set_takeWhileD simp: length_takeWhile_le)
    ultimately show ?thesis using sub le by auto
  next
    case tl
    from "1.IH" [OF refl ne tl] show ?thesis
      using sub le length_dropWhile_le [of "\<lambda>c. c \<noteq> d" ?r] set_dropWhileD [of _ "\<lambda>c. c \<noteq> d" ?r]
      by (meson dual_order.trans subset_iff)
  qed
qed

lemma getenv_SomeD: "getenv rs k = Some v \<Longrightarrow> \<exists>r \<in> set rs. row_of_key k r \<and> v = drop (Suc (length k)) r"
  by (induction rs) (auto split: if_splits)

lemma row_of_key_row [simp]: "row_of_key k (k @ CHR ''='' # v)"
  by (simp add: row_of_key_def strncmp_eq_def)

section \<open>Lemmas on words\<close>

text \<open>Sums, products and casts whose value fits the target width.\<close>

lemma unat_add_small:
  "unat (a :: 'a::len word) + unat b < 2 ^ LENGTH('a) \<Longrightarrow> unat (a + b) = unat a + unat b"
  by (simp add: unat_word_ariths)

lemma unat_mult_small:
  "unat (a :: 'a::len word) * unat b < 2 ^ LENGTH('a) \<Longrightarrow> unat (a * b) = unat a * unat b"
  by (simp add: unat_word_ariths)

lemma unat_diff_small: "(b :: 'a::len word) \<le> a \<Longrightarrow> unat (a - b) = unat a - unat b"
  by (rule unat_sub)

lemma unat_of_nat_small: "n < 2 ^ LENGTH('a) \<Longrightarrow> unat (word_of_nat n :: 'a::len word) = n"
  by (simp add: unat_of_nat)

lemma unat_of_int_small: "0 \<le> n \<Longrightarrow> n < 2 ^ LENGTH('a) \<Longrightarrow> unat (word_of_int n :: 'a::len word) = nat n"
  by (simp add: unsigned_of_int take_bit_int_eq_self)

lemma unat_ucast_small:
  "unat (w :: 'a::len word) < 2 ^ LENGTH('b) \<Longrightarrow> unat (ucast w :: 'b::len word) = unat w"
  by (simp add: unsigned_ucast_eq take_bit_nat_eq_self)

lemma unat_ucast_up:
  assumes "LENGTH('a) \<le> LENGTH('b)"
  shows "unat (ucast (w :: 'a::len word) :: 'b::len word) = unat w"
proof -
  have "unat w < 2 ^ LENGTH('a)" by (rule unsigned_less)
  also have "\<dots> \<le> (2 :: nat) ^ LENGTH('b)" using assms by (rule power_increasing) simp
  finally show ?thesis by (rule unat_ucast_small)
qed

text \<open>Rounding down to a power of two by masking, and its value.\<close>

lemma and_not_mask: "and (w :: 'a::len word) (not (mask n)) = push_bit n (drop_bit n w)"
  by (rule bit_word_eqI) (auto simp: bit_and_iff bit_not_iff bit_mask_iff bit_push_bit_iff bit_drop_bit_eq not_less)

lemma unat_and_not_mask: "unat (and (w :: 'a::len word) (not (mask n))) = unat w div 2 ^ n * 2 ^ n"
proof -
  have le: "unat w div 2 ^ n * 2 ^ n \<le> unat w" by (rule div_times_less_eq_dividend)
  then have lt: "unat w div 2 ^ n * 2 ^ n < 2 ^ LENGTH('a)" by (rule le_less_trans) (rule unsigned_less)
  have "unat (push_bit n (drop_bit n w)) = take_bit LENGTH('a) (push_bit n (unat w div 2 ^ n))"
    by (simp add: unsigned_push_bit_eq unat_drop_bit_eq) (simp add: drop_bit_eq_div)
  also have "\<dots> = unat w div 2 ^ n * 2 ^ n"
    using lt by (simp add: push_bit_eq_mult take_bit_nat_eq_self)
  finally show ?thesis by (simp add: and_not_mask)
qed

end
