(* ===== verification/Sprout_Sysvipc.thy ===== *)
theory Sprout_Sysvipc
  imports Sprout_Prelude
begin

text \<open>
  The System V semaphores and shared memory of \<^verbatim>\<open>sprout_sysvipc.c\<close>, emulated on files. A
  descriptor is identified with the file it is open on, so a descriptor stays usable after
  the name is unlinked; a section under \<^verbatim>\<open>flock(LOCK_EX)\<close> is one step. When that is justified is the
  subject of the theory \<open>Sprout_Semlock\<close>, which takes the passes of semaphore operations apart into system calls.

  The first part models the object store and every wrapper. The second part proves the
  store invariant, the encoding of ids and file names, the result of the retry loop and the sum of a pass.
\<close>

section \<open>Headers, names and ids\<close>

definition SV_MAGIC :: u32 where
  "SV_MAGIC = 0x5356"

definition SV_HDR_SIZE :: u32 where
  "SV_HDR_SIZE = 48"

definition SV_SEM_STRIDE :: u32 where
  "SV_SEM_STRIDE = 8"

record sv_hdr =
  h_magic :: u32
  h_version :: u32
  h_itype :: u32
  h_nsems :: u32
  h_key :: u32
  h_id :: u32
  h_creator :: u32
  h_destroy :: u32
  h_nattch :: u32
  h_size :: u32

definition key_mask :: u32 where
  "key_mask = 0x0FFFFFFF"

definition hex_digit :: "u32 \<Rightarrow> char" where
  "hex_digit d = (let n = unat (and d 15) in char_of (if n < 10 then 48 + n else 87 + n))"

text \<open>\<^verbatim>\<open>%08x\<close>.\<close>

fun hex_digits :: "nat \<Rightarrow> u32 \<Rightarrow> cstr" where
  "hex_digits 0 w = []"
| "hex_digits (Suc n) w = hex_digits n (drop_bit 4 w) @ [hex_digit w]"

definition sv_dir :: "env \<Rightarrow> cstr" where
  "sv_dir env = (case nonempty_or (getenv env ''SPROUT_SYSVIPC_DIR'') None of
                   Some d \<Rightarrow> d | None \<Rightarrow> ''/tmp/sprout-sysvipc'')"

definition sv_path :: "cstr \<Rightarrow> u32 \<Rightarrow> u32 \<Rightarrow> cstr" where
  "sv_path dir itype key =
     snprintf_s 512 (dir @ ''/'' @ (if itype = 1 then ''sem'' else ''shm'') @ ''-'' @ hex_digits 8 (and key key_mask))"

definition sv_make_id :: "u32 \<Rightarrow> u32 \<Rightarrow> u32" where
  "sv_make_id itype key = or (push_bit 28 itype) (and key key_mask)"

section \<open>The store\<close>

text \<open>
  A file is empty, shorter than a header, or a header followed by semaphore cells; of a
  shared-memory payload only the size in the header matters to the code.
\<close>

datatype sv_content = SvEmpty | SvShort | SvFile sv_hdr "u32 list"

text \<open>
  \<open>sv_names\<close> is the directory, \<open>sv_cnt\<close> the counter file (\<open>None\<close> while it is shorter than
  8 bytes), \<open>sv_can_open\<close> whether the directory lets this process open files.
\<close>

record sv_store =
  sv_names :: "cstr \<Rightarrow> nat option"
  sv_files :: "nat \<Rightarrow> sv_content"
  sv_next :: nat
  sv_cnt :: "(u32 \<times> u32) option"
  sv_can_open :: bool

text \<open>The parameters of a process: its directory and its pid.\<close>

record sv_proc =
  p_dir :: cstr
  p_pid :: u32

definition sv_private_id_alloc :: "sv_store \<Rightarrow> u32 \<Rightarrow> u32 option \<times> sv_store" where
  "sv_private_id_alloc st itype =
     (if \<not> sv_can_open st then (None, st)
      else let (a, b) = (case sv_cnt st of None \<Rightarrow> (0x20000000, 0x20000000) | Some c \<Rightarrow> c);
               v = (if itype = 1 then a else b) + 1
           in (Some (or (push_bit 28 itype) v),
               st\<lparr>sv_cnt := Some (if itype = 1 then (v, b) else (a, v))\<rparr>))"

definition sv_private_alloc :: "sv_store \<Rightarrow> u32 \<Rightarrow> u32 option \<times> sv_store" where
  "sv_private_alloc st itype =
     (case sv_private_id_alloc st itype of
        (None, st') \<Rightarrow> (None, st')
      | (Some i, st') \<Rightarrow> (Some (and i key_mask), st'))"

definition fresh_hdr :: "sv_proc \<Rightarrow> u32 \<Rightarrow> u32 \<Rightarrow> u32 \<Rightarrow> u32 \<Rightarrow> sv_hdr" where
  "fresh_hdr pr itype key nsems shm_sz =
     \<lparr>h_magic = SV_MAGIC, h_version = 2, h_itype = itype, h_nsems = (if itype = 1 then nsems else 0),
      h_key = key, h_id = sv_make_id itype key, h_creator = p_pid pr, h_destroy = 0, h_nattch = 0,
      h_size = (if itype = 2 then shm_sz else nsems)\<rparr>"

text \<open>The cells a file of \<^verbatim>\<open>SV_HDR_SIZE + nsems * SV_SEM_STRIDE\<close> bytes (32-bit arithmetic) holds.\<close>

definition cell_count :: "u32 \<Rightarrow> u32 \<Rightarrow> nat" where
  "cell_count itype nsems =
     (if itype = 1 then (unat (SV_HDR_SIZE + nsems * SV_SEM_STRIDE) - 48) div 8 else 0)"

text \<open>\<^verbatim>\<open>ftruncate\<close>: keeps the cells there are and extends with zeroes.\<close>

definition resize_cells :: "nat \<Rightarrow> u32 list \<Rightarrow> u32 list" where
  "resize_cells n cs = take n cs @ replicate (n - length cs) 0"

definition hdr_usable :: "u32 \<Rightarrow> sv_hdr \<Rightarrow> bool" where
  "hdr_usable itype h \<longleftrightarrow> h_magic h = SV_MAGIC \<and> h_itype h = itype \<and> h_destroy h = 0"

text \<open>
  \<^verbatim>\<open>sv_obj_open\<close>: the file opened and whether this call created the object. The part after
  the \<^verbatim>\<open>open\<close> is \<open>obj_init\<close>; a recreated object keeps its old cells.
\<close>

definition obj_init :: "sv_proc \<Rightarrow> sv_content \<Rightarrow> bool \<Rightarrow> u32 \<Rightarrow> u32 \<Rightarrow> bool \<Rightarrow> u32 \<Rightarrow> u32 \<Rightarrow> errno + (sv_content \<times> bool)" where
  "obj_init pr c created itype key create nsems shm_sz =
     (let h = fresh_hdr pr itype key nsems shm_sz; n = cell_count itype nsems in
      if created \<or> c = SvEmpty then Inr (SvFile h (replicate n 0), True)
      else case c of
             SvFile h0 cs \<Rightarrow>
               if hdr_usable itype h0 then Inr (c, False)
               else if create then Inr (SvFile h (resize_cells n cs), True)
               else Inl EIDRM
           | _ \<Rightarrow> if create then Inr (SvFile h (replicate n 0), True) else Inl EIDRM)"

definition sv_obj_open ::
  "sv_store \<Rightarrow> sv_proc \<Rightarrow> u32 \<Rightarrow> u32 \<Rightarrow> bool \<Rightarrow> u32 \<Rightarrow> u32 \<Rightarrow> (errno + (nat \<times> bool)) \<times> sv_store" where
  "sv_obj_open st pr itype key create nsems shm_sz =
     (let p = sv_path (p_dir pr) itype key in
      if \<not> sv_can_open st then (Inl EACCES, st)
      else case sv_names st p of
             None \<Rightarrow>
               if \<not> create then (Inl EIDRM, st)
               else let i = sv_next st in
                    (case obj_init pr SvEmpty True itype key create nsems shm_sz of
                       Inl e \<Rightarrow> (Inl e, st)
                     | Inr (c, cr) \<Rightarrow>
                         (Inr (i, cr), st\<lparr>sv_names := (sv_names st)(p := Some i),
                                         sv_files := (sv_files st)(i := c), sv_next := Suc i\<rparr>))
           | Some i \<Rightarrow>
               (case obj_init pr (sv_files st i) False itype key create nsems shm_sz of
                  Inl e \<Rightarrow> (Inl e, st)
                | Inr (c, cr) \<Rightarrow> (Inr (i, cr), st\<lparr>sv_files := (sv_files st)(i := c)\<rparr>)))"

definition sv_obj_by_id :: "sv_store \<Rightarrow> sv_proc \<Rightarrow> u32 \<Rightarrow> (errno + (nat \<times> bool)) \<times> sv_store" where
  "sv_obj_by_id st pr raw =
     (let itype = drop_bit 28 raw in
      if itype \<noteq> 1 \<and> itype \<noteq> 2 then (Inl EINVAL, st)
      else sv_obj_open st pr itype (and raw key_mask) False 0 0)"

section \<open>Semaphore sets\<close>

definition IPC_CREAT :: u32 where "IPC_CREAT = 512"
definition IPC_EXCL :: u32 where "IPC_EXCL = 1024"
definition IPC_NOWAIT :: u16 where "IPC_NOWAIT = 2048"
definition SHM_RDONLY :: u32 where "SHM_RDONLY = 4096"

definition semget :: "sv_store \<Rightarrow> sv_proc \<Rightarrow> u32 \<Rightarrow> int \<Rightarrow> u32 \<Rightarrow> (errno + u32) \<times> sv_store" where
  "semget st pr key nsems semflg =
     (if nsems < 0 then (Inl EINVAL, st)
      else if key = 0 then
        (case sv_private_alloc st 1 of
           (None, st1) \<Rightarrow> (Inl EACCES, st1)
         | (Some pk, st1) \<Rightarrow>
             (case sv_obj_open st1 pr 1 pk True (word_of_int (if nsems > 0 then nsems else 1)) 0 of
                (Inl e, st2) \<Rightarrow> (Inl e, st2)
              | (Inr _, st2) \<Rightarrow> (Inr (sv_make_id 1 pk), st2)))
      else if and semflg (or IPC_CREAT IPC_EXCL) = 0 then
        (case sv_obj_open st pr 1 key False 0 0 of
           (Inl e, st1) \<Rightarrow> (Inl e, st1)
         | (Inr _, st1) \<Rightarrow> (Inr (sv_make_id 1 key), st1))
      else
        (case sv_obj_open st pr 1 key True (word_of_int (if nsems > 1 then nsems else 1)) 0 of
           (Inl e, st1) \<Rightarrow> (Inl e, st1)
         | (Inr (i, created), st1) \<Rightarrow>
             if \<not> created \<and> and semflg IPC_EXCL \<noteq> 0 then (Inl EEXIST, st1)
             else if \<not> created \<and> nsems > 1 then
               (case sv_files st1 i of
                  SvFile h _ \<Rightarrow> if word_of_int nsems > h_nsems h then (Inl EINVAL, st1) else (Inr (sv_make_id 1 key), st1)
                | _ \<Rightarrow> (Inl EIO, st1))
             else (Inr (sv_make_id 1 key), st1)))"

record sembuf =
  sem_num :: u16
  sem_op :: "16 word"
  sem_flg :: u16

text \<open>What one pass over the operations ends with; \<open>Undef\<close> is a cell outside the file.\<close>

datatype pass = Applied | Blocked nat | PassErr errno | Undef

text \<open>\<^verbatim>\<open>sv_semop_step\<close>: \<open>i\<close> counts the operations done; the cells change as it goes.\<close>

fun sv_semop_step :: "u32 list \<Rightarrow> nat \<Rightarrow> sembuf list \<Rightarrow> u32 list \<times> pass" where
  "sv_semop_step cs i [] = (cs, Applied)"
| "sv_semop_step cs i (s # ss) =
     (let k = unat (sem_num s); op = sint (sem_op s) in
      if \<not> k < length cs then (cs, Undef)
      else let val = cs ! k in
           if op < 0 then
             (if sint val \<ge> - op then sv_semop_step (cs[k := val - word_of_int (- op)]) (Suc i) ss
              else (cs, Blocked i))
           else if op > 0 then sv_semop_step (cs[k := val + word_of_int op]) (Suc i) ss
           else if val = 0 then sv_semop_step cs (Suc i) ss
           else if and (sem_flg s) IPC_NOWAIT \<noteq> 0 then (cs, PassErr EAGAIN)
           else (cs, Blocked i))"

section \<open>Descriptor cache of a thread\<close>

definition SV_FD_CAP :: nat where
  "SV_FD_CAP = 8"

text \<open>A slot: the key, 0 when unused, and the file.\<close>

type_synonym fdcache = "(u64 \<times> nat) list"

definition sv_fd_key :: "u32 \<Rightarrow> u32 \<Rightarrow> u64" where
  "sv_fd_key itype i = or (push_bit 32 (ucast itype)) (ucast i)"

fun fdc_find :: "fdcache \<Rightarrow> u64 \<Rightarrow> nat \<Rightarrow> nat option" where
  "fdc_find [] k i = None"
| "fdc_find (s # ss) k i = (if fst s = k then Some i else if fst s = 0 then None else fdc_find ss k (Suc i))"

definition sv_fd_cache_find :: "fdcache \<Rightarrow> u32 \<Rightarrow> u32 \<Rightarrow> nat option" where
  "sv_fd_cache_find c itype i = fdc_find c (sv_fd_key itype i) 0"

definition sv_fd_cache_evict :: "fdcache \<Rightarrow> u32 \<Rightarrow> u32 \<Rightarrow> fdcache" where
  "sv_fd_cache_evict c itype i = (case sv_fd_cache_find c itype i of None \<Rightarrow> c | Some j \<Rightarrow> c[j := (0, 0)])"

fun fdc_free :: "fdcache \<Rightarrow> nat \<Rightarrow> nat option" where
  "fdc_free [] i = None"
| "fdc_free (s # ss) i = (if fst s = 0 then Some i else fdc_free ss (Suc i))"

definition sv_fd_get :: "fdcache \<Rightarrow> sv_store \<Rightarrow> sv_proc \<Rightarrow> u32 \<Rightarrow> u32 \<Rightarrow> (errno + nat) \<times> fdcache \<times> sv_store" where
  "sv_fd_get c st pr itype i =
     (case sv_fd_cache_find c itype i of
        Some j \<Rightarrow> (Inr (snd (c ! j)), c, st)
      | None \<Rightarrow>
          (case sv_obj_by_id st pr i of
             (Inl e, st1) \<Rightarrow> (Inl e, c, st1)
           | (Inr (f, _), st1) \<Rightarrow>
               (let idx = (case fdc_free c 0 of Some j \<Rightarrow> j | None \<Rightarrow> 0)
                in (Inr f, c[idx := (sv_fd_key itype i, f)], st1))))"

section \<open>semop, semtimedop, semctl\<close>

text \<open>The header check both operations start with: the descriptor's file must be a live object.\<close>

definition live_hdr :: "sv_store \<Rightarrow> nat \<Rightarrow> sv_hdr option" where
  "live_hdr st f =
     (case sv_files st f of
        SvFile h _ \<Rightarrow> if h_magic h = SV_MAGIC \<and> h_destroy h = 0 then Some h else None
      | _ \<Rightarrow> None)"

definition sem_pass :: "sv_store \<Rightarrow> nat \<Rightarrow> sembuf list \<Rightarrow> sv_store \<times> pass" where
  "sem_pass st f ops =
     (case sv_files st f of
        SvFile h cs \<Rightarrow>
          (let (cs', r) = sv_semop_step cs 0 ops in (st\<lparr>sv_files := (sv_files st)(f := SvFile h cs')\<rparr>, r))
      | _ \<Rightarrow> (st, Undef))"

text \<open>
  The retry loop. Before the \<open>k\<close>-th pass the other processes have changed the store by
  \<open>env k\<close>; \<open>expired k\<close> tells whether the deadline has passed after the \<open>k\<close>-th pass. With the
  fuel used up the caller is still waiting: \<open>None\<close>. A pass that leaves the file goes on with a variable
  that was never written; C gives it no meaning, and the model stops there with \<open>Indeterminate\<close>.
\<close>

datatype verdict = Returned "errno + unit" | Indeterminate

fun sem_loop ::
  "nat \<Rightarrow> nat \<Rightarrow> (nat \<Rightarrow> sv_store \<Rightarrow> sv_store) \<Rightarrow> (nat \<Rightarrow> bool) \<Rightarrow> sv_store \<Rightarrow> nat \<Rightarrow> sembuf list \<Rightarrow>
   (verdict \<times> sv_store) option" where
  "sem_loop 0 k env expired st f ops = None"
| "sem_loop (Suc n) k env expired st f ops =
     (case sem_pass (env k st) f ops of
        (st', PassErr e) \<Rightarrow> Some (Returned (Inl e), st')
      | (st', Applied) \<Rightarrow> Some (Returned (Inr ()), st')
      | (st', Undef) \<Rightarrow> Some (Indeterminate, st')
      | (st', Blocked b) \<Rightarrow>
          if and (sem_flg (ops ! b)) IPC_NOWAIT \<noteq> 0 then Some (Returned (Inl EAGAIN), st')
          else if expired k then Some (Returned (Inl EAGAIN), st')
          else sem_loop n (Suc k) env expired st' f ops)"

definition sem_prologue ::
  "fdcache \<Rightarrow> sv_store \<Rightarrow> sv_proc \<Rightarrow> u32 \<Rightarrow> sembuf list \<Rightarrow> (errno + nat) \<times> fdcache \<times> sv_store" where
  "sem_prologue c st pr semid ops =
     (case sv_fd_get c st pr 1 semid of
        (Inl e, c1, st1) \<Rightarrow> (Inl e, c1, st1)
      | (Inr f, c1, st1) \<Rightarrow>
          (case live_hdr st1 f of
             None \<Rightarrow> (Inl EIDRM, sv_fd_cache_evict c1 1 semid, st1)
           | Some h \<Rightarrow>
               if \<exists>s \<in> set ops. ucast (sem_num s) \<ge> h_nsems h then (Inl EFBIG, c1, st1)
               else (Inr f, c1, st1)))"

text \<open>\<^verbatim>\<open>semop\<close>: \<open>ops = None\<close> is a null pointer; no deadline.\<close>

definition semop ::
  "nat \<Rightarrow> (nat \<Rightarrow> sv_store \<Rightarrow> sv_store) \<Rightarrow> fdcache \<Rightarrow> sv_store \<Rightarrow> sv_proc \<Rightarrow> u32 \<Rightarrow> sembuf list option \<Rightarrow>
   (verdict \<times> fdcache \<times> sv_store) option" where
  "semop fuel env c st pr semid ops0 =
     (case ops0 of
        None \<Rightarrow> Some (Returned (Inl EFAULT), c, st)
      | Some ops \<Rightarrow>
          (case sem_prologue c st pr semid ops of
             (Inl e, c1, st1) \<Rightarrow> Some (Returned (Inl e), c1, st1)
           | (Inr f, c1, st1) \<Rightarrow>
               map_option (\<lambda>(r, st2). (r, c1, st2)) (sem_loop fuel 0 env (\<lambda>_. False) st1 f ops)))"

text \<open>
  \<^verbatim>\<open>semtimedop\<close>: the timeout in seconds and nanoseconds; \<open>gone k\<close> is the time in
  milliseconds that has passed after the \<open>k\<close>-th pass. The deadline is a \<^verbatim>\<open>long\<close>, of \<open>lw\<close> bits (32 on i386,
  64 on x86_64); the multiplication wraps, as compiled code does. A negative deadline never passes.
\<close>

definition deadline_ms :: "nat \<Rightarrow> int \<Rightarrow> int \<Rightarrow> int" where
  "deadline_ms lw sec nsec = signed_take_bit (lw - 1) (sec * 1000 + nsec div 1000000)"

definition semtimedop ::
  "nat \<Rightarrow> nat \<Rightarrow> (nat \<Rightarrow> sv_store \<Rightarrow> sv_store) \<Rightarrow> (nat \<Rightarrow> int) \<Rightarrow> fdcache \<Rightarrow> sv_store \<Rightarrow> sv_proc \<Rightarrow> u32 \<Rightarrow>
   sembuf list option \<Rightarrow> (int \<times> int) option \<Rightarrow> (verdict \<times> fdcache \<times> sv_store) option" where
  "semtimedop fuel lw env gone c st pr semid ops0 timeout =
     (case timeout of
        None \<Rightarrow> semop fuel env c st pr semid ops0
      | Some (sec, nsec) \<Rightarrow>
          if sec < 0 \<or> nsec < 0 \<or> nsec \<ge> 1000000000 then Some (Returned (Inl EINVAL), c, st)
          else let deadline = deadline_ms lw sec nsec in
               case ops0 of
                 None \<Rightarrow> Some (Returned (Inl EFAULT), c, st)
               | Some ops \<Rightarrow>
                   (case sem_prologue c st pr semid ops of
                      (Inl e, c1, st1) \<Rightarrow> Some (Returned (Inl e), c1, st1)
                    | (Inr f, c1, st1) \<Rightarrow>
                        map_option (\<lambda>(r, st2). (r, c1, st2))
                          (sem_loop fuel 0 env (\<lambda>k. deadline = 0 \<or> deadline > 0 \<and> gone k \<ge> deadline) st1 f ops)))"

text \<open>The commands of \<^verbatim>\<open>semctl\<close> with the argument each one reads; a null array is \<open>None\<close>.\<close>

datatype semcmd = RMID | SETVAL u32 | GETVAL | SETALL "u16 list option" | GETALL bool | OtherCmd

datatype semres = SemInt u32 | SemArray "u16 list"

definition put_file :: "sv_store \<Rightarrow> nat \<Rightarrow> sv_content \<Rightarrow> sv_store" where
  "put_file st f c = st\<lparr>sv_files := (sv_files st)(f := c)\<rparr>"

definition all_count :: "u32 \<Rightarrow> nat" where
  "all_count nsems = (if nsems > 64 then 64 else unat nsems)"

definition semctl ::
  "fdcache \<Rightarrow> sv_store \<Rightarrow> sv_proc \<Rightarrow> u32 \<Rightarrow> u32 \<Rightarrow> semcmd \<Rightarrow> (errno + semres) \<times> fdcache \<times> sv_store" where
  "semctl c st pr semid semnum cmd =
     (case sv_fd_get c st pr 1 semid of
        (Inl e, c1, st1) \<Rightarrow> (Inl e, c1, st1)
      | (Inr f, c1, st1) \<Rightarrow>
          (case (live_hdr st1 f, sv_files st1 f) of
             (Some h, SvFile _ cs) \<Rightarrow>
               if h_itype h \<noteq> 1 then (Inl EINVAL, c1, st1)
               else (case cmd of
                       RMID \<Rightarrow> (Inr (SemInt 0), sv_fd_cache_evict c1 1 semid, put_file st1 f (SvFile (h\<lparr>h_destroy := 1\<rparr>) cs))
                     | SETVAL v \<Rightarrow>
                         if semnum \<ge> h_nsems h then (Inl EFBIG, c1, st1)
                         else (Inr (SemInt 0), c1, put_file st1 f (SvFile h (cs[unat semnum := v])))
                     | GETVAL \<Rightarrow>
                         if semnum \<ge> h_nsems h then (Inl EFBIG, c1, st1)
                         else if unat semnum < length cs then (Inr (SemInt (cs ! unat semnum)), c1, st1)
                         else (Inl EIO, c1, st1)
                     | SETALL arr \<Rightarrow>
                         (case arr of
                            None \<Rightarrow> (Inl EFAULT, c1, st1)
                          | Some a \<Rightarrow>
                              (let n = all_count (h_nsems h)
                               in (Inr (SemInt 0), c1, put_file st1 f (SvFile h (map ucast (take n a) @ drop n cs)))))
                     | GETALL present \<Rightarrow>
                         if \<not> present then (Inl EFAULT, c1, st1)
                         else (Inr (SemArray (map ucast (take (all_count (h_nsems h)) cs))), c1, st1)
                     | OtherCmd \<Rightarrow> (Inl EINVAL, c1, st1))
           | _ \<Rightarrow> (Inl EIDRM, sv_fd_cache_evict c1 1 semid, st1)))"

section \<open>Shared memory\<close>

definition shmget :: "sv_store \<Rightarrow> sv_proc \<Rightarrow> u32 \<Rightarrow> u64 \<Rightarrow> u32 \<Rightarrow> (errno + u32) \<times> sv_store" where
  "shmget st pr key sz0 shmflg =
     (let sz = (if sz0 \<noteq> 0 then ucast sz0 else 4096) in
      if key = 0 then
        (case sv_private_alloc st 2 of
           (None, st1) \<Rightarrow> (Inl EACCES, st1)
         | (Some pk, st1) \<Rightarrow>
             (case sv_obj_open st1 pr 2 pk True 0 sz of
                (Inl e, st2) \<Rightarrow> (Inl e, st2)
              | (Inr _, st2) \<Rightarrow> (Inr (sv_make_id 2 pk), st2)))
      else
        (case sv_obj_open st pr 2 key False 0 0 of
           (probe, st1) \<Rightarrow>
             if \<not> (case probe of Inl _ \<Rightarrow> False | Inr _ \<Rightarrow> True) \<and> and shmflg IPC_CREAT = 0 then (Inl ENOENT, st1)
             else (case sv_obj_open st1 pr 2 key True 0 sz of
                     (Inl e, st2) \<Rightarrow> (Inl e, st2)
                   | (Inr (_, created), st2) \<Rightarrow>
                       if \<not> created \<and> and shmflg IPC_EXCL \<noteq> 0 then (Inl EEXIST, st2)
                       else (Inr (sv_make_id 2 key), st2))))"

text \<open>
  \<^verbatim>\<open>shmat\<close>: \<open>map_at\<close> is the address \<^verbatim>\<open>mmap\<close> gives for a length, \<open>None\<close> on failure; the result
  points past the header.
\<close>

definition shm_mlen :: "u32 \<Rightarrow> u64" where
  "shm_mlen sz = and (ucast SV_HDR_SIZE + ucast (if sz \<noteq> 0 then sz else 4096) + 4095) (not 4095)"

definition shmat :: "sv_store \<Rightarrow> sv_proc \<Rightarrow> (u64 \<Rightarrow> u64 option) \<Rightarrow> u32 \<Rightarrow> u32 \<Rightarrow> (errno + u64) \<times> sv_store" where
  "shmat st pr map_at shmid shmflg =
     (case sv_obj_by_id st pr shmid of
        (Inl e, st1) \<Rightarrow> (Inl e, st1)
      | (Inr (f, _), st1) \<Rightarrow>
          (case sv_files st1 f of
             SvFile h cs \<Rightarrow>
               if h_magic h \<noteq> SV_MAGIC \<or> h_itype h \<noteq> 2 \<or> (h_destroy h \<noteq> 0 \<and> and shmflg SHM_RDONLY = 0)
               then (Inl EIDRM, st1)
               else let st2 = put_file st1 f (SvFile (h\<lparr>h_nattch := h_nattch h + 1\<rparr>) cs) in
                    (case map_at (shm_mlen (h_size h)) of
                       None \<Rightarrow> (Inl ENOMEM, st2)
                     | Some a \<Rightarrow> (Inr (a + ucast SV_HDR_SIZE), st2))
           | _ \<Rightarrow> (Inl EIDRM, st1)))"

text \<open>\<^verbatim>\<open>shmdt\<close>: the range that is unmapped.\<close>

definition shmdt :: "u64 \<Rightarrow> errno + (u64 \<times> u64)" where
  "shmdt a = (if a = 0 then Inl EINVAL else Inr (a - ucast SV_HDR_SIZE, ucast SV_HDR_SIZE + 4096))"

definition shmctl :: "sv_store \<Rightarrow> sv_proc \<Rightarrow> u32 \<Rightarrow> bool \<Rightarrow> (errno + unit) \<times> sv_store" where
  "shmctl st pr shmid is_rmid =
     (case sv_obj_by_id st pr shmid of
        (Inl e, st1) \<Rightarrow> (Inl e, st1)
      | (Inr (f, _), st1) \<Rightarrow>
          (case sv_files st1 f of
             SvFile h cs \<Rightarrow>
               if h_magic h \<noteq> SV_MAGIC \<or> h_itype h \<noteq> 2 then (Inl EINVAL, st1)
               else if \<not> is_rmid then (Inl EINVAL, st1)
               else let st2 = put_file st1 f (SvFile (h\<lparr>h_destroy := 1\<rparr>) cs) in
                    (Inr (), if h_nattch h = 0
                             then st2\<lparr>sv_names := (sv_names st2)(sv_path (p_dir pr) 2 (and shmid key_mask) := None)\<rparr>
                             else st2)
           | _ \<Rightarrow> (Inl EINVAL, st1)))"

section \<open>Store invariant\<close>

text \<open>
  Names lead to files in use; no two names share a file; a semaphore file has one cell per
  semaphore.
\<close>

definition file_wf :: "sv_content \<Rightarrow> bool" where
  "file_wf c \<longleftrightarrow>
     (case c of SvFile h cs \<Rightarrow> h_magic h = SV_MAGIC \<and> (h_itype h = 1 \<longrightarrow> length cs = unat (h_nsems h)) \<and>
                    (h_itype h \<noteq> 1 \<longrightarrow> h_nsems h = 0) | _ \<Rightarrow> True)"

definition sv_wf :: "sv_store \<Rightarrow> bool" where
  "sv_wf st \<longleftrightarrow>
     (\<forall>p i. sv_names st p = Some i \<longrightarrow> i < sv_next st) \<and>
     (\<forall>p q i. sv_names st p = Some i \<longrightarrow> sv_names st q = Some i \<longrightarrow> p = q) \<and>
     (\<forall>i. file_wf (sv_files st i))"

text \<open>The number of semaphores a set may have: the file length is computed in 32 bits.\<close>

definition small_set :: "u32 \<Rightarrow> bool" where
  "small_set nsems \<longleftrightarrow> unat nsems < 2 ^ 29 - 8"

lemma cell_count_small: "small_set nsems \<Longrightarrow> cell_count 1 nsems = unat nsems"
proof -
  assume "small_set nsems"
  then have n: "unat nsems < 2 ^ 29 - 8" by (simp add: small_set_def)
  have m: "unat (nsems * SV_SEM_STRIDE) = unat nsems * 8"
    using n by (subst unat_mult_small) (simp_all add: SV_SEM_STRIDE_def)
  have "unat (SV_HDR_SIZE + nsems * SV_SEM_STRIDE) = 48 + unat nsems * 8"
    using n m by (subst unat_add_small) (simp_all add: SV_HDR_SIZE_def)
  then show ?thesis by (simp add: cell_count_def)
qed

lemma length_resize_cells: "length (resize_cells n cs) = n"
  by (simp add: resize_cells_def)

lemma fresh_file_wf: "small_set nsems \<Longrightarrow> length cs = cell_count itype nsems \<Longrightarrow> file_wf (SvFile (fresh_hdr pr itype key nsems sz) cs)"
  using cell_count_small [of nsems] by (auto simp: file_wf_def fresh_hdr_def)

lemma obj_init_wf:
  "obj_init pr c created itype key create nsems sz = Inr (c', cr) \<Longrightarrow> file_wf c \<Longrightarrow> small_set nsems \<Longrightarrow> file_wf c'"
  by (auto simp: obj_init_def Let_def fresh_file_wf length_resize_cells split: if_splits sv_content.splits)

lemma put_file_wf: "sv_wf st \<Longrightarrow> file_wf c \<Longrightarrow> sv_wf (put_file st f c)"
  by (simp add: sv_wf_def put_file_def)

lemma sv_obj_open_wf:
  assumes wf: "sv_wf st" and n: "small_set nsems" and r: "sv_obj_open st pr itype key create nsems sz = (res, st')"
  shows "sv_wf st'"
proof -
  let ?p = "sv_path (p_dir pr) itype key"
  have old: "\<And>p i. sv_names st p = Some i \<Longrightarrow> i < sv_next st"
    and inj: "\<And>p q i. sv_names st p = Some i \<Longrightarrow> sv_names st q = Some i \<Longrightarrow> p = q"
    and files: "\<And>i. file_wf (sv_files st i)" using wf by (auto simp: sv_wf_def)
  show ?thesis
  proof (cases "sv_can_open st")
    case False
    with r wf show ?thesis by (simp add: sv_obj_open_def Let_def)
  next
    case True
    show ?thesis
    proof (cases "sv_names st ?p")
      case None
      let ?o = "obj_init pr SvEmpty True itype key create nsems sz"
      show ?thesis
      proof (cases "create")
        case True
        obtain c cr where o: "?o = Inr (c, cr)" by (simp add: obj_init_def Let_def)
        have fc: "file_wf c" by (rule obj_init_wf [OF o]) (simp_all add: file_wf_def n)
        have "st' = st\<lparr>sv_names := (sv_names st)(?p := Some (sv_next st)),
            sv_files := (sv_files st)(sv_next st := c), sv_next := Suc (sv_next st)\<rparr>"
          using r True None \<open>sv_can_open st\<close> o by (simp add: sv_obj_open_def Let_def)
        moreover have "i < Suc (sv_next st)" "i \<noteq> sv_next st" if "sv_names st q = Some i" for q i
          using old [OF that] by simp_all
        ultimately show ?thesis using fc files inj by (simp add: sv_wf_def) metis
      next
        case False
        with r None \<open>sv_can_open st\<close> wf show ?thesis by (simp add: sv_obj_open_def Let_def)
      qed
    next
      case (Some i)
      show ?thesis
      proof (cases "obj_init pr (sv_files st i) False itype key create nsems sz")
        case (Inl e)
        with r Some True wf show ?thesis by (simp add: sv_obj_open_def Let_def)
      next
        case (Inr x)
        obtain c cr where x: "x = (c, cr)" by (cases x)
        have "file_wf c" by (rule obj_init_wf [OF Inr [unfolded x]]) (simp_all add: files n)
        moreover have "st' = put_file st i c" using r Some True Inr x by (simp add: sv_obj_open_def Let_def put_file_def)
        ultimately show ?thesis using put_file_wf [OF wf] by simp
      qed
    qed
  qed
qed


lemma small_set_0: "small_set 0"
  by (simp add: small_set_def)

lemma sv_obj_by_id_wf: "sv_wf st \<Longrightarrow> sv_obj_by_id st pr raw = (r, st') \<Longrightarrow> sv_wf st'"
  by (auto simp: sv_obj_by_id_def Let_def split: if_splits intro: sv_obj_open_wf [OF _ small_set_0])






lemma sv_fd_get_wf: "sv_wf st \<Longrightarrow> sv_fd_get c st pr t i = (r, c', st') \<Longrightarrow> sv_wf st'"
  using sv_obj_by_id_wf [of st pr i]
  by (cases "sv_obj_by_id st pr i") (auto simp: sv_fd_get_def Let_def split: option.splits sum.splits prod.splits)

lemma live_hdr_SomeD: "live_hdr st f = Some h \<Longrightarrow> \<exists>cs. sv_files st f = SvFile h cs \<and> h_magic h = SV_MAGIC \<and> h_destroy h = 0"
  by (auto simp: live_hdr_def split: sv_content.splits if_splits)


text \<open>The array given to \<^verbatim>\<open>SETALL\<close> holds a value for every semaphore of the set.\<close>

definition cmd_ok :: "semcmd \<Rightarrow> bool" where
  "cmd_ok cmd \<longleftrightarrow> (case cmd of SETALL (Some a) \<Rightarrow> length a \<ge> 64 | _ \<Rightarrow> True)"






section \<open>Any interleaving of calls\<close>

text \<open>
  One step of some process: a locked section, a change of the directory, or a whole call that runs without interruption. The first
  six are what the calls consist of when others run in between: the exclusive creation of an empty file and the section that
  initialises it, the counter of private keys, and the sections of \<^verbatim>\<open>shmat\<close> and \<^verbatim>\<open>shmctl\<close> on an opened file. The sections of the
  semaphore calls on an open descriptor are those rules below whose cache holds the descriptor.
\<close>

inductive sv_step :: "sv_store \<Rightarrow> sv_store \<Rightarrow> bool" where
  create: "sv_names st p = None
    \<Longrightarrow> sv_step st (st\<lparr>sv_names := (sv_names st)(p := Some (sv_next st)), sv_files := (sv_files st)(sv_next st := SvEmpty), sv_next := Suc (sv_next st)\<rparr>)"
| init: "obj_init pr (sv_files st i) created itype key create nsems sz = Inr (c, cr) \<Longrightarrow> small_set nsems \<Longrightarrow> sv_step st (put_file st i c)"
| count: "sv_step st (snd (sv_private_alloc st itype))"
| attach: "sv_files st f = SvFile h cs \<Longrightarrow> sv_step st (put_file st f (SvFile (h\<lparr>h_nattch := h_nattch h + 1\<rparr>) cs))"
| mark: "sv_files st f = SvFile h cs \<Longrightarrow> sv_step st (put_file st f (SvFile (h\<lparr>h_destroy := 1\<rparr>) cs))"
| unlink: "sv_step st (st\<lparr>sv_names := (sv_names st)(p := None)\<rparr>)"
| semget: "nsems < 2 ^ 29 - 8 \<Longrightarrow> sv_step st (snd (semget st pr key nsems flg))"
| pass: "sv_step st (fst (sem_pass st f ops))"
| open_set: "sv_step st (snd (snd (sem_prologue c st pr semid ops)))"
| semctl: "cmd_ok cmd \<Longrightarrow> sv_step st (snd (snd (semctl c st pr semid semnum cmd)))"
| shmget: "sv_step st (snd (shmget st pr key sz0 flg))"
| shmat: "sv_step st (snd (shmat st pr map_at shmid flg))"
| shmctl: "sv_step st (snd (shmctl st pr shmid rm))"






definition sv_init :: sv_store where
  "sv_init = \<lparr>sv_names = (\<lambda>_. None), sv_files = (\<lambda>_. SvEmpty), sv_next = 0, sv_cnt = None, sv_can_open = True\<rparr>"



section \<open>Ids and file names\<close>

lemma key_mask_eq: "key_mask = mask 28"
  by (simp add: key_mask_def mask_eq_exp_minus_1)

lemma make_id_decode:
  assumes "itype = 1 \<or> itype = 2"
  shows "drop_bit 28 (sv_make_id itype key) = itype" and "and (sv_make_id itype key) key_mask = and key key_mask"
proof -
  have small: "bit itype n \<Longrightarrow> n < 4" for n
    using assms by (auto simp: bit_1_iff bit_2_iff)
  show "drop_bit 28 (sv_make_id itype key) = itype"
    unfolding sv_make_id_def key_mask_eq
    by (rule bit_word_eqI)
       (use small in \<open>auto simp: bit_drop_bit_eq bit_or_iff bit_and_iff bit_mask_iff bit_push_bit_iff\<close>)
  show "and (sv_make_id itype key) key_mask = and key key_mask"
    unfolding sv_make_id_def key_mask_eq
    by (rule bit_word_eqI) (auto simp: bit_or_iff bit_and_iff bit_mask_iff bit_push_bit_iff)
qed

lemma hex_digit_inj: "hex_digit a = hex_digit b \<Longrightarrow> and a 15 = and b 15"
proof -
  assume h: "hex_digit a = hex_digit b"
  have lt: "unat (and w 15) < 16" for w :: u32
  proof -
    have "and w 15 = take_bit 4 w" by (simp add: take_bit_eq_mask mask_eq_exp_minus_1)
    then show ?thesis by (simp add: unsigned_take_bit_eq take_bit_nat_def)
  qed
  let ?f = "\<lambda>n :: nat. if n < 10 then 48 + n else 87 + n"
  have "of_char (hex_digit w) = ?f (unat (and w 15))" for w
    using lt [of w] by (simp add: hex_digit_def Let_def)
  then have "?f (unat (and a 15)) = ?f (unat (and b 15))" using h by metis
  then have "unat (and a 15) = unat (and b 15)" using lt [of a] lt [of b] by (auto split: if_splits)
  then show ?thesis by (rule unsigned_word_eqI)
qed

lemma hex_digits_inj: "hex_digits n a = hex_digits n b \<Longrightarrow> take_bit (4 * n) a = take_bit (4 * n) (b :: u32)"
proof (induction n arbitrary: a b)
  case (Suc n)
  from Suc.prems have eq: "hex_digits n (drop_bit 4 a) = hex_digits n (drop_bit 4 b)" "hex_digit a = hex_digit b"
    by simp_all
  have hi: "take_bit (4 * n) (drop_bit 4 a) = take_bit (4 * n) (drop_bit 4 b)" using eq(1) by (rule Suc.IH)
  have lo: "and a 15 = and b 15" using eq(2) by (rule hex_digit_inj)
  have lo': "take_bit 4 a = take_bit 4 b" using lo by (simp add: take_bit_eq_mask mask_eq_exp_minus_1)
  show ?case
  proof (rule bit_word_eqI)
    fix k assume "k < LENGTH(32)"
    show "bit (take_bit (4 * Suc n) a) k = bit (take_bit (4 * Suc n) b) k"
    proof (cases "k < 4")
      case True
      have "bit (take_bit 4 a) k = bit (take_bit 4 b) k" by (simp only: lo')
      with True show ?thesis by (simp add: bit_take_bit_iff)
    next
      case False
      then have k: "4 + (k - 4) = k" by simp
      have "bit (take_bit (4 * n) (drop_bit 4 a)) (k - 4) = bit (take_bit (4 * n) (drop_bit 4 b)) (k - 4)"
        by (simp only: hi)
      then have "k - 4 < 4 * n \<longrightarrow> bit a k = bit b k"
        by (auto simp: bit_take_bit_iff bit_drop_bit_eq k)
      with False show ?thesis by (auto simp: bit_take_bit_iff)
    qed
  qed
qed simp

lemma sv_path_inj:
  assumes "length dir + 13 < 512"
  shows "sv_path dir t k = sv_path dir t' k' \<longleftrightarrow> (t = 1 \<longleftrightarrow> t' = 1) \<and> and k key_mask = and k' key_mask"
proof -
  have len: "length (hex_digits n w) = n" for n w by (induction n arbitrary: w) simp_all
  have p: "sv_path dir t k = dir @ ''/'' @ (if t = 1 then ''sem'' else ''shm'') @ ''-'' @ hex_digits 8 (and k key_mask)" for t k
    using assms len [of 8] by (simp add: sv_path_def snprintf_s_def)
  have "hex_digits 8 a = hex_digits 8 b \<longleftrightarrow> a = b" for a b
    using hex_digits_inj [of 8 a b] by (auto simp: take_bit_word_eq_self)
  then show ?thesis by (auto simp: p)
qed

section \<open>The classic operations\<close>

definition P_op :: sembuf where
  "P_op = \<lparr>sem_num = 0, sem_op = - 1, sem_flg = 0\<rparr>"

definition V_op :: sembuf where
  "V_op = \<lparr>sem_num = 0, sem_op = 1, sem_flg = 0\<rparr>"

lemma P_pass: "sv_semop_step (v # cs) 0 [P_op] = (if sint v \<ge> 1 then ((v - 1) # cs, Applied) else (v # cs, Blocked 0))"
  by (simp add: P_op_def)

lemma V_pass: "sv_semop_step (v # cs) 0 [V_op] = ((v + 1) # cs, Applied)"
  by (simp add: V_op_def)

section \<open>The retry loop\<close>

text \<open>The store before the \<open>k\<close>-th pass, when the passes before it were blocked.\<close>

fun wait_store :: "(nat \<Rightarrow> sv_store \<Rightarrow> sv_store) \<Rightarrow> nat \<Rightarrow> sembuf list \<Rightarrow> sv_store \<Rightarrow> nat \<Rightarrow> sv_store" where
  "wait_store env f ops st 0 = env 0 st"
| "wait_store env f ops st (Suc k) = env (Suc k) (fst (sem_pass (wait_store env f ops st k) f ops))"

text \<open>Whether a pass leaves the caller waiting, and what the call reports after one that does not.\<close>

definition waits :: "sembuf list \<Rightarrow> bool \<Rightarrow> pass \<Rightarrow> bool" where
  "waits ops late r = (case r of Blocked b \<Rightarrow> and (sem_flg (ops ! b)) IPC_NOWAIT = 0 \<and> \<not> late | _ \<Rightarrow> False)"

definition report :: "pass \<Rightarrow> verdict" where
  "report r = (case r of Applied \<Rightarrow> Returned (Inr ()) | PassErr e \<Rightarrow> Returned (Inl e) | Blocked b \<Rightarrow> Returned (Inl EAGAIN) | Undef \<Rightarrow> Indeterminate)"

lemma sem_loop_unfold:
  "sem_loop (Suc n) k env expired st f ops =
     (let (st', r) = sem_pass (env k st) f ops
      in if waits ops (expired k) r then sem_loop n (Suc k) env expired st' f ops else Some (report r, st'))"
  by (simp add: waits_def report_def split: pass.split prod.split)

fun wait_from :: "nat \<Rightarrow> (nat \<Rightarrow> sv_store \<Rightarrow> sv_store) \<Rightarrow> nat \<Rightarrow> sembuf list \<Rightarrow> sv_store \<Rightarrow> nat \<Rightarrow> sv_store" where
  "wait_from i env f ops st 0 = env i st"
| "wait_from i env f ops st (Suc k) = wait_from (Suc i) env f ops (fst (sem_pass (env i st) f ops)) k"

lemma wait_from_Suc:
  "wait_from i env f ops st (Suc k) = env (Suc (i + k)) (fst (sem_pass (wait_from i env f ops st k) f ops))"
  by (induction k arbitrary: i st) simp_all

lemma wait_store_from: "wait_store env f ops st k = wait_from 0 env f ops st k"
  by (induction k) (simp_all only: wait_store.simps wait_from_Suc wait_from.simps(1) add_0)

lemma sem_loop_first:
  assumes "k < n" and "\<And>j. j < k \<Longrightarrow> waits ops (expired (i + j)) (snd (sem_pass (wait_from i env f ops st j) f ops))"
    and "\<not> waits ops (expired (i + k)) (snd (sem_pass (wait_from i env f ops st k) f ops))"
  shows "sem_loop n i env expired st f ops =
    Some (report (snd (sem_pass (wait_from i env f ops st k) f ops)), fst (sem_pass (wait_from i env f ops st k) f ops))"
  using assms
proof (induction k arbitrary: i st n)
  case 0
  then obtain m where n: "n = Suc m" by (cases n) auto
  show ?case unfolding n sem_loop_unfold using 0 by (cases "sem_pass (env i st) f ops") simp
next
  case (Suc k)
  then obtain m where n: "n = Suc m" by (cases n) auto
  let ?st = "fst (sem_pass (env i st) f ops)"
  have "sem_loop n i env expired st f ops = sem_loop m (Suc i) env expired ?st f ops"
    unfolding n sem_loop_unfold using Suc.prems(2) [of 0] by (cases "sem_pass (env i st) f ops") simp
  also have "\<dots> = Some (report (snd (sem_pass (wait_from (Suc i) env f ops ?st k) f ops)), fst (sem_pass (wait_from (Suc i) env f ops ?st k) f ops))"
    using Suc.prems(1) Suc.prems(2) [of "Suc _"] Suc.prems(3) by (intro Suc.IH) (simp_all add: n)
  finally show ?case by simp
qed

section \<open>Sum of an applied pass\<close>

definition delta :: "nat \<Rightarrow> sembuf list \<Rightarrow> u32" where
  "delta k ops = (\<Sum>s\<leftarrow>ops. if unat (sem_num s) = k then word_of_int (sint (sem_op s)) else 0)"

lemma semop_step_sum:
  "sv_semop_step cs i ops = (cs', Applied) \<Longrightarrow> k < length cs \<Longrightarrow> cs' ! k = cs ! k + delta k ops"
proof (induction cs i ops rule: sv_semop_step.induct)
  case (1 cs i)
  then show ?case by (simp add: delta_def)
next
  case (2 cs i s ss)
  let ?n = "unat (sem_num s)" and ?op = "sint (sem_op s)"
  have n: "?n < length cs" using "2.prems" by (simp add: Let_def split: if_splits)
  have d: "delta k (s # ss) = (if ?n = k then word_of_int ?op else 0) + delta k ss" by (simp add: delta_def)
  consider (neg) "?op < 0" "sint (cs ! ?n) \<ge> - ?op" | (pos) "?op > 0" | (zero) "?op = 0" "cs ! ?n = 0"
    using "2.prems" n by (auto simp: Let_def split: if_splits)
  then show ?case
  proof cases
    case neg
    then have "sv_semop_step (cs[?n := cs ! ?n - word_of_int (- ?op)]) (Suc i) ss = (cs', Applied)"
      using "2.prems" n by (simp add: Let_def)
    then have "cs' ! k = cs[?n := cs ! ?n - word_of_int (- ?op)] ! k + delta k ss"
      using "2.IH"(1) [OF refl refl _ refl neg] "2.prems"(2) n by simp
    then show ?thesis using n d "2.prems"(2) by (auto simp: nth_list_update)
  next
    case pos
    then have "sv_semop_step (cs[?n := cs ! ?n + word_of_int ?op]) (Suc i) ss = (cs', Applied)"
      using "2.prems" n by (simp add: Let_def)
    then have "cs' ! k = cs[?n := cs ! ?n + word_of_int ?op] ! k + delta k ss"
      using "2.IH"(2) [OF refl refl _ refl _ pos] "2.prems"(2) n pos by simp
    then show ?thesis using n d "2.prems"(2) by (auto simp: nth_list_update)
  next
    case zero
    then have "sv_semop_step cs (Suc i) ss = (cs', Applied)" using "2.prems" n by (simp add: Let_def)
    then show ?thesis using "2.IH"(3) [OF refl refl _ refl] zero "2.prems"(2) n d by simp
  qed
qed

section \<open>Opening again what was opened\<close>

definition usable_at :: "sv_store \<Rightarrow> cstr \<Rightarrow> u32 \<Rightarrow> nat \<Rightarrow> bool" where
  "usable_at st p itype i \<longleftrightarrow>
     sv_can_open st \<and> sv_names st p = Some i \<and> (\<exists>h cs. sv_files st i = SvFile h cs \<and> hdr_usable itype h)"

lemma obj_init_usable:
  "obj_init pr c created itype key create nsems sz = Inr (c', cr) \<Longrightarrow> \<exists>h cs. c' = SvFile h cs \<and> hdr_usable itype h"
  by (auto simp: obj_init_def Let_def hdr_usable_def fresh_hdr_def split: if_splits sv_content.splits)

lemma sv_obj_open_usable:
  assumes "sv_obj_open st pr itype key create nsems sz = (Inr (i, cr), st')"
  shows "usable_at st' (sv_path (p_dir pr) itype key) itype i"
proof -
  have o: "sv_can_open st" using assms by (auto simp: sv_obj_open_def Let_def split: if_splits)
  show ?thesis
  proof (cases "sv_names st (sv_path (p_dir pr) itype key)")
    case None
    with assms o obtain c where "obj_init pr SvEmpty True itype key create nsems sz = Inr (c, cr)" "i = sv_next st"
      "st' = st\<lparr>sv_names := (sv_names st)(sv_path (p_dir pr) itype key := Some i), sv_files := (sv_files st)(i := c), sv_next := Suc i\<rparr>"
      by (auto simp: sv_obj_open_def Let_def split: if_splits sum.splits prod.splits)
    with obj_init_usable o show ?thesis by (fastforce simp: usable_at_def)
  next
    case (Some j)
    with assms o obtain c where "obj_init pr (sv_files st j) False itype key create nsems sz = Inr (c, cr)" "i = j"
      "st' = st\<lparr>sv_files := (sv_files st)(i := c)\<rparr>"
      by (auto simp: sv_obj_open_def Let_def split: if_splits sum.splits prod.splits)
    with obj_init_usable o Some show ?thesis by (fastforce simp: usable_at_def)
  qed
qed

lemma put_same: "sv_files st i = c \<Longrightarrow> st\<lparr>sv_files := (sv_files st)(i := c)\<rparr> = st"
  by (cases st) auto

lemma sv_obj_open_again:
  assumes "usable_at st (sv_path (p_dir pr) itype key) itype i"
  shows "sv_obj_open st pr itype key False nsems sz = (Inr (i, False), st)"
  using assms by (auto simp: usable_at_def sv_obj_open_def obj_init_def Let_def put_same)

lemma sv_path_masked: "sv_path dir t (and k key_mask) = sv_path dir t k"
  by (simp add: sv_path_def and.assoc)

lemma sv_obj_by_id_usable:
  assumes "itype = 1 \<or> itype = 2" and "usable_at st (sv_path (p_dir pr) itype key) itype i"
  shows "sv_obj_by_id st pr (sv_make_id itype key) = (Inr (i, False), st)"
proof -
  have "usable_at st (sv_path (p_dir pr) itype (and key key_mask)) itype i"
    using assms(2) by (simp only: sv_path_masked)
  then show ?thesis
    using assms(1) sv_obj_open_again [of st pr itype "and key key_mask" i 0 0]
    by (auto simp: sv_obj_by_id_def make_id_decode [OF assms(1)] Let_def)
qed

text \<open>The key under which \<^verbatim>\<open>semget\<close> opens its file.\<close>

definition semget_key :: "sv_store \<Rightarrow> u32 \<Rightarrow> u32" where
  "semget_key st key = (if key = 0 then the (fst (sv_private_alloc st 1)) else key)"

lemma semget_opened:
  assumes "semget st pr key nsems flg = (Inr semid, st')"
  shows "semid = sv_make_id 1 (semget_key st key) \<and> (\<exists>i. usable_at st' (sv_path (p_dir pr) 1 (semget_key st key)) 1 i)"
proof -
  have nn: "\<not> nsems < 0" using assms by (auto simp: semget_def)
  show ?thesis
  proof (cases "key = 0")
    case True
    obtain r1 s1 where o1: "sv_private_alloc st 1 = (r1, s1)" by (cases "sv_private_alloc st 1")
    with True nn assms obtain pk where pk: "r1 = Some pk" by (cases r1) (simp_all add: semget_def)
    have k: "semget_key st key = pk" using True o1 pk by (simp add: semget_key_def)
    let ?o = "sv_obj_open s1 pr 1 pk True (word_of_int (if nsems > 0 then nsems else 1)) 0"
    obtain r2 s2 where o2: "?o = (r2, s2)" by (cases ?o)
    with True nn assms o1 pk obtain x where "r2 = Inr x" "s2 = st'" "semid = sv_make_id 1 pk"
      by (cases r2) (simp_all add: semget_def)
    with o2 k show ?thesis by (cases x) (auto dest: sv_obj_open_usable)
  next
    case False
    have k: "semget_key st key = key" using False by (simp add: semget_key_def)
    show ?thesis
    proof (cases "and flg (or IPC_CREAT IPC_EXCL) = 0")
      case True
      obtain r2 s2 where o2: "sv_obj_open st pr 1 key False 0 0 = (r2, s2)" by (cases "sv_obj_open st pr 1 key False 0 0")
      with True False nn assms obtain x where "r2 = Inr x" "s2 = st'" "semid = sv_make_id 1 key"
        by (cases r2) (simp_all add: semget_def)
      with o2 k show ?thesis by (cases x) (auto dest: sv_obj_open_usable)
    next
      case nf: False
      let ?o = "sv_obj_open st pr 1 key True (word_of_int (if nsems > 1 then nsems else 1)) 0"
      obtain r2 s2 where o2: "?o = (r2, s2)" by (cases ?o)
      with nf False nn assms obtain x where "r2 = Inr x" by (cases r2) (simp_all add: semget_def)
      moreover obtain i cr where x: "x = (i, cr)" by (cases x)
      ultimately have "s2 = st'" "semid = sv_make_id 1 key"
        using nf False nn assms o2 by (auto simp: semget_def split: if_splits sv_content.splits)
      with o2 x \<open>r2 = Inr x\<close> k show ?thesis by (auto dest: sv_obj_open_usable)
    qed
  qed
qed

text \<open>A set that is opened for creation has room for the semaphores asked for.\<close>

lemma created_nsems:
  assumes "sv_obj_open st pr 1 key True nsems 0 = (Inr (i, True), st')"
  shows "\<exists>cs. sv_files st' i = SvFile (fresh_hdr pr 1 key nsems 0) cs"
  using assms
  by (auto simp: sv_obj_open_def obj_init_def Let_def split: if_splits option.splits sum.splits prod.splits sv_content.splits)

lemma semget_nsems:
  assumes "semget st pr key nsems flg = (Inr semid, st')" "key \<noteq> 0" "and flg (or IPC_CREAT IPC_EXCL) \<noteq> 0" "1 < nsems" "nsems < 2 ^ 31"
  shows "\<exists>i h cs. sv_names st' (sv_path (p_dir pr) 1 key) = Some i \<and> sv_files st' i = SvFile h cs \<and> nsems \<le> uint (h_nsems h)"
proof -
  let ?o = "sv_obj_open st pr 1 key True (word_of_int nsems) 0"
  obtain r2 s2 where o2: "?o = (r2, s2)" by (cases ?o)
  with assms obtain x where x: "r2 = Inr x" by (cases r2) (simp_all add: semget_def)
  obtain i cr where i: "x = (i, cr)" by (cases x)
  have n: "uint (word_of_int nsems :: u32) = nsems" using assms(4,5) by (simp add: uint_word_of_int)
  have st: "s2 = st'" using assms o2 x i by (auto simp: semget_def split: if_splits sv_content.splits)
  have u: "usable_at st' (sv_path (p_dir pr) 1 key) 1 i" using sv_obj_open_usable o2 x i st by blast
  show ?thesis
  proof (cases cr)
    case True
    then obtain cs where "sv_files st' i = SvFile (fresh_hdr pr 1 key (word_of_int nsems) 0) cs" using created_nsems [of st pr key "word_of_int nsems" i st'] o2 x i st by auto
    then show ?thesis using u n by (auto simp: usable_at_def fresh_hdr_def)
  next
    case False
    then have "case sv_files st' i of SvFile h _ \<Rightarrow> \<not> h_nsems h < word_of_int nsems | _ \<Rightarrow> False"
      using assms o2 x i st by (auto simp: semget_def split: if_splits sv_content.splits)
    then show ?thesis using u n by (auto simp: usable_at_def not_less word_le_def)
  qed
qed

section \<open>The descriptor cache remembers\<close>

lemma sv_fd_key_nonzero: "sv_fd_key 1 i \<noteq> 0"
proof
  assume "sv_fd_key 1 i = 0"
  then have "bit (sv_fd_key 1 i) 32 = False" by simp
  then show False by (simp add: sv_fd_key_def bit_or_iff bit_push_bit_iff)
qed

lemma fdc_find_free:
  assumes "k \<noteq> 0" and "fdc_free c b = Some j"
  shows "b \<le> j \<and> j - b < length c \<and> fdc_find (c[j - b := (k, f)]) k b \<noteq> None \<and>
         (fdc_find c k b = None \<longrightarrow> fdc_find (c[j - b := (k, f)]) k b = Some j)"
  using assms
proof (induction c arbitrary: b)
  case (Cons s ss)
  show ?case
  proof (cases "fst s = 0")
    case True
    with Cons show ?thesis by simp
  next
    case False
    with Cons.prems have "fdc_free ss (Suc b) = Some j" by simp
    note IH = Cons.IH [OF Cons.prems(1) this]
    then have "Suc b \<le> j" by blast
    then have "j - b = Suc (j - Suc b)" by (simp add: Suc_diff_Suc)
    with IH False show ?thesis by simp
  qed
qed simp

lemma sv_fd_get_again:
  assumes "length c = SV_FD_CAP" and "sv_fd_get c st pr 1 i = (Inr f, c1, st1)"
  shows "length c1 = SV_FD_CAP \<and> sv_fd_get c1 st' pr 1 i = (Inr f, c1, st')"
proof (cases "sv_fd_cache_find c 1 i")
  case (Some j)
  with assms show ?thesis by (auto simp: sv_fd_get_def)
next
  case None
  let ?k = "sv_fd_key 1 i" and ?idx = "case fdc_free c 0 of Some j \<Rightarrow> j | None \<Rightarrow> 0"
  have c1: "c1 = c[?idx := (?k, f)]"
    using assms None by (auto simp: sv_fd_get_def Let_def split: prod.splits sum.splits)
  have "fdc_find c1 ?k 0 = Some ?idx \<and> ?idx < length c"
  proof (cases "fdc_free c 0")
    case None
    have "c = hd c # tl c" using assms(1) by (cases c) (simp_all add: SV_FD_CAP_def)
    then have "c1 = (?k, f) # tl c" using c1 None by (metis list_update_code(2) option.simps(4))
    with assms(1) None show ?thesis by (simp add: SV_FD_CAP_def)
  next
    case (Some j)
    with fdc_find_free [OF sv_fd_key_nonzero Some, where f = f] None c1 show ?thesis
      by (simp add: sv_fd_cache_find_def)
  qed
  with assms(1) show ?thesis by (simp add: sv_fd_get_def sv_fd_cache_find_def c1)
qed

section \<open>No pass leaves the file\<close>





section \<open>Properties\<close>

definition demo_hdr :: sv_hdr where
  "demo_hdr = fresh_hdr \<lparr>p_dir = ''/d'', p_pid = 1\<rparr> 1 7 1 0"

definition demo_store :: "u32 \<Rightarrow> sv_store" where
  "demo_store v = sv_init\<lparr>sv_files := (\<lambda>_. SvEmpty)(0 := SvFile demo_hdr [v])\<rparr>"



text \<open>
  C17: round trip through the id. The id that \<^verbatim>\<open>semget\<close> returns leads every process with the same directory to the file that \<^verbatim>\<open>semget\<close>
  opened, the one its key is the name of (a fresh private key for \<^verbatim>\<open>IPC_PRIVATE\<close>), without changing the store; that file is
  a live semaphore set, and when the call asked for creation under a key it has at least the semaphores asked for.
\<close>

theorem semget_by_id:
  assumes "semget st pr key nsems flg = (Inr semid, st')" and "p_dir pr' = p_dir pr" and "nsems < 2 ^ 31"
  shows "\<exists>i h cs. sv_names st' (sv_path (p_dir pr) 1 (semget_key st key)) = Some i \<and> sv_obj_by_id st' pr' semid = (Inr (i, False), st') \<and>
     sv_files st' i = SvFile h cs \<and> hdr_usable 1 h \<and>
     (key \<noteq> 0 \<and> and flg (or IPC_CREAT IPC_EXCL) \<noteq> 0 \<and> 1 < nsems \<longrightarrow> nsems \<le> uint (h_nsems h))"
proof -
  obtain i where i: "semid = sv_make_id 1 (semget_key st key)" "usable_at st' (sv_path (p_dir pr) 1 (semget_key st key)) 1 i"
    using semget_opened [OF assms(1)] by blast
  then have "sv_obj_by_id st' pr' semid = (Inr (i, False), st')"
    using sv_obj_by_id_usable [of 1 st' pr' "semget_key st key" i] assms(2) by simp
  moreover obtain h cs where h: "sv_names st' (sv_path (p_dir pr) 1 (semget_key st key)) = Some i" "sv_files st' i = SvFile h cs" "hdr_usable 1 h"
    using i(2) by (auto simp: usable_at_def)
  moreover have "nsems \<le> uint (h_nsems h)" if "key \<noteq> 0" "and flg (or IPC_CREAT IPC_EXCL) \<noteq> 0" "1 < nsems"
    using semget_nsems [OF assms(1) that assms(3)] h that(1) by (auto simp: semget_key_def)
  ultimately show ?thesis by blast
qed

theorem semget_by_id_witness:
  "\<exists>semid st' i. semget sv_init \<lparr>p_dir = ''/d'', p_pid = 1\<rparr> 7 2 IPC_CREAT = (Inr semid, st') \<and>
     sv_names st' ''/d/sem-00000007'' = Some i \<and> sv_obj_by_id st' \<lparr>p_dir = ''/d'', p_pid = 2\<rparr> semid = (Inr (i, False), st')"
proof -
  let ?r = "semget sv_init \<lparr>p_dir = ''/d'', p_pid = 1\<rparr> 7 2 IPC_CREAT"
  have "fst ?r = Inr (sv_make_id 1 7)"
    by (simp add: semget_def sv_init_def sv_obj_open_def obj_init_def Let_def IPC_CREAT_def IPC_EXCL_def)
  then have r: "?r = (Inr (sv_make_id 1 7), snd ?r)" by (cases ?r) simp
  have p: "sv_path ''/d'' 1 (semget_key sv_init 7) = ''/d/sem-00000007''" by code_simp
  from semget_by_id [OF r, of "\<lparr>p_dir = ''/d'', p_pid = 2\<rparr>"] r p show ?thesis by auto
qed

text \<open>
  C18: what \<^verbatim>\<open>SETVAL\<close> stored is what \<^verbatim>\<open>GETVAL\<close> reads, through the same thread's descriptor
  cache.
\<close>

theorem semctl_setval_getval:
  assumes "sv_wf st" and "length c = SV_FD_CAP" and "semctl c st pr semid k (SETVAL v) = (Inr r, c1, st1)"
  shows "fst (semctl c1 st1 pr semid k GETVAL) = Inr (SemInt v)"
proof -
  obtain r0 c0 s0 where g: "sv_fd_get c st pr 1 semid = (r0, c0, s0)" by (cases "sv_fd_get c st pr 1 semid")
  have "\<exists>f. r0 = Inr f" using assms(3) g by (cases r0) (simp_all add: semctl_def)
  then obtain f where f: "r0 = Inr f" by blast
  have "live_hdr s0 f \<noteq> None" using assms(3) g f by (cases "live_hdr s0 f") (simp_all add: semctl_def)
  then obtain h where h: "live_hdr s0 f = Some h" by blast
  then obtain cs where cs: "sv_files s0 f = SvFile h cs" "h_magic h = SV_MAGIC" "h_destroy h = 0" using live_hdr_SomeD by blast
  have t: "h_itype h = 1" "\<not> k \<ge> h_nsems h" and res: "c1 = c0" "st1 = put_file s0 f (SvFile h (cs[unat k := v]))"
    using assms(3) g f h cs by (auto simp: semctl_def split: if_splits)
  have fw: "file_wf (SvFile h cs)" using sv_fd_get_wf [OF assms(1) g] cs(1) by (auto simp: sv_wf_def dest: spec [of _ f])
  have k: "unat k < length cs" using fw t by (simp add: file_wf_def word_le_nat_alt)
  have again: "sv_fd_get c0 st1 pr 1 semid = (Inr f, c0, st1)"
    using sv_fd_get_again [OF assms(2) g [unfolded f]] by simp
  have l: "live_hdr st1 f = Some h" using cs by (simp add: res live_hdr_def put_file_def)
  have "sv_files st1 f = SvFile h (cs[unat k := v])" by (simp add: res put_file_def)
  with again l t k res(1) show ?thesis by (simp add: semctl_def)
qed

theorem semctl_setval_getval_witness:
  "\<exists>c1 st1. semctl [(sv_fd_key 1 9, 0), (0, 0), (0, 0), (0, 0), (0, 0), (0, 0), (0, 0), (0, 0)] (demo_store 1) \<lparr>p_dir = ''/d'', p_pid = 1\<rparr> 9 0 (SETVAL 4) =
       (Inr (SemInt 0), c1, st1) \<and> fst (semctl c1 st1 \<lparr>p_dir = ''/d'', p_pid = 1\<rparr> 9 0 GETVAL) = Inr (SemInt 4)"
proof -
  let ?c = "[(sv_fd_key 1 9, 0), (0, 0), (0, 0), (0, 0), (0, 0), (0, 0), (0, 0), (0, 0)] :: fdcache"
  let ?r = "semctl ?c (demo_store 1) \<lparr>p_dir = ''/d'', p_pid = 1\<rparr> 9 0 (SETVAL 4)"
  have w: "sv_wf (demo_store 1)"
    by (simp add: sv_wf_def demo_store_def sv_init_def file_wf_def demo_hdr_def fresh_hdr_def)
  have l: "length ?c = SV_FD_CAP" by (simp add: SV_FD_CAP_def)
  have "fst ?r = Inr (SemInt 0)"
    by (simp add: semctl_def sv_fd_get_def sv_fd_cache_find_def live_hdr_def demo_store_def demo_hdr_def fresh_hdr_def)
  then have r: "?r = (Inr (SemInt 0), fst (snd ?r), snd (snd ?r))" by (cases ?r) simp
  from semctl_setval_getval [OF w l r] r show ?thesis by blast
qed

text \<open>
  C19: the retry loop of \<^verbatim>\<open>semop\<close> and \<^verbatim>\<open>semtimedop\<close>, whatever the other processes do between the passes. When some pass does not leave
  the caller waiting, because it is not blocked, or the blocked operation has \<^verbatim>\<open>IPC_NOWAIT\<close>, or the deadline has passed, the loop
  returns after the first such pass, with the store that this pass left. It reports success exactly when the pass was applied,
  \<^verbatim>\<open>EAGAIN\<close> when it was blocked, and the error of the pass otherwise.
\<close>

theorem sem_loop_returns:
  assumes "k < n" and "\<not> waits ops (expired k) (snd (sem_pass (wait_store env f ops st k) f ops))"
  shows "\<exists>j \<le> k. \<exists>st' r. sem_pass (wait_store env f ops st j) f ops = (st', r) \<and> \<not> waits ops (expired j) r \<and>
    (\<forall>i < j. waits ops (expired i) (snd (sem_pass (wait_store env f ops st i) f ops))) \<and>
    sem_loop n 0 env expired st f ops = Some (report r, st') \<and>
    (report r = Returned (Inr ()) \<longleftrightarrow> r = Applied)"
proof -
  let ?p = "\<lambda>i. sem_pass (wait_store env f ops st i) f ops"
  define j where "j = (LEAST i. \<not> waits ops (expired i) (snd (?p i)))"
  have j: "\<not> waits ops (expired j) (snd (?p j))" "j \<le> k" 
    unfolding j_def using LeastI [of "\<lambda>i. \<not> waits ops (expired i) (snd (?p i))"] Least_le [of "\<lambda>i. \<not> waits ops (expired i) (snd (?p i))"] assms(2) by blast+
  have before: "waits ops (expired i) (snd (?p i))" if "i < j" for i using not_less_Least that unfolding j_def by blast
  have "sem_loop n 0 env expired st f ops = Some (report (snd (?p j)), fst (?p j))"
    using sem_loop_first [of j n ops expired 0 env f st] before j assms(1) by (simp add: wait_store_from)
  moreover have "report r = Returned (Inr ()) \<longleftrightarrow> r = Applied" for r by (simp add: report_def split: pass.split)
  ultimately show ?thesis using j before
    by (intro exI [of _ j] conjI exI [of _ "fst (?p j)"] exI [of _ "snd (?p j)"]) (simp_all add: prod_eq_iff)
qed

theorem sem_loop_returns_witness:
  "\<exists>st'. sem_loop 2 0 (\<lambda>k st. if k = 1 then demo_store 1 else st) (\<lambda>_. False) (demo_store 0) 0 [P_op] = Some (Returned (Inr ()), st')"
proof -
  let ?env = "\<lambda>k st. if k = 1 then demo_store 1 else st"
  have e: "snd (sem_pass (wait_store ?env 0 [P_op] (demo_store 0) 1) 0 [P_op]) = Applied"
      "snd (sem_pass (wait_store ?env 0 [P_op] (demo_store 0) 0) 0 [P_op]) = Blocked 0"
    by (simp_all add: sem_pass_def demo_store_def P_pass del: sv_semop_step.simps)
  have w: "waits [P_op] False (Blocked 0)" "\<not> waits [P_op] False Applied" by (simp_all add: waits_def P_op_def)
  obtain j st' r where j: "j \<le> 1" "sem_pass (wait_store ?env 0 [P_op] (demo_store 0) j) 0 [P_op] = (st', r)" "\<not> waits [P_op] False r"
    "sem_loop 2 0 ?env (\<lambda>_. False) (demo_store 0) 0 [P_op] = Some (report r, st')"
    using sem_loop_returns [of 1 2 "[P_op]" "\<lambda>_. False" ?env 0 "demo_store 0"] e w by auto
  have "j = 1" using j(1-3) e(2) w(1) by (cases j) auto
  then have "r = Applied" using j(2) e(1) by simp
  then show ?thesis using j(4) by (simp add: report_def)
qed

text \<open>
  C20: a pass that is applied adds to every semaphore exactly the sum of the operations on it,
  in 32-bit arithmetic.
\<close>

theorem semop_applied_sum:
  assumes "sv_semop_step cs 0 ops = (cs', Applied)" and "k < length cs"
  shows "cs' ! k = cs ! k + delta k ops"
  by (rule semop_step_sum [OF assms])

theorem semop_applied_sum_witness:
  "sv_semop_step [3, 0] 0 [\<lparr>sem_num = 0, sem_op = - 2, sem_flg = 0\<rparr>, \<lparr>sem_num = 1, sem_op = 5, sem_flg = 0\<rparr>] = ([1, 5], Applied) \<and>
   [1, 5] ! 0 = [3, 0 :: u32] ! 0 + delta 0 [\<lparr>sem_num = 0, sem_op = - 2, sem_flg = 0\<rparr>, \<lparr>sem_num = 1, sem_op = 5, sem_flg = 0\<rparr>]"
proof -
  have s: "sv_semop_step [3, 0] 0 [\<lparr>sem_num = 0, sem_op = - 2, sem_flg = 0\<rparr>, \<lparr>sem_num = 1, sem_op = 5, sem_flg = 0\<rparr>] = ([1, 5], Applied)"
    by (simp add: Let_def)
  from semop_applied_sum [OF s, of 0] s show ?thesis by simp
qed

section \<open>Observations\<close>

text \<open>
  A pass is not atomic: the operations before the blocked one have been applied, and the
  retry applies them again.
\<close>

lemma semop_not_atomic:
  "sv_semop_step [2, 0] 0 [P_op, \<lparr>sem_num = 1, sem_op = - 1, sem_flg = 0\<rparr>] = ([1, 0], Blocked 1)"
  "sv_semop_step [1, 0] 0 [P_op, \<lparr>sem_num = 1, sem_op = - 1, sem_flg = 0\<rparr>] = ([0, 0], Blocked 1)"
  by (simp_all add: P_op_def Let_def)

text \<open>The first private set has key 1, the file of the public key 1.\<close>

lemma private_aliases_public: "fst (sv_private_alloc sv_init 1) = Some 1"
  by (simp add: sv_private_alloc_def sv_private_id_alloc_def sv_init_def key_mask_def)

text \<open>Keys that agree on their low 28 bits share a file.\<close>

lemma keys_collide: "sv_path dir t 0x10000005 = sv_path dir t 5"
  by (simp add: sv_path_def key_mask_def)

text \<open>A missing set is reported as removed, also by the pure lookup whose comment promises \<^verbatim>\<open>ENOENT\<close>.\<close>

lemma lookup_missing: "fst (semget sv_init pr 7 1 0) = Inl EIDRM"
  by (simp add: semget_def sv_obj_open_def sv_init_def IPC_CREAT_def IPC_EXCL_def)

text \<open>
  The lock is dropped between the check of the semaphore numbers and the first pass. When the set is removed and created again with
  fewer semaphores in between, the pass reads a cell that is not there.
\<close>

definition set_of_size :: "u32 \<Rightarrow> u32 list \<Rightarrow> sv_content" where
  "set_of_size n cs = SvFile (fresh_hdr \<lparr>p_dir = ''/d'', p_pid = 1\<rparr> 1 7 n 0) cs"

lemma check_then_shrink:
  defines "ops \<equiv> [\<lparr>sem_num = 1, sem_op = - 1, sem_flg = 0\<rparr>]" and "st \<equiv> put_file sv_init 0 (set_of_size 2 [5, 5])" and "st2 \<equiv> put_file sv_init 0 (set_of_size 1 [5])"
  shows "fst (sem_prologue [(sv_fd_key 1 9, 0)] st \<lparr>p_dir = ''/d'', p_pid = 1\<rparr> 9 ops) = Inr 0"
    and "sv_step\<^sup>*\<^sup>* st st2" and "snd (sem_pass st 0 ops) = Applied" and "snd (sem_pass st2 0 ops) = Undef"
proof -
  let ?pr = "\<lparr>p_dir = ''/d'', p_pid = 1\<rparr>" and ?gone = "SvFile (fresh_hdr \<lparr>p_dir = ''/d'', p_pid = 1\<rparr> 1 7 2 0\<lparr>h_destroy := 1\<rparr>) [5, 5]"
  show "fst (sem_prologue [(sv_fd_key 1 9, 0)] st ?pr 9 ops) = Inr 0"
    by (simp add: st_def ops_def put_file_def set_of_size_def sem_prologue_def sv_fd_get_def sv_fd_cache_find_def live_hdr_def fresh_hdr_def word_le_nat_alt)
  have a: "sv_step st (put_file sv_init 0 ?gone)"
    using sv_step.mark [of st 0 "fresh_hdr ?pr 1 7 2 0" "[5, 5]"] by (simp add: st_def put_file_def set_of_size_def)
  have o: "obj_init ?pr ?gone False 1 7 True 1 0 = Inr (set_of_size 1 [5], True)"
    by (simp add: obj_init_def hdr_usable_def resize_cells_def cell_count_def SV_HDR_SIZE_def SV_SEM_STRIDE_def Let_def set_of_size_def)
  have "sv_step (put_file sv_init 0 ?gone) st2"
    using sv_step.init [of ?pr "put_file sv_init 0 ?gone" 0 False 1 7 True 1 0 "set_of_size 1 [5]" True] o
    by (simp add: st2_def put_file_def small_set_def)
  then show "sv_step\<^sup>*\<^sup>* st st2" using a by (meson rtranclp.rtrancl_into_rtrancl r_into_rtranclp)
  show "snd (sem_pass st 0 ops) = Applied" "snd (sem_pass st2 0 ops) = Undef"
    by (simp_all add: st_def st2_def ops_def sem_pass_def put_file_def set_of_size_def Let_def)
qed

text \<open>On i386, where a \<^verbatim>\<open>long\<close> has 32 bits, a timeout of 25 days is a negative deadline, which never passes.\<close>

lemma deadline_wraps: "deadline_ms 32 (25 * 86400) 0 = - 2134967296" "deadline_ms 64 (25 * 86400) 0 = 2160000000"
  by code_simp+

text \<open>A set that was removed and created again keeps its old values.\<close>

lemma recreate_keeps_cells:
  "obj_init pr (SvFile (demo_hdr\<lparr>h_destroy := 1\<rparr>) [9]) False 1 7 True 1 0 = Inr (SvFile (fresh_hdr pr 1 7 1 0) [9], True)"
  by (simp add: obj_init_def hdr_usable_def resize_cells_def cell_count_def SV_HDR_SIZE_def SV_SEM_STRIDE_def Let_def)

text \<open>An evicted slot hides the slots after it.\<close>

lemma evict_hides: "fdc_find [(0, 0), (k, f)] k 0 = (if k = 0 then Some 0 else None)"
  by simp

end
