(* ===== verification/Sprout_Config.thy ===== *)
theory Sprout_Config
  imports Sprout_Prelude "HOL-Library.Multiset"
begin

text \<open>
  The configuration of the preload core: \<^verbatim>\<open>sp_bind_t\<close> and \<^verbatim>\<open>sp_config_t\<close> of
  \<^verbatim>\<open>sprout_preload.h\<close> and \<^verbatim>\<open>sp_config_load\<close> of \<^verbatim>\<open>sprout_preload.c\<close>, which parses the
  \<^verbatim>\<open>SPROUT_*\<close> environment. The \<open>_len\<close> fields of the C structures always hold the
  \<^verbatim>\<open>strlen\<close> of the string beside them and are the list lengths here.

  Shown: a loaded configuration is well formed whatever the environment holds, and its
  binding table is the parsed table, stably sorted by descending guest length.
\<close>

section \<open>Data\<close>

record sp_bind =
  bind_host :: cstr
  bind_guest :: cstr

record sp_config =
  rootfs :: cstr
  binds :: "sp_bind list"
  passthrough :: "cstr list"
  cfg_debug :: bool
  cfg_fakeroot :: bool
  cfg_link2symlink :: bool

section \<open>Loading\<close>

definition copy_str :: "nat \<Rightarrow> cstr \<Rightarrow> cstr" where
  "copy_str cap src = (let n = length src; n' = (if n \<ge> cap then cap - 1 else n) in take n' src)"

function strip_trailing_slashes :: "cstr \<Rightarrow> cstr" where
  "strip_trailing_slashes s =
     (if length s > 1 \<and> last s = slash then strip_trailing_slashes (butlast s) else s)"
  by pat_completeness auto
termination
  by (relation "measure length") auto

declare strip_trailing_slashes.simps [simp del]

definition default_pt :: "cstr list" where
  "default_pt = [''/proc'', ''/sys'', ''/dev'']"

text \<open>The loop over \<^verbatim>\<open>SPROUT_PASSTHROUGH\<close> tokens; \<open>acc\<close> is the table filled so far.\<close>

fun load_passthrough :: "cstr list \<Rightarrow> cstr list \<Rightarrow> cstr list" where
  "load_passthrough acc [] = acc"
| "load_passthrough acc (tok # toks) =
     (if length acc \<ge> SP_MAX_PASSTHROUGH then acc
      else if char_at tok 0 \<noteq> slash then load_passthrough acc toks
      else load_passthrough (acc @ [tok]) toks)"

text \<open>One \<^verbatim>\<open>host=guest\<close> token; \<^term>\<open>None\<close> is the \<^verbatim>\<open>continue\<close> of the loop.\<close>

definition parse_bind :: "cstr \<Rightarrow> sp_bind option" where
  "parse_bind tok =
     (case strchr tok CHR ''='' of
        None \<Rightarrow> None
      | Some eq \<Rightarrow>
          (let h = take eq tok; g = drop (Suc eq) tok in
           if char_at h 0 \<noteq> slash \<or> char_at g 0 \<noteq> slash then None
           else if h = g \<and> (h = ''/proc'' \<or> h = ''/sys'' \<or> h = ''/dev'') then None
           else Some \<lparr>bind_host = strip_trailing_slashes (copy_str SP_PATH_MAX h),
                      bind_guest = strip_trailing_slashes (copy_str SP_PATH_MAX g)\<rparr>))"

fun load_binds :: "sp_bind list \<Rightarrow> cstr list \<Rightarrow> sp_bind list" where
  "load_binds acc [] = acc"
| "load_binds acc (tok # toks) =
     (if length acc \<ge> SP_MAX_BINDS then acc
      else case parse_bind tok of
             None \<Rightarrow> load_binds acc toks
           | Some b \<Rightarrow> load_binds (acc @ [b]) toks)"

text \<open>
  The insertion sort. \<open>shift_in key rp\<close> walks the sorted part from its right end (so the
  part is given reversed), moving every entry with a shorter guest one slot up, and puts
  \<open>key\<close> behind the first entry that is not shorter.
\<close>

fun shift_in :: "sp_bind \<Rightarrow> sp_bind list \<Rightarrow> sp_bind list" where
  "shift_in key [] = [key]"
| "shift_in key (b # rp) =
     (if length (bind_guest b) < length (bind_guest key) then b # shift_in key rp
      else key # b # rp)"

fun insort_loop :: "sp_bind list \<Rightarrow> sp_bind list \<Rightarrow> sp_bind list" where
  "insort_loop done_rev [] = rev done_rev"
| "insort_loop done_rev (key # todo) = insort_loop (shift_in key done_rev) todo"

definition sort_binds :: "sp_bind list \<Rightarrow> sp_bind list" where
  "sort_binds bs = insort_loop [] bs"

definition sp_config_load :: "env \<Rightarrow> sp_config" where
  "sp_config_load env =
     \<lparr>rootfs = (case getenv env ''SPROUT_ROOTFS'' of
                  None \<Rightarrow> []
                | Some r \<Rightarrow> if char_at r 0 = slash
                            then strip_trailing_slashes (copy_str SP_PATH_MAX r) else []),
      binds = (case getenv env ''SPROUT_BIND'' of
                 None \<Rightarrow> []
               | Some v \<Rightarrow> sort_binds (load_binds [] (strtok_all CHR '';'' (copy_str 8192 v)))),
      passthrough = (case getenv env ''SPROUT_PASSTHROUGH'' of
                       None \<Rightarrow> default_pt
                     | Some v \<Rightarrow> if v = [] then default_pt
                                 else load_passthrough [] (strtok_all CHR '';'' (copy_str 2048 v))),
      cfg_debug = env_is_1 (getenv env ''SPROUT_DEBUG''),
      cfg_fakeroot = env_is_1 (getenv env ''SPROUT_FAKEROOT''),
      cfg_link2symlink = env_is_1 (getenv env ''SPROUT_LINK2SYMLINK'')\<rparr>"

section \<open>Well-formedness\<close>

text \<open>
  \<open>wf_abs p\<close>: an absolute path that fits a path buffer and has no trailing slash unless
  it is the root directory itself.
\<close>

definition wf_abs :: "cstr \<Rightarrow> bool" where
  "wf_abs p \<longleftrightarrow> p \<noteq> [] \<and> hd p = slash \<and> length p < SP_PATH_MAX \<and> (last p = slash \<longrightarrow> p = [slash])"

definition longest_first :: "sp_bind list \<Rightarrow> bool" where
  "longest_first bs \<longleftrightarrow> sorted_wrt (\<lambda>a b. length (bind_guest b) \<le> length (bind_guest a)) bs"

definition wf_config :: "sp_config \<Rightarrow> bool" where
  "wf_config c \<longleftrightarrow>
     (rootfs c = [] \<or> wf_abs (rootfs c)) \<and>
     (\<forall>b \<in> set (binds c). wf_abs (bind_host b) \<and> wf_abs (bind_guest b)) \<and>
     length (binds c) \<le> SP_MAX_BINDS \<and>
     longest_first (binds c) \<and>
     (\<forall>p \<in> set (passthrough c). p \<noteq> [] \<and> hd p = slash) \<and>
     length (passthrough c) \<le> SP_MAX_PASSTHROUGH"

section \<open>Lemmas\<close>

lemma length_copy_str [simp]: "0 < cap \<Longrightarrow> length (copy_str cap s) < cap"
  by (auto simp: copy_str_def Let_def)

lemma copy_str_fits [simp]: "length s < cap \<Longrightarrow> copy_str cap s = s"
  by (simp add: copy_str_def)

lemma hd_copy_str: "1 < cap \<Longrightarrow> s \<noteq> [] \<Longrightarrow> copy_str cap s \<noteq> [] \<and> hd (copy_str cap s) = hd s"
  by (cases s) (auto simp: copy_str_def Let_def take_Cons')

lemma strip_trailing_slashes_props:
  "length (strip_trailing_slashes s) \<le> length s \<and>
   (s \<noteq> [] \<longrightarrow> strip_trailing_slashes s \<noteq> [] \<and> hd (strip_trailing_slashes s) = hd s) \<and>
   (length (strip_trailing_slashes s) > 1 \<longrightarrow> last (strip_trailing_slashes s) \<noteq> slash)"
proof (induction s rule: strip_trailing_slashes.induct)
  case (1 s)
  show ?case
  proof (cases "length s > 1 \<and> last s = slash")
    case True
    have "length s > 1" using True by simp
    then have "butlast s \<noteq> []" "hd (butlast s) = hd s" "s \<noteq> []"
      by (cases s; cases "tl s"; auto)+
    then show ?thesis
      using True "1.IH" [OF True] by (auto simp: strip_trailing_slashes.simps [of s])
  next
    case False
    then show ?thesis by (auto simp: strip_trailing_slashes.simps [of s])
  qed
qed

lemma char_at_0_slash: "char_at s 0 = slash \<Longrightarrow> s \<noteq> [] \<and> hd s = slash"
  by (cases s) (auto simp: char_at_def)

lemma wf_abs_loaded:
  assumes "char_at s 0 = slash"
  shows "wf_abs (strip_trailing_slashes (copy_str SP_PATH_MAX s))"
proof -
  let ?c = "copy_str SP_PATH_MAX s"
  have s: "s \<noteq> []" "hd s = slash" using char_at_0_slash [OF assms] by auto
  then have c: "?c \<noteq> []" "hd ?c = slash" "length ?c < SP_PATH_MAX"
    using hd_copy_str [of SP_PATH_MAX s] by (auto simp: sp_const)
  let ?t = "strip_trailing_slashes ?c"
  have t: "?t \<noteq> []" "hd ?t = slash" "length ?t < SP_PATH_MAX"
    "length ?t > 1 \<longrightarrow> last ?t \<noteq> slash"
    using strip_trailing_slashes_props [of ?c] c by auto
  have "?t = [slash]" if "last ?t = slash"
  proof (cases ?t)
    case (Cons c cs)
    with t that show ?thesis by (cases cs) auto
  qed (use t in simp)
  with t show ?thesis by (auto simp: wf_abs_def)
qed

lemma parse_bind_wf:
  "parse_bind tok = Some b \<Longrightarrow> wf_abs (bind_host b) \<and> wf_abs (bind_guest b)"
  by (auto simp: parse_bind_def Let_def wf_abs_loaded split: option.splits if_splits)

lemma load_binds_props:
  "\<forall>b \<in> set acc. wf_abs (bind_host b) \<and> wf_abs (bind_guest b) \<Longrightarrow> length acc \<le> SP_MAX_BINDS \<Longrightarrow>
   (\<forall>b \<in> set (load_binds acc toks). wf_abs (bind_host b) \<and> wf_abs (bind_guest b)) \<and>
   length (load_binds acc toks) \<le> SP_MAX_BINDS"
proof (induction toks arbitrary: acc)
  case Nil
  then show ?case by simp
next
  case (Cons tok toks)
  show ?case
  proof (cases "length acc \<ge> SP_MAX_BINDS")
    case True
    with Cons.prems show ?thesis by simp
  next
    case False
    show ?thesis
    proof (cases "parse_bind tok")
      case None
      with False have eq: "load_binds acc (tok # toks) = load_binds acc toks" by simp
      show ?thesis unfolding eq by (rule Cons.IH [OF Cons.prems])
    next
      case (Some b)
      from parse_bind_wf [OF Some] Cons.prems(1)
      have w: "\<forall>b' \<in> set (acc @ [b]). wf_abs (bind_host b') \<and> wf_abs (bind_guest b')" by simp
      from False have l: "length (acc @ [b]) \<le> SP_MAX_BINDS" by simp
      from False Some have eq: "load_binds acc (tok # toks) = load_binds (acc @ [b]) toks" by simp
      show ?thesis unfolding eq by (rule Cons.IH [OF w l])
    qed
  qed
qed

lemma load_passthrough_props:
  "\<forall>p \<in> set acc. p \<noteq> [] \<and> hd p = slash \<Longrightarrow> length acc \<le> SP_MAX_PASSTHROUGH \<Longrightarrow>
   (\<forall>p \<in> set (load_passthrough acc toks). p \<noteq> [] \<and> hd p = slash) \<and>
   length (load_passthrough acc toks) \<le> SP_MAX_PASSTHROUGH"
proof (induction toks arbitrary: acc)
  case Nil
  then show ?case by simp
next
  case (Cons tok toks)
  consider (full) "length acc \<ge> SP_MAX_PASSTHROUGH" | (skip) "length acc < SP_MAX_PASSTHROUGH" "char_at tok 0 \<noteq> slash"
    | (add) "length acc < SP_MAX_PASSTHROUGH" "char_at tok 0 = slash" by linarith
  then show ?case
  proof cases
    case full
    with Cons.prems show ?thesis by simp
  next
    case skip
    then have eq: "load_passthrough acc (tok # toks) = load_passthrough acc toks" by simp
    show ?thesis unfolding eq by (rule Cons.IH [OF Cons.prems])
  next
    case add
    from char_at_0_slash [OF add(2)] Cons.prems(1)
    have w: "\<forall>p \<in> set (acc @ [tok]). p \<noteq> [] \<and> hd p = slash" by simp
    from add have l: "length (acc @ [tok]) \<le> SP_MAX_PASSTHROUGH" by simp
    from add have eq: "load_passthrough acc (tok # toks) = load_passthrough (acc @ [tok]) toks" by simp
    show ?thesis unfolding eq by (rule Cons.IH [OF w l])
  qed
qed

lemma mset_shift_in [simp]: "mset (shift_in key rp) = add_mset key (mset rp)"
  by (induction rp) auto

lemma mset_insort_loop: "mset (insort_loop done_rev todo) = mset done_rev + mset todo"
  by (induction todo arbitrary: done_rev) auto

lemma mset_sort_binds: "mset (sort_binds bs) = mset bs"
  by (simp add: sort_binds_def mset_insort_loop)

lemma set_shift_in [simp]: "set (shift_in key rp) = insert key (set rp)"
  by (metis mset_shift_in set_mset_add_mset_insert set_mset_mset)

lemma shift_in_sorted:
  "sorted_wrt (\<lambda>a b. length (bind_guest a) \<le> length (bind_guest b)) rp \<Longrightarrow>
   sorted_wrt (\<lambda>a b. length (bind_guest a) \<le> length (bind_guest b)) (shift_in key rp)"
proof (induction rp)
  case Nil
  then show ?case by simp
next
  case (Cons b rp)
  then have "\<forall>x \<in> set rp. length (bind_guest b) \<le> length (bind_guest x)" by simp
  with Cons show ?case by (auto simp: not_less dest: le_trans)
qed

lemma sorted_insort_loop:
  "sorted_wrt (\<lambda>a b. length (bind_guest a) \<le> length (bind_guest b)) done_rev \<Longrightarrow>
   longest_first (insort_loop done_rev todo)"
  by (induction todo arbitrary: done_rev) (auto simp: longest_first_def sorted_wrt_rev shift_in_sorted)

lemma longest_first_sort_binds: "longest_first (sort_binds bs)"
  by (simp add: sort_binds_def sorted_insort_loop)

lemma length_sort_binds [simp]: "length (sort_binds bs) = length bs"
  by (metis mset_sort_binds size_mset)

lemma set_sort_binds [simp]: "set (sort_binds bs) = set bs"
  by (metis mset_sort_binds set_mset_mset)

lemma shift_in_filter:
  "sorted_wrt (\<lambda>a b. length (bind_guest a) \<le> length (bind_guest b)) rp \<Longrightarrow>
   filter (\<lambda>b. length (bind_guest b) = n) (shift_in key rp) =
     (if length (bind_guest key) = n then [key] else []) @ filter (\<lambda>b. length (bind_guest b) = n) rp"
proof (induction rp)
  case Nil
  then show ?case by simp
next
  case (Cons b rp)
  show ?case
  proof (cases "length (bind_guest b) < length (bind_guest key)")
    case True
    with Cons show ?thesis by auto
  next
    case False
    then show ?thesis by simp
  qed
qed

lemma insort_loop_stable:
  "sorted_wrt (\<lambda>a b. length (bind_guest a) \<le> length (bind_guest b)) done_rev \<Longrightarrow>
   filter (\<lambda>b. length (bind_guest b) = n) (insort_loop done_rev todo) =
   rev (filter (\<lambda>b. length (bind_guest b) = n) done_rev) @ filter (\<lambda>b. length (bind_guest b) = n) todo"
proof (induction todo arbitrary: done_rev)
  case Nil
  then show ?case by (simp add: rev_filter)
next
  case (Cons key todo)
  then show ?case by (simp add: shift_in_filter shift_in_sorted)
qed

lemma default_pt_props: "\<forall>p \<in> set default_pt. p \<noteq> [] \<and> hd p = slash" "length default_pt \<le> SP_MAX_PASSTHROUGH"
  by (auto simp: default_pt_def sp_const)

section \<open>Properties\<close>

text \<open>
  C11: whatever the environment holds, the loaded configuration is well-formed: the rootfs is
  empty or an absolute path without a trailing slash that fits its buffer, every bind has two
  such paths, the tables respect their capacities and the binds are sorted with the longest
  guest prefix first.
\<close>

theorem sp_config_load_wf: "wf_config (sp_config_load env)"
proof -
  have b: "(\<forall>b \<in> set (load_binds [] toks). wf_abs (bind_host b) \<and> wf_abs (bind_guest b)) \<and>
      length (load_binds [] toks) \<le> SP_MAX_BINDS" for toks
    by (rule load_binds_props) simp_all
  have p: "(\<forall>q \<in> set (load_passthrough [] toks). q \<noteq> [] \<and> hd q = slash) \<and>
      length (load_passthrough [] toks) \<le> SP_MAX_PASSTHROUGH" for toks
    by (rule load_passthrough_props) simp_all
  have "longest_first []" by (simp add: longest_first_def)
  with b p show ?thesis
    using default_pt_props wf_abs_loaded longest_first_sort_binds
    by (simp add: wf_config_def sp_config_load_def split: option.split)
qed

text \<open>
  C12: the insertion sort of the bind table is a stable sort by decreasing guest length: it
  permutes the table, and binds of the same guest length keep the order of the variable.
\<close>

theorem sort_binds_stable:
  "mset (sort_binds bs) = mset bs \<and> longest_first (sort_binds bs) \<and>
   filter (\<lambda>b. length (bind_guest b) = n) (sort_binds bs) = filter (\<lambda>b. length (bind_guest b) = n) bs"
  using insort_loop_stable [of "[]" n bs]
  by (simp add: mset_sort_binds longest_first_sort_binds) (simp add: sort_binds_def)

end
