(* ===== verification/Sprout_Paths.thy ===== *)
theory Sprout_Paths
  imports Sprout_Config
begin

text \<open>
  Lexical path work of \<^verbatim>\<open>sprout_preload.c\<close>, with no file system involved: the prefix test
  \<^verbatim>\<open>path_within\<close>, the clamped canonicalisation \<^verbatim>\<open>sp_dotdot_canon\<close> and the normalisation
  \<^verbatim>\<open>sp_normalize_abs\<close> of the exec stamp.

  The abstract specification is a stack of components (\<open>virtual_root\<close>): a name is pushed,
  \<^verbatim>\<open>.\<close> is dropped, \<^verbatim>\<open>..\<close> pops and does nothing at the bottom. The byte loop of
  \<^verbatim>\<open>sp_dotdot_canon\<close> is shown to refine it above any floor prefix, which gives the
  containment the translation relies on.
\<close>

section \<open>Definitions\<close>

definition path_within :: "cstr \<Rightarrow> cstr \<Rightarrow> bool" where
  "path_within prefix path \<longleftrightarrow>
     strncmp_eq prefix path (length prefix) \<and>
     (char_at path (length prefix) = NUL \<or> char_at path (length prefix) = slash)"

text \<open>\<^verbatim>\<open>while (w > fl && sc[w - 1] != '/') w--\<close>, on the bytes written so far.\<close>

function drop_name :: "nat \<Rightarrow> cstr \<Rightarrow> cstr" where
  "drop_name fl sc = (if length sc > fl \<and> last sc \<noteq> slash then drop_name fl (butlast sc) else sc)"
  by pat_completeness auto
termination
  by (relation "measure (\<lambda>(fl, sc). length sc)") auto

declare drop_name.simps [simp del]

definition canon_up :: "nat \<Rightarrow> cstr \<Rightarrow> cstr" where
  "canon_up fl sc =
     (if length sc > fl
      then let t = drop_name fl sc in if length t > fl then butlast t else t
      else sc)"

definition canon_step :: "nat \<Rightarrow> cstr \<Rightarrow> cstr \<Rightarrow> cstr" where
  "canon_step fl sc c =
     (if c = ''.'' then sc
      else if c = ''..'' then canon_up fl sc
      else sc @ slash # c)"

text \<open>The main loop: the bytes written and whether the input ended in a slash.\<close>

function canon_loop :: "nat \<Rightarrow> cstr \<Rightarrow> cstr \<Rightarrow> cstr \<times> bool" where
  "canon_loop fl sc r =
     (if r = [] then (sc, False)
      else let r' = dropWhile (\<lambda>c. c = slash) r in
           if r' = [] then (sc, True)
           else canon_loop fl (canon_step fl sc (takeWhile (\<lambda>c. c \<noteq> slash) r'))
                  (dropWhile (\<lambda>c. c \<noteq> slash) r'))"
  by pat_completeness auto
termination
proof (relation "measure (\<lambda>(fl, sc, r). length r)", goal_cases)
  case 1
  show ?case by simp
next
  case (2 fl sc r r')
  then have "r' \<noteq> []" "hd r' \<noteq> slash"
    using hd_dropWhile [of "\<lambda>c. c = slash" r] by auto
  then have "length (dropWhile (\<lambda>c. c \<noteq> slash) r') < length r'"
    by (cases r') (auto simp: le_imp_less_Suc length_dropWhile_le)
  also have "length r' \<le> length r"
    using 2 by (simp add: length_dropWhile_le)
  finally show ?case by simp
qed

declare canon_loop.simps [simp del]

text \<open>
  \<^verbatim>\<open>sp_dotdot_canon(p, floor_len)\<close>. A floor beyond the end of the string leaves the string
  alone: the first \<open>floor_len\<close> bytes, its NUL among them, are copied verbatim.
\<close>

definition sp_dotdot_canon :: "cstr \<Rightarrow> nat \<Rightarrow> cstr" where
  "sp_dotdot_canon p floor_len =
     (if char_at p 0 \<noteq> slash then p
      else if floor_len \<ge> SP_PATH_MAX then p
      else let sc0 = (if floor_len = 0 then [slash] else take floor_len p);
               fl = (if floor_len = 0 then 1 else floor_len);
               (sc, trail) = canon_loop fl sc0 (drop floor_len p)
           in if trail \<and> length sc > 1 then sc @ [slash] else sc)"

text \<open>\<^verbatim>\<open>while (o > 1 && tmp[o - 1] != '/') o--\<close> of \<^verbatim>\<open>sp_normalize_abs\<close>.\<close>

definition norm_step :: "cstr \<Rightarrow> cstr \<Rightarrow> cstr" where
  "norm_step tmp c =
     (if c = [] \<or> c = ''.'' then tmp
      else if c = ''..'' then drop_name 1 tmp
      else (if length tmp > 1 \<and> last tmp \<noteq> slash then tmp @ slash # c else tmp @ c))"

text \<open>
  The segment loop of \<^verbatim>\<open>sp_normalize_abs\<close>: a segment runs to the next slash or the end;
  a segment that would not fit ends the loop.
\<close>

function norm_loop :: "cstr \<Rightarrow> cstr \<Rightarrow> cstr" where
  "norm_loop tmp s =
     (if s = [] then tmp
      else let c = takeWhile (\<lambda>x. x \<noteq> slash) s; rest = dropWhile (\<lambda>x. x \<noteq> slash) s in
           if c \<noteq> [] \<and> c \<noteq> ''.'' \<and> c \<noteq> ''..'' \<and> \<not> length tmp + length c + 2 < SP_PATH_MAX then tmp
           else norm_loop (norm_step tmp c) (tl rest))"
  by pat_completeness auto
termination
proof (relation "measure (\<lambda>(tmp, s). length s)", goal_cases)
  case 1
  show ?case by simp
next
  case (2 tmp s c rest)
  have "length rest \<le> length s" using 2(3) by (simp add: length_dropWhile_le)
  moreover have "length s > 0" using 2(1) by simp
  ultimately show ?case by (cases rest) (auto simp del: length_greater_0_conv)
qed

declare norm_loop.simps [simp del]

definition sp_normalize_abs :: "cstr \<Rightarrow> cstr" where
  "sp_normalize_abs p =
     (if char_at p 0 \<noteq> slash then p
      else let tmp = norm_loop [slash] (tl p) in
           if length tmp > 1 \<and> last tmp = slash then butlast tmp else tmp)"

section \<open>Abstract specification: components above a virtual root\<close>

abbreviation comps :: "cstr \<Rightarrow> cstr list" where
  "comps \<equiv> strtok_all slash"

text \<open>The stack is kept bottom first.\<close>

definition vroot_step :: "cstr list \<Rightarrow> cstr \<Rightarrow> cstr list" where
  "vroot_step st c = (if c = ''.'' then st else if c = ''..'' then butlast st else st @ [c])"

definition virtual_root :: "cstr list \<Rightarrow> cstr list" where
  "virtual_root cs = foldl vroot_step [] cs"

definition join_comps :: "cstr list \<Rightarrow> cstr" where
  "join_comps cs = concat (map (\<lambda>c. slash # c) cs)"

definition trailing_slash :: "cstr \<Rightarrow> bool" where
  "trailing_slash r \<longleftrightarrow> r \<noteq> [] \<and> last r = slash"

definition name :: "cstr \<Rightarrow> bool" where
  "name c \<longleftrightarrow> c \<noteq> [] \<and> slash \<notin> set c"

definition plain :: "cstr \<Rightarrow> bool" where
  "plain c \<longleftrightarrow> name c \<and> c \<noteq> ''.'' \<and> c \<noteq> ''..''"

text \<open>\<open>under root p\<close>: \<open>p\<close> is \<open>root\<close> or lies below it, with no step that leads out of it.\<close>

definition under :: "cstr \<Rightarrow> cstr \<Rightarrow> bool" where
  "under root p \<longleftrightarrow> (\<exists>rest. p = root @ rest \<and> (rest = [] \<or> hd rest = slash) \<and> ''..'' \<notin> set (comps rest))"

section \<open>Prefix test\<close>

lemma path_within_iff:
  assumes "NUL \<notin> set path"
  shows "path_within prefix path \<longleftrightarrow> (\<exists>rest. path = prefix @ rest \<and> (rest = [] \<or> hd rest = slash))"
proof
  assume w: "path_within prefix path"
  then have "take (length prefix) path = prefix"
    by (simp add: path_within_def strncmp_eq_def)
  then have p: "path = prefix @ drop (length prefix) path"
    by (metis append_take_drop_id)
  have "drop (length prefix) path = [] \<or> hd (drop (length prefix) path) = slash"
  proof (cases "length prefix < length path")
    case True
    then have "path ! length prefix \<noteq> NUL" using assms nth_mem by metis
    with w True show ?thesis by (simp add: path_within_def hd_drop_conv_nth)
  qed simp
  with p show "\<exists>rest. path = prefix @ rest \<and> (rest = [] \<or> hd rest = slash)" by blast
next
  assume "\<exists>rest. path = prefix @ rest \<and> (rest = [] \<or> hd rest = slash)"
  then obtain rest where r: "path = prefix @ rest" "rest = [] \<or> hd rest = slash" by blast
  then show "path_within prefix path"
    by (cases rest) (auto simp: path_within_def strncmp_eq_def char_at_def nth_append)
qed

lemma path_within_refl [simp]: "path_within p p"
  by (simp add: path_within_def strncmp_eq_def char_at_def)

lemma path_within_append [simp]:
  "rest = [] \<or> hd rest = slash \<Longrightarrow> path_within prefix (prefix @ rest)"
  by (cases rest) (auto simp: path_within_def strncmp_eq_def char_at_def nth_append)

lemma path_within_prefixD: "path_within prefix path \<Longrightarrow> path = prefix @ drop (length prefix) path"
  by (metis append_take_drop_id path_within_def strncmp_eq_def take_all_iff order_refl)

lemma path_within_rest:
  "path_within prefix path \<Longrightarrow> drop (length prefix) path = [] \<or>
     hd (drop (length prefix) path) = slash \<or> hd (drop (length prefix) path) = NUL"
  by (cases "length prefix < length path") (auto simp: path_within_def hd_drop_conv_nth)

section \<open>Component lists\<close>

lemma comps_slash [path_simps]: "comps (slash # s) = comps s"
  by simp

lemma comps_join: "\<forall>c \<in> set cs. name c \<Longrightarrow> comps (join_comps cs @ r) = cs @ comps r"
  if "r = [] \<or> hd r = slash"
proof (induction cs)
  case Nil
  then show ?case by (simp add: join_comps_def)
next
  case (Cons c cs)
  let ?tl = "join_comps cs @ r"
  have c: "slash \<notin> set c" "c \<noteq> []" using Cons.prems by (auto simp: name_def)
  have eq: "comps (join_comps (c # cs) @ r) = comps (c @ ?tl)"
    by (simp add: join_comps_def)
  have IH: "comps ?tl = cs @ comps r" using Cons by simp
  show ?case
  proof (cases ?tl)
    case Nil
    with c eq IH show ?thesis by (simp add: strtok_all_last)
  next
    case (Cons x xs)
    have "hd ?tl = slash"
      using Cons that by (cases cs) (auto simp: join_comps_def)
    with Cons have "?tl = slash # xs" by simp
    with c eq IH show ?thesis by (simp add: strtok_all_token)
  qed
qed

lemma comps_append_slash [path_simps]: "comps (s @ [slash]) = comps s"
proof (induction "length s" arbitrary: s rule: less_induct)
  case less
  show ?case
  proof (cases "slash \<in> set s")
    case False
    then show ?thesis
      using strtok_all_token [of slash s "[]"] by (cases "s = []") (simp_all add: strtok_all_last)
  next
    case True
    then obtain t u where s: "s = t @ slash # u" "slash \<notin> set t" by (meson split_list_first)
    have IH: "comps (u @ [slash]) = comps u" by (rule less) (simp add: s)
    show ?thesis
    proof (cases "t = []")
      case True
      then show ?thesis using IH by (simp add: s(1))
    next
      case False
      then show ?thesis
        using IH s(2) strtok_all_token [of slash t u] strtok_all_token [of slash t "u @ [slash]"]
        by (simp add: s(1))
    qed
  qed
qed

lemma comps_names: "c \<in> set (comps s) \<Longrightarrow> name c"
  using strtok_all_clean by (auto simp: name_def)

lemma vroot_names:
  "\<forall>c \<in> set st. plain c \<Longrightarrow> \<forall>c \<in> set cs. name c \<Longrightarrow> \<forall>c \<in> set (foldl vroot_step st cs). plain c"
proof (induction cs arbitrary: st)
  case Nil
  then show ?case by simp
next
  case (Cons c cs)
  have "\<forall>d \<in> set (vroot_step st c). plain d"
    using Cons.prems by (auto simp: vroot_step_def plain_def dest: in_set_butlastD)
  with Cons show ?case by simp
qed

lemma virtual_root_plain: "\<forall>c \<in> set (virtual_root (comps s)). plain c"
  unfolding virtual_root_def by (rule vroot_names) (auto simp: comps_names)

lemma vroot_plain_id: "\<forall>c \<in> set cs. plain c \<Longrightarrow> foldl vroot_step st cs = st @ cs"
  by (induction cs arbitrary: st) (auto simp: vroot_step_def plain_def)

lemma length_virtual_root: "length (foldl vroot_step st cs) \<le> length st + length cs"
proof (induction cs arbitrary: st)
  case (Cons c cs)
  have "length (vroot_step st c) \<le> Suc (length st)" by (auto simp: vroot_step_def)
  with Cons [of "vroot_step st c"] show ?case by simp
qed simp

lemma join_comps_simps [simp]:
  "join_comps [] = []"
  "join_comps (cs @ [c]) = join_comps cs @ slash # c"
  "join_comps (c # cs) = slash # c @ join_comps cs"
  by (simp_all add: join_comps_def)

lemma join_comps_hd: "join_comps cs = [] \<or> hd (join_comps cs) = slash"
  by (cases cs) auto

section \<open>The canonicalisation loop refines the component stack\<close>

lemma drop_name_stop: "drop_name fl (sc @ slash # c) = (if slash \<in> set c then drop_name fl (sc @ slash # c) else sc @ [slash])"
  if "fl \<le> length sc"
proof (cases "slash \<in> set c")
  case False
  then show ?thesis
  proof (induction c rule: rev_induct)
    case Nil
    show ?case by (subst drop_name.simps) simp
  next
    case (snoc x xs)
    then have "drop_name fl (sc @ slash # xs @ [x]) = drop_name fl (sc @ slash # xs)"
      using that by (subst drop_name.simps) (auto simp: butlast_append)
    with snoc show ?case by simp
  qed
qed simp

lemma canon_up_join:
  assumes "\<forall>c \<in> set st. name c"
  shows "canon_up (length root) (root @ join_comps st) = root @ join_comps (butlast st)"
proof (cases st rule: rev_cases)
  case Nil
  then show ?thesis by (simp add: canon_up_def)
next
  case (snoc ys y)
  with assms have "slash \<notin> set y" by (simp add: name_def)
  then have "drop_name (length root) ((root @ join_comps ys) @ slash # y) = (root @ join_comps ys) @ [slash]"
    using drop_name_stop [of "length root" "root @ join_comps ys" y] by simp
  with snoc show ?thesis by (simp add: canon_up_def Let_def butlast_append)
qed

lemma canon_step_join:
  "\<forall>c \<in> set st. name c \<Longrightarrow>
   canon_step (length root) (root @ join_comps st) c = root @ join_comps (vroot_step st c)"
  by (simp add: canon_step_def vroot_step_def canon_up_join)

lemma vroot_step_names: "\<forall>c \<in> set st. name c \<Longrightarrow> name c \<Longrightarrow> \<forall>d \<in> set (vroot_step st c). name d"
  by (auto simp: vroot_step_def dest: in_set_butlastD)

lemma canon_loop_Nil [simp]: "canon_loop fl sc [] = (sc, False)"
  by (simp add: canon_loop.simps)

lemma canon_loop_end [simp]: "canon_loop fl sc [slash] = (sc, True)"
  by (simp add: canon_loop.simps)

lemma canon_loop_slash: "r \<noteq> [] \<Longrightarrow> canon_loop fl sc (slash # r) = canon_loop fl sc r"
  by (subst (1 2) canon_loop.simps) (simp add: Let_def)

lemma canon_loop_token:
  assumes "name t" and "u = [] \<or> hd u = slash"
  shows "canon_loop fl sc (t @ u) = canon_loop fl (canon_step fl sc t) u"
proof -
  have t: "t \<noteq> []" "slash \<notin> set t" using assms by (auto simp: name_def)
  have skip: "dropWhile (\<lambda>c. c = slash) (t @ u) = t @ u" using t by (cases t) auto
  have tk: "takeWhile (\<lambda>c. c \<noteq> slash) (t @ u) = t"
    using t(2) assms(2) by (cases u) (auto simp: takeWhile_append takeWhile_eq_all_conv)
  have dr: "dropWhile (\<lambda>c. c \<noteq> slash) (t @ u) = u"
    using t(2) assms(2) by (cases u) (auto simp: dropWhile_append)
  show ?thesis
    using t(1) by (subst canon_loop.simps) (simp only: skip tk dr Let_def append_is_Nil_conv if_False simp_thms)
qed

lemma trailing_slash_Cons: "trailing_slash (c # r) = (if r = [] then c = slash else trailing_slash r)"
  by (simp add: trailing_slash_def)

lemma trailing_slash_append: "u \<noteq> [] \<Longrightarrow> trailing_slash (t @ u) = trailing_slash u"
  by (simp add: trailing_slash_def)

lemma slash_cases:
  obtains (empty) "r = []" | (token) "name r" | (slash) u where "r = slash # u"
  | (more) t u where "name t" "r = t @ slash # u"
proof (cases "slash \<in> set r")
  case False
  then show ?thesis using that by (cases "r = []") (auto simp: name_def)
next
  case True
  then obtain t u where "r = t @ slash # u" "slash \<notin> set t" by (meson split_list_first)
  then show ?thesis using that by (cases "t = []") (auto simp: name_def)
qed

lemma canon_loop_refines:
  "\<forall>c \<in> set st. name c \<Longrightarrow>
   canon_loop (length root) (root @ join_comps st) r =
     (root @ join_comps (foldl vroot_step st (comps r)), trailing_slash r)"
proof (induction "length r" arbitrary: st r rule: less_induct)
  case less
  show ?case
  proof (cases r rule: slash_cases)
    case empty
    then show ?thesis by (simp add: trailing_slash_def)
  next
    case token
    then have "\<not> trailing_slash r" using last_in_set by (fastforce simp: trailing_slash_def name_def)
    then show ?thesis
      using canon_loop_token [OF token, of "[]"] token
      by (simp add: canon_step_join [OF less.prems] strtok_all_last name_def)
  next
    case (slash u)
    then show ?thesis
      using less.hyps [of u st] less.prems
      by (cases "u = []") (simp_all add: trailing_slash_Cons canon_loop_slash)
  next
    case (more t u)
    have "canon_loop (length root) (root @ join_comps st) r =
        canon_loop (length root) (root @ join_comps (vroot_step st t)) (slash # u)"
      using canon_loop_token [OF more(1), of "slash # u"] by (simp add: more(2) canon_step_join less.prems)
    also have "\<dots> = (root @ join_comps (foldl vroot_step (vroot_step st t) (comps (slash # u))), trailing_slash (slash # u))"
      using more vroot_step_names [OF less.prems more(1)] by (intro less.hyps) (auto simp: name_def)
    finally show ?thesis
      using more strtok_all_token [of slash t u] by (simp add: trailing_slash_append name_def)
  qed
qed

lemma sp_dotdot_canon_floor:
  assumes "root \<noteq> []" and "hd root = slash" and "length root < SP_PATH_MAX"
  shows "sp_dotdot_canon (root @ rest) (length root) =
    (let b = root @ join_comps (virtual_root (comps rest))
     in if trailing_slash rest \<and> length b > 1 then b @ [slash] else b)"
proof -
  have "char_at (root @ rest) 0 = slash" using assms by (cases root) (auto simp: char_at_def)
  moreover have "canon_loop (length root) root rest =
      (root @ join_comps (virtual_root (comps rest)), trailing_slash rest)"
    using canon_loop_refines [of "[]" root rest] by (simp add: virtual_root_def)
  ultimately show ?thesis
    using assms by (simp add: sp_dotdot_canon_def Let_def)
qed

lemma under_join: "\<forall>c \<in> set cs. plain c \<Longrightarrow> under root (root @ join_comps cs)"
proof -
  assume cs: "\<forall>c \<in> set cs. plain c"
  then have "comps (join_comps cs @ []) = cs @ comps []"
    by (intro comps_join) (auto simp: plain_def)
  with cs show ?thesis
    unfolding under_def by (intro exI [of _ "join_comps cs"]) (auto simp: plain_def join_comps_hd)
qed

lemma under_canon:
  assumes "root \<noteq> []" and "hd root = slash" and "length root < SP_PATH_MAX"
  shows "under root (sp_dotdot_canon (root @ rest) (length root))"
proof -
  let ?cs = "virtual_root (comps rest)"
  have p: "\<forall>c \<in> set ?cs. plain c" by (rule virtual_root_plain)
  then have eq: "comps (join_comps ?cs @ r) = ?cs @ comps r" if "r = [] \<or> hd r = slash" for r
    using that by (intro comps_join) (auto simp: plain_def)
  have "comps (join_comps ?cs @ [slash]) = ?cs" using eq [of "[slash]"] by simp
  then have "under root (root @ join_comps ?cs @ [slash])"
    unfolding under_def using p join_comps_hd [of ?cs]
    by (intro exI [of _ "join_comps ?cs @ [slash]"]) (auto simp: plain_def hd_append)
  with under_join [OF p] show ?thesis
    by (simp add: sp_dotdot_canon_floor [OF assms] Let_def)
qed

lemma under_path_within: "under root p \<Longrightarrow> path_within root p"
  by (auto simp: under_def)

section \<open>Length and fixed points\<close>

lemma length_join_comps_step: "length (join_comps (foldl vroot_step st cs)) \<le> length (join_comps st) + length (join_comps cs)"
proof (induction cs arbitrary: st)
  case (Cons c cs)
  have "length (join_comps (butlast st)) \<le> length (join_comps st)"
    by (cases st rule: rev_cases) auto
  then have "length (join_comps (vroot_step st c)) \<le> length (join_comps st) + Suc (length c)"
    by (auto simp: vroot_step_def)
  with Cons [of "vroot_step st c"] show ?case by simp
qed simp

lemma length_join_comps: "length (join_comps (comps r)) + of_bool (trailing_slash (slash # r)) \<le> Suc (length r)"
proof (induction "length r" arbitrary: r rule: less_induct)
  case less
  show ?case
  proof (cases r rule: slash_cases)
    case empty
    then show ?thesis by (simp add: trailing_slash_def)
  next
    case token
    then have "\<not> trailing_slash (slash # r)" using last_in_set by (fastforce simp: trailing_slash_def name_def)
    with token show ?thesis by (simp add: strtok_all_last name_def)
  next
    case (slash u)
    then show ?thesis using less [of u] by (auto simp: trailing_slash_Cons)
  next
    case (more t u)
    have "length (join_comps (comps u)) + of_bool (trailing_slash (slash # u)) \<le> Suc (length u)"
      using more by (intro less) auto
    moreover have "comps r = t # comps u" using more strtok_all_token [of slash t u] by (simp add: name_def)
    moreover have "trailing_slash (slash # r) = trailing_slash (slash # u)"
      using more trailing_slash_append [of "slash # u" "slash # t"] by simp
    ultimately show ?thesis using more by simp
  qed
qed

lemma length_canon:
  assumes "root \<noteq> []" and "hd root = slash" and "length root < SP_PATH_MAX" and "rest = [] \<or> hd rest = slash"
  shows "length (sp_dotdot_canon (root @ rest) (length root)) \<le> length (root @ rest)"
proof (cases rest)
  case Nil
  then show ?thesis
    using sp_dotdot_canon_floor [OF assms(1-3), of rest] by (simp add: trailing_slash_def virtual_root_def)
next
  case (Cons c r)
  with assms have r: "rest = slash # r" by simp
  have "length (join_comps (virtual_root (comps rest))) \<le> length (join_comps (comps r))"
    using length_join_comps_step [of "[]" "comps r"] by (simp add: virtual_root_def r)
  then show ?thesis
    using sp_dotdot_canon_floor [OF assms(1-3), of rest] length_join_comps [of r] by (auto simp: r Let_def)
qed

text \<open>A path made of plain names below the floor is left alone.\<close>

lemma canon_plain:
  assumes "root \<noteq> []" and "hd root = slash" and "length root < SP_PATH_MAX" and "\<forall>c \<in> set cs. plain c"
  shows "sp_dotdot_canon (root @ join_comps cs) (length root) = root @ join_comps cs"
proof -
  have "comps (join_comps cs) = cs"
    using comps_join [of "[]" cs] assms(4) by (auto simp: plain_def)
  moreover have "\<not> trailing_slash (join_comps cs)"
  proof (cases cs rule: rev_cases)
    case Nil
    then show ?thesis by (simp add: trailing_slash_def)
  next
    case (snoc ys y)
    with assms(4) have "y \<noteq> []" "slash \<notin> set y" by (simp_all add: plain_def name_def)
    moreover from this have "last y \<noteq> slash" by (metis last_in_set)
    ultimately show ?thesis by (simp add: snoc trailing_slash_def)
  qed
  ultimately show ?thesis
    using sp_dotdot_canon_floor [OF assms(1-3), of "join_comps cs"] vroot_plain_id [OF assms(4), of "[]"]
    by (simp add: virtual_root_def Let_def)
qed

section \<open>Properties\<close>

text \<open>
  C2: above a floor prefix \<open>root\<close>, \<^verbatim>\<open>sp_dotdot_canon\<close> computes exactly the component stack with
  a virtual root: empty components and \<^verbatim>\<open>.\<close> vanish, \<^verbatim>\<open>..\<close> removes the last name and stops
  at the floor, and one trailing slash is kept.
\<close>

theorem sp_dotdot_canon_refines:
  assumes "root \<noteq> []" and "hd root = slash" and "length root < SP_PATH_MAX"
  shows "sp_dotdot_canon (root @ rest) (length root) =
    root @ join_comps (virtual_root (comps rest)) @
      (if trailing_slash rest \<and> length (root @ join_comps (virtual_root (comps rest))) > 1 then [slash] else [])"
  using sp_dotdot_canon_floor [OF assms, of rest] by (simp add: Let_def)

theorem sp_dotdot_canon_refines_witness:
  "sp_dotdot_canon (''/r'' @ ''/a/./../..//b/'') (length ''/r'') = ''/r/b/'' \<and>
   ''/r'' @ join_comps (virtual_root (comps ''/a/./../..//b/'')) @
      (if trailing_slash ''/a/./../..//b/'' \<and>
          length (''/r'' @ join_comps (virtual_root (comps ''/a/./../..//b/''))) > 1 then [slash] else []) = ''/r/b/''"
proof -
  have "sp_dotdot_canon (''/r'' @ ''/a/./../..//b/'') (length ''/r'') = ''/r/b/''" by code_simp
  then show ?thesis
    using sp_dotdot_canon_refines [of "''/r''" "''/a/./../..//b/''"] by (simp only:) (simp add: sp_const)
qed

text \<open>
  C13: canonicalisation above a floor is idempotent and never lengthens a path that continues
  the floor with a slash, so the copy back into the caller's buffer stays inside it.
\<close>

theorem sp_dotdot_canon_idem:
  assumes "root \<noteq> []" and "hd root = slash" and "length root < SP_PATH_MAX" and "rest = [] \<or> hd rest = slash"
  shows "sp_dotdot_canon (sp_dotdot_canon (root @ rest) (length root)) (length root) =
           sp_dotdot_canon (root @ rest) (length root) \<and>
         length (sp_dotdot_canon (root @ rest) (length root)) \<le> length (root @ rest)"
proof -
  let ?cs = "virtual_root (comps rest)" and ?f = "\<lambda>r. sp_dotdot_canon (root @ r) (length root)"
  have pl: "\<forall>c \<in> set ?cs. plain c" by (rule virtual_root_plain)
  have "?f (join_comps ?cs) = root @ join_comps ?cs" using canon_plain [OF assms(1-3) pl] .
  moreover have "?f (join_comps ?cs @ [slash]) =
      root @ join_comps ?cs @ (if length (root @ join_comps ?cs) > 1 then [slash] else [])"
  proof -
    have "comps (join_comps ?cs @ [slash]) = ?cs"
      using comps_join [of "[slash]" ?cs] pl by (auto simp: plain_def)
    moreover have "virtual_root ?cs = ?cs" using vroot_plain_id [OF pl, of "[]"] by (simp add: virtual_root_def)
    ultimately show ?thesis
      using sp_dotdot_canon_floor [OF assms(1-3), of "join_comps ?cs @ [slash]"]
      by (simp add: Let_def trailing_slash_def)
  qed
  ultimately show ?thesis
    using sp_dotdot_canon_floor [OF assms(1-3), of rest] length_canon [OF assms]
    by (simp add: Let_def)
qed

theorem sp_dotdot_canon_idem_witness:
  "sp_dotdot_canon (sp_dotdot_canon (''/r'' @ ''/../a/'') (length ''/r'')) (length ''/r'') =
     sp_dotdot_canon (''/r'' @ ''/../a/'') (length ''/r'') \<and>
   length (sp_dotdot_canon (''/r'' @ ''/../a/'') (length ''/r'')) \<le> length (''/r'' @ ''/../a/'')"
  by (rule sp_dotdot_canon_idem) (simp_all add: sp_const)

text \<open>
  With an empty floor, or the root directory as floor, the comment's promise that doubled
  slashes collapse fails: the first component is written after the slash of the root.
\<close>

lemma sp_dotdot_canon_floor_0_doubles:
  "sp_dotdot_canon ''/a'' 0 = ''//a''" "sp_dotdot_canon ''/a'' 1 = ''//a''"
  by code_simp+

text \<open>A floor that cuts a component in two splits the component.\<close>

lemma sp_dotdot_canon_splits: "sp_dotdot_canon ''/sdcard/a'' 5 = ''/sdca/rd/a''"
  by code_simp

text \<open>In \<^verbatim>\<open>sp_normalize_abs\<close> only the first of two consecutive \<^verbatim>\<open>..\<close> pops.\<close>

lemma sp_normalize_abs_dotdot:
  "sp_normalize_abs ''/a/b/c/../d'' = ''/a/b/d''" "sp_normalize_abs ''/a/b/c/../..'' = ''/a/b''"
  by code_simp+

end
