(* ===== verification/Sprout_Translate.thy ===== *)
theory Sprout_Translate
  imports Sprout_Paths
begin

text \<open>
  Guest-to-host translation of \<^verbatim>\<open>sprout_preload.c\<close>: the symlink chase
  (\<^verbatim>\<open>sp_chase_final\<close>), the component-wise walk for links in the middle of a path
  (\<^verbatim>\<open>sp_resolve_intermediate_links\<close>), the translation \<^verbatim>\<open>sp_translate_f\<close> and its inverse
  \<^verbatim>\<open>sp_reverse\<close>.

  The kernel is a parameter \<open>lst\<close>: what \<^verbatim>\<open>newfstatat(.., AT_SYMLINK_NOFOLLOW)\<close> and
  \<^verbatim>\<open>readlinkat\<close> answer for a host path. The two hooks that only the interposing build has,
  \<^verbatim>\<open>sp_self_exe_guest_path\<close> and \<^verbatim>\<open>sp_fakeproc_host_path\<close>, are arguments as well; the
  unit-test build passes the constant \<open>None\<close>.
\<close>

section \<open>Definitions\<close>

text \<open>
  What the kernel says of a host path. \<open>Link []\<close> also stands for a symlink whose
  \<^verbatim>\<open>readlinkat\<close> fails: both give \<^verbatim>\<open>n <= 0\<close>.
\<close>

datatype node = Miss | Node | Link cstr

type_synonym lstat = "cstr \<Rightarrow> node"

text \<open>\<^verbatim>\<open>readlinkat(.., link, sizeof(link) - 1)\<close>.\<close>

definition read_link :: "cstr \<Rightarrow> cstr" where
  "read_link t = take (SP_PATH_MAX - 1) t"

definition chase_step :: "sp_config \<Rightarrow> lstat \<Rightarrow> cstr \<Rightarrow> (cstr, cstr \<times> bool) hop" where
  "chase_step cfg lst out =
     (case lst out of
        Miss \<Rightarrow> Return (out, False)
      | Node \<Rightarrow> Return (out, True)
      | Link t \<Rightarrow>
          (let link = read_link t; n = length link; fl = length (rootfs cfg) in
           if n = 0 then Return (out, True)
           else if char_at link 0 \<noteq> slash then
             (case strrchr out slash of
                None \<Rightarrow> Return (out, True)
              | Some i \<Rightarrow>
                  (let dirlen = Suc i in
                   if dirlen + n + 1 > SP_PATH_MAX then Return (out, True)
                   else Continue (sp_dotdot_canon (take dirlen out @ link) fl)))
           else if path_within (rootfs cfg) link then Continue (sp_dotdot_canon link fl)
           else if fl + n + 1 > SP_PATH_MAX then Return (out, True)
           else Continue (sp_dotdot_canon (rootfs cfg @ link) fl)))"

text \<open>The clamp after the last hop.\<close>

definition chase_clamp :: "sp_config \<Rightarrow> lstat \<Rightarrow> cstr \<Rightarrow> cstr" where
  "chase_clamp cfg lst out =
     (case lst out of
        Link t \<Rightarrow>
          (let link = read_link t; n = length link; fl = length (rootfs cfg) in
           if n > 0 \<and> char_at link 0 = slash \<and> \<not> path_within (rootfs cfg) link \<and>
              fl + n + 1 \<le> SP_PATH_MAX
           then sp_dotdot_canon (rootfs cfg @ link) fl else out)
      | _ \<Rightarrow> out)"

definition sp_chase_final :: "sp_config \<Rightarrow> lstat \<Rightarrow> cstr \<Rightarrow> cstr \<times> bool" where
  "sp_chase_final cfg lst out =
     (case hop_loop (chase_step cfg lst) 16 out of
        Return r \<Rightarrow> r
      | Continue out' \<Rightarrow> (chase_clamp cfg lst out', True))"

text \<open>
  The splice of a link found at the component that ends at \<open>sl\<close> (\<open>None\<close>: the last one);
  \<open>None\<close> is the early return that leaves \<open>out\<close> as it is.
\<close>

definition splice :: "sp_config \<Rightarrow> cstr \<Rightarrow> nat option \<Rightarrow> cstr \<Rightarrow> cstr option" where
  "splice cfg out sl link =
     (let rest = (case sl of None \<Rightarrow> [] | Some i \<Rightarrow> drop i out); fl = length (rootfs cfg) in
      if char_at link 0 = slash then
        (if path_within (rootfs cfg) link then
           (if length (link @ rest) \<ge> SP_PATH_MAX then None else Some (link @ rest))
         else if fl + length link + length rest + 1 > SP_PATH_MAX then None
         else Some (rootfs cfg @ link @ rest))
      else
        (let dirlen = (case sl of Some i \<Rightarrow> i
                       | None \<Rightarrow> (case strrchr out slash of None \<Rightarrow> 0 | Some i \<Rightarrow> i)) in
         if dirlen + 1 + length link + length rest + 1 > SP_PATH_MAX then None
         else Some (take dirlen out @ slash # link @ rest)))"

text \<open>The inner \<^verbatim>\<open>while (1)\<close>: \<open>Continue\<close> is a splice, \<open>Return\<close> the return of the function.\<close>

function splice_walk :: "sp_config \<Rightarrow> lstat \<Rightarrow> cstr \<Rightarrow> nat \<Rightarrow> (cstr, cstr) hop" where
  "splice_walk cfg lst out p =
     (let sl = strchr_from out (p + 1) slash;
          cur = (case sl of None \<Rightarrow> out | Some i \<Rightarrow> take i out);
          next = (case sl of None \<Rightarrow> Return out | Some i \<Rightarrow> splice_walk cfg lst out i) in
      case lst cur of
        Miss \<Rightarrow> Return out
      | Node \<Rightarrow> next
      | Link t \<Rightarrow>
          (let link = read_link t in
           if link = [] then next
           else case splice cfg out sl link of
                  None \<Rightarrow> Return out
                | Some merged \<Rightarrow> Continue (sp_dotdot_canon merged (length (rootfs cfg)))))"
  by pat_completeness auto
termination
  by (relation "measure (\<lambda>(cfg, lst, out, p). length out - p)")
     (simp_all, (metis Suc_le_eq diff_less_mono2 order.strict_trans strchr_from_Some(1,2))+)

declare splice_walk.simps [simp del]

definition intermediate_step :: "sp_config \<Rightarrow> lstat \<Rightarrow> cstr \<Rightarrow> (cstr, cstr) hop" where
  "intermediate_step cfg lst out = splice_walk cfg lst out (length (rootfs cfg))"

definition sp_resolve_intermediate_links :: "sp_config \<Rightarrow> lstat \<Rightarrow> cstr \<Rightarrow> cstr" where
  "sp_resolve_intermediate_links cfg lst out =
     (case hop_loop (intermediate_step cfg lst) 16 out of Return o1 \<Rightarrow> o1 | Continue o2 \<Rightarrow> o2)"

definition sp_resolve_links :: "sp_config \<Rightarrow> lstat \<Rightarrow> cstr \<Rightarrow> cstr" where
  "sp_resolve_links cfg lst out =
     (if rootfs cfg = [] then out
      else let (o1, done) = sp_chase_final cfg lst out in
           if done then o1
           else if \<not> path_within (rootfs cfg) o1 then o1
           else fst (sp_chase_final cfg lst (sp_resolve_intermediate_links cfg lst o1)))"

text \<open>The bind loop stops at the first bind whose guest prefix covers the path.\<close>

fun first_bind :: "sp_bind list \<Rightarrow> cstr \<Rightarrow> sp_bind option" where
  "first_bind [] path = None"
| "first_bind (b # bs) path = (if path_within (bind_guest b) path then Some b else first_bind bs path)"

text \<open>The idempotence guard: the path is host-side already, or a leading part of the rootfs path.\<close>

definition host_side :: "sp_config \<Rightarrow> cstr \<Rightarrow> bool" where
  "host_side cfg path \<longleftrightarrow>
     rootfs cfg \<noteq> [] \<and>
     (path_within (rootfs cfg) path \<or>
      (path \<noteq> [] \<and> length path < length (rootfs cfg) \<and>
       strncmp_eq (rootfs cfg) path (length path) \<and> char_at (rootfs cfg) (length path) = slash))"

definition proc_prefilter :: "cstr \<Rightarrow> bool" where
  "proc_prefilter path \<longleftrightarrow>
     char_at path 1 = CHR ''p'' \<and> char_at path 2 = CHR ''r'' \<and>
     char_at path 3 = CHR ''o'' \<and> char_at path 4 = CHR ''c''"

text \<open>
  \<^verbatim>\<open>sp_translate_f\<close> after the guard on its argument: \<open>None\<close> is the return value 0 (use the
  caller's string), \<open>Some out\<close> the return value 1.
\<close>

definition translate_binds :: "sp_config \<Rightarrow> lstat \<Rightarrow> cstr \<Rightarrow> bool \<Rightarrow> sp_bind \<Rightarrow> cstr option" where
  "translate_binds cfg lst path follow_final b =
     (let rest = drop (length (bind_guest b)) path in
      if length (bind_host b) + length rest + 1 > SP_PATH_MAX then None
      else let out = sp_dotdot_canon (bind_host b @ rest) (length (bind_host b))
           in Some (if follow_final then sp_resolve_links cfg lst out else out))"

definition translate_rootfs :: "sp_config \<Rightarrow> lstat \<Rightarrow> cstr \<Rightarrow> bool \<Rightarrow> cstr option" where
  "translate_rootfs cfg lst path follow_final =
     (if rootfs cfg = [] then None
      else if length (rootfs cfg) + length path + 1 > SP_PATH_MAX then None
      else let out = sp_dotdot_canon (rootfs cfg @ path) (length (rootfs cfg))
           in Some (if follow_final then sp_resolve_links cfg lst out else out))"

definition sp_translate_f ::
  "(cstr \<Rightarrow> cptr) \<Rightarrow> (cstr \<Rightarrow> cptr) \<Rightarrow> sp_config \<Rightarrow> lstat \<Rightarrow> cptr \<Rightarrow> bool \<Rightarrow> cstr option" where
  "sp_translate_f self_exe fakeproc cfg lst path0 follow_final =
     (case path0 of
        None \<Rightarrow> None
      | Some p0 \<Rightarrow>
          if char_at p0 0 \<noteq> slash then None
          else let path = (if proc_prefilter p0
                           then (case self_exe p0 of None \<Rightarrow> p0 | Some g \<Rightarrow> g) else p0) in
               if host_side cfg path then None
               else case fakeproc path of
                      Some fp \<Rightarrow> Some (snprintf_s SP_PATH_MAX fp)
                    | None \<Rightarrow>
                        (case first_bind (binds cfg) path of
                           Some b \<Rightarrow> translate_binds cfg lst path follow_final b
                         | None \<Rightarrow>
                             if \<exists>pt \<in> set (passthrough cfg). path_within pt path then None
                             else translate_rootfs cfg lst path follow_final))"

text \<open>\<^verbatim>\<open>sp_translate\<close>, in the build without the interposing hooks.\<close>

abbreviation no_hook :: "cstr \<Rightarrow> cptr" where
  "no_hook \<equiv> \<lambda>_. None"

definition sp_translate :: "sp_config \<Rightarrow> lstat \<Rightarrow> cptr \<Rightarrow> cstr option" where
  "sp_translate cfg lst path = sp_translate_f no_hook no_hook cfg lst path True"

text \<open>The scan of \<^verbatim>\<open>sp_reverse\<close>: the deepest host match, the earlier one on a tie.\<close>

fun best_bind :: "sp_bind option \<Rightarrow> sp_bind list \<Rightarrow> cstr \<Rightarrow> sp_bind option" where
  "best_bind best [] host = best"
| "best_bind best (b # bs) host =
     (if \<not> path_within (bind_host b) host then best_bind best bs host
      else case best of
             None \<Rightarrow> best_bind (Some b) bs host
           | Some b0 \<Rightarrow>
               if length (bind_host b) > length (bind_host b0) then best_bind (Some b) bs host
               else best_bind best bs host)"

text \<open>
  \<^verbatim>\<open>sp_reverse\<close>; the result is what \<open>out\<close> holds (its length is the return value).
  \<open>None\<close> marks the executions that are undefined in C: \<open>outsz = 0\<close>, where
  \<^verbatim>\<open>outsz - 1\<close> wraps, and a truncation below the guest prefix, where
  \<^verbatim>\<open>total - guest_len\<close> wraps.
\<close>

definition reverse_copy :: "cstr \<Rightarrow> nat \<Rightarrow> cstr option" where
  "reverse_copy s outsz = (if outsz = 0 then None
                           else Some (if length s + 1 > outsz then take (outsz - 1) s else s))"

definition sp_reverse :: "sp_config \<Rightarrow> cstr \<Rightarrow> nat \<Rightarrow> cstr option" where
  "sp_reverse cfg host outsz =
     (let in_root = rootfs cfg \<noteq> [] \<and> path_within (rootfs cfg) host;
          root_branch =
            (if in_root
             then let rel = drop (length (rootfs cfg)) host
                  in reverse_copy (if rel = [] then [slash] else rel) outsz
             else reverse_copy host outsz)
      in case best_bind None (binds cfg) host of
           None \<Rightarrow> root_branch
         | Some b \<Rightarrow>
             if length (rootfs cfg) > length (bind_host b) \<and> path_within (rootfs cfg) host
             then root_branch
             else let rest = drop (length (bind_host b)) host;
                      total = length (bind_guest b) + length rest
                  in if outsz = 0 then None
                     else if total + 1 > outsz \<and> outsz - 1 < length (bind_guest b) then None
                     else reverse_copy (bind_guest b @ rest) outsz)"

section \<open>Kernel hypotheses\<close>

text \<open>What the kernel guarantees: the content of a symbolic link is a C string.\<close>

definition kernel_ok :: "lstat \<Rightarrow> bool" where
  "kernel_ok lst \<longleftrightarrow> (\<forall>p t. lst p = Link t \<longrightarrow> NUL \<notin> set t)"

text \<open>
  A condition on the installation, which neither the kernel nor the code ensures: the rootfs directory itself is not a symbolic
  link with a relative target.
\<close>

definition root_stays :: "sp_config \<Rightarrow> lstat \<Rightarrow> bool" where
  "root_stays cfg lst \<longleftrightarrow>
     (case lst (rootfs cfg) of Link t \<Rightarrow> read_link t = [] \<or> char_at (read_link t) 0 = slash | _ \<Rightarrow> True)"

text \<open>The loop invariant: inside the rootfs, and inside the buffer.\<close>

definition contained :: "sp_config \<Rightarrow> cstr \<Rightarrow> bool" where
  "contained cfg p \<longleftrightarrow> under (rootfs cfg) p \<and> length p < SP_PATH_MAX"

text \<open>The rootfs of a loaded configuration, when there is one.\<close>

definition rooted :: "sp_config \<Rightarrow> bool" where
  "rooted cfg \<longleftrightarrow> rootfs cfg \<noteq> [] \<and> hd (rootfs cfg) = slash \<and> length (rootfs cfg) < SP_PATH_MAX"

definition safe :: "sp_config \<Rightarrow> lstat \<Rightarrow> cstr \<Rightarrow> bool" where
  "safe cfg lst p \<longleftrightarrow> rooted cfg \<and> kernel_ok lst \<and> root_stays cfg lst \<and> contained cfg p"

section \<open>Configurations and a file system for the witnesses\<close>

text \<open>A link that tries to climb out of the rootfs, and one with an absolute guest target.\<close>

definition escape_cfg :: sp_config where
  "escape_cfg = \<lparr>rootfs = ''/r'', binds = [], passthrough = default_pt, cfg_debug = False,
     cfg_fakeroot = False, cfg_link2symlink = False\<rparr>"

definition escape_lst :: lstat where
  "escape_lst p = (if p = ''/r/a'' then Link ''../../etc'' else if p = ''/r/etc'' then Link ''/b'' else Node)"

definition prefix_bind_cfg :: sp_config where
  "prefix_bind_cfg = \<lparr>rootfs = ''/data/r'',
     binds = [\<lparr>bind_host = ''/data'', bind_guest = ''/usr/l''\<rparr>, \<lparr>bind_host = ''/sd'', bind_guest = ''/usr''\<rparr>],
     passthrough = default_pt, cfg_debug = False, cfg_fakeroot = False, cfg_link2symlink = False\<rparr>"

section \<open>Containment\<close>

lemma rooted_wf: "wf_config cfg \<Longrightarrow> rootfs cfg \<noteq> [] \<Longrightarrow> rooted cfg"
  by (simp add: wf_config_def wf_abs_def rooted_def)

lemma contained_canon:
  assumes "rooted cfg" and "rest = [] \<or> hd rest = slash" and "length (rootfs cfg @ rest) < SP_PATH_MAX"
  shows "contained cfg (sp_dotdot_canon (rootfs cfg @ rest) (length (rootfs cfg)))"
  using assms under_canon [of "rootfs cfg" rest] length_canon [of "rootfs cfg" rest]
  by (simp add: contained_def rooted_def)

lemma contained_root: "rooted cfg \<Longrightarrow> contained cfg (rootfs cfg)"
  by (simp add: contained_def rooted_def under_def)

lemma containedE:
  assumes "contained cfg p"
  obtains rest where "p = rootfs cfg @ rest" "rest = [] \<or> hd rest = slash" "length p < SP_PATH_MAX"
  using assms by (auto simp: contained_def under_def)

lemma strrchr_in_append:
  assumes "rest \<noteq> []" and "hd rest = slash"
  obtains i where "strrchr (root @ rest) slash = Some i" "length root \<le> i" "i < length (root @ rest)"
proof -
  obtain t u where rest: "rest = t @ slash # u" "slash \<notin> set u"
    by (metis assms hd_in_set split_list_last)
  have "strrchr ((root @ t) @ slash # u) slash = Some (length (root @ t))"
    using rest(2) by (rule strrchr_append_notin)
  with rest that show ?thesis by simp
qed

lemma abs_link_cases:
  assumes "rooted cfg" and "NUL \<notin> set link" and "link \<noteq> []" and "char_at link 0 = slash"
  shows "path_within (rootfs cfg) link \<Longrightarrow> \<exists>rest. link = rootfs cfg @ rest \<and> (rest = [] \<or> hd rest = slash)"
    and "hd link = slash"
  using assms path_within_iff by (auto simp: hd_conv_nth)

lemma take_append_root: "length root \<le> i \<Longrightarrow> take i (root @ rest) = root @ take (i - length root) rest"
  by simp

lemma contained_relative:
  assumes "rooted cfg" and "p = rootfs cfg @ rest" and "hd rest = slash" and "rest \<noteq> []"
    and "length (rootfs cfg) < k" and "length (take k p @ tail) < SP_PATH_MAX"
  shows "contained cfg (sp_dotdot_canon (take k p @ tail) (length (rootfs cfg)))"
proof -
  let ?r = "take (k - length (rootfs cfg)) rest @ tail"
  have "take k p @ tail = rootfs cfg @ ?r" using assms by simp
  moreover have "?r = [] \<or> hd ?r = slash" using assms by (cases rest) (auto simp: take_Cons')
  ultimately show ?thesis using contained_canon [of cfg ?r] assms by simp
qed

lemma read_link_props: "NUL \<notin> set t \<Longrightarrow> NUL \<notin> set (read_link t)" "length (read_link t) < SP_PATH_MAX"
  by (auto simp: read_link_def sp_const dest: in_set_takeD)

lemma chase_step_safe:
  assumes "safe cfg lst out"
  shows "case chase_step cfg lst out of Return r \<Rightarrow> r = (out, snd r) | Continue out' \<Rightarrow> safe cfg lst out'"
proof (cases "lst out")
  case (Link t)
  let ?l = "read_link t"
  from assms have rt: "rooted cfg" and k: "kernel_ok lst" "root_stays cfg lst" and c: "contained cfg out"
    by (auto simp: safe_def)
  have nul: "NUL \<notin> set ?l" using k Link read_link_props(1) by (auto simp: kernel_ok_def)
  have ln: "length ?l < SP_PATH_MAX" by (rule read_link_props(2))
  from c obtain rest where out: "out = rootfs cfg @ rest" "rest = [] \<or> hd rest = slash" by (rule containedE)
  consider (empty) "?l = []" | (rel) "?l \<noteq> []" "char_at ?l 0 \<noteq> slash"
    | (inroot) "?l \<noteq> []" "char_at ?l 0 = slash" "path_within (rootfs cfg) ?l"
    | (guest) "?l \<noteq> []" "char_at ?l 0 = slash" "\<not> path_within (rootfs cfg) ?l" by blast
  then show ?thesis
  proof cases
    case empty
    then show ?thesis by (simp add: chase_step_def Link)
  next
    case rel
    have ne: "rest \<noteq> []" using k(2) Link out rel by (auto simp: root_stays_def)
    obtain i where i: "strrchr out slash = Some i" "length (rootfs cfg) \<le> i" "i < length out"
      using strrchr_in_append [of rest "rootfs cfg"] ne out by auto
    show ?thesis
    proof (cases "Suc i + length ?l + 1 > SP_PATH_MAX")
      case False
      then have "contained cfg (sp_dotdot_canon (take (Suc i) out @ ?l) (length (rootfs cfg)))"
        using rt out ne i by (intro contained_relative [of cfg out rest]) auto
      with False rel i rt k show ?thesis by (simp add: chase_step_def Link safe_def Let_def)
    qed (use rel i in \<open>simp add: chase_step_def Link\<close>)
  next
    case inroot
    then obtain r where "?l = rootfs cfg @ r" "r = [] \<or> hd r = slash"
      using abs_link_cases(1) [OF rt nul] by blast
    then have "contained cfg (sp_dotdot_canon ?l (length (rootfs cfg)))"
      using contained_canon [OF rt, of r] ln by simp
    with inroot rt k show ?thesis by (simp add: chase_step_def Link safe_def)
  next
    case guest
    then have "hd ?l = slash" using abs_link_cases(2) [OF rt nul] by blast
    then have "contained cfg (sp_dotdot_canon (rootfs cfg @ ?l) (length (rootfs cfg)))"
      if "length (rootfs cfg) + length ?l + 1 \<le> SP_PATH_MAX"
      using contained_canon [OF rt, of ?l] that by simp
    with guest rt k show ?thesis by (simp add: chase_step_def Link safe_def Let_def not_less)
  qed
qed (simp_all add: chase_step_def)

interpretation chase: hop_invariant "chase_step cfg lst" "safe cfg lst" "\<lambda>r. safe cfg lst (fst r)"
  for cfg lst
proof
  show "safe cfg lst s'" if "safe cfg lst s" "chase_step cfg lst s = Continue s'" for s s'
    using chase_step_safe [OF that(1)] that(2) by simp
  show "safe cfg lst (fst r)" if "safe cfg lst s" "chase_step cfg lst s = Return r" for s r
  proof -
    have "fst r = s" using chase_step_safe [OF that(1)] that(2) by (cases r) simp
    with that show ?thesis by simp
  qed
qed

lemma chase_clamp_safe: "safe cfg lst out \<Longrightarrow> safe cfg lst (chase_clamp cfg lst out)"
proof -
  assume s: "safe cfg lst out"
  show ?thesis
  proof (cases "lst out")
    case (Link t)
    let ?l = "read_link t"
    have "contained cfg (sp_dotdot_canon (rootfs cfg @ ?l) (length (rootfs cfg)))"
      if "?l \<noteq> []" "char_at ?l 0 = slash" "length (rootfs cfg) + length ?l + 1 \<le> SP_PATH_MAX"
      using s that contained_canon [of cfg ?l] by (simp add: safe_def hd_conv_nth)
    with s Link show ?thesis by (auto simp: chase_clamp_def safe_def Let_def)
  qed (use s in \<open>simp_all add: chase_clamp_def\<close>)
qed

lemma sp_chase_final_safe: "safe cfg lst out \<Longrightarrow> safe cfg lst (fst (sp_chase_final cfg lst out))"
  by (auto simp: sp_chase_final_def split: hop.splits
      dest: chase.loop_continue chase.loop_return intro: chase_clamp_safe)

lemma contained_splice:
  assumes "rooted cfg" and "p = rootfs cfg @ rest" and "rest = [] \<or> hd rest = slash"
    and "length (rootfs cfg) \<le> k" and "length (take k p @ slash # tail) < SP_PATH_MAX"
  shows "contained cfg (sp_dotdot_canon (take k p @ slash # tail) (length (rootfs cfg)))"
proof -
  let ?r = "take (k - length (rootfs cfg)) rest @ slash # tail"
  have "take k p @ slash # tail = rootfs cfg @ ?r" using assms by simp
  moreover have "hd ?r = slash" using assms by (cases rest) (auto simp: take_Cons')
  ultimately show ?thesis using contained_canon [of cfg ?r] assms by simp
qed

lemma splice_safe:
  assumes s: "safe cfg lst out" and sl: "sl = strchr_from out (p + 1) slash" and p: "length (rootfs cfg) \<le> p"
    and lk: "lst (case sl of None \<Rightarrow> out | Some i \<Rightarrow> take i out) = Link t"
    and sp: "read_link t \<noteq> []" "splice cfg out sl (read_link t) = Some merged"
  shows "contained cfg (sp_dotdot_canon merged (length (rootfs cfg)))"
proof -
  let ?l = "read_link t" and ?rest = "case sl of None \<Rightarrow> [] | Some i \<Rightarrow> drop i out"
  from s have rt: "rooted cfg" and k: "kernel_ok lst" "root_stays cfg lst" and c: "contained cfg out" by (auto simp: safe_def)
  have nul: "NUL \<notin> set ?l" using k lk read_link_props(1) by (auto simp: kernel_ok_def)
  from c obtain r where out: "out = rootfs cfg @ r" "r = [] \<or> hd r = slash" by (rule containedE)
  have rest: "?rest = [] \<or> hd ?rest = slash"
    using strchr_from_Some(2,3) [OF sl [symmetric, THEN trans]]
    by (cases sl) (auto simp: hd_drop_conv_nth)
  consider (inroot) "char_at ?l 0 = slash" "path_within (rootfs cfg) ?l"
    | (guest) "char_at ?l 0 = slash" "\<not> path_within (rootfs cfg) ?l"
    | (rel) "char_at ?l 0 \<noteq> slash" by blast
  then show ?thesis
  proof cases
    case inroot
    then obtain q where q: "?l = rootfs cfg @ q" "q = [] \<or> hd q = slash"
      using abs_link_cases(1) [OF rt nul sp(1)] by blast
    moreover have "q @ ?rest = [] \<or> hd (q @ ?rest) = slash" using q(2) rest by (cases q) auto
    ultimately show ?thesis
      using inroot sp contained_canon [OF rt, of "q @ ?rest"] by (auto simp: splice_def Let_def split: if_splits)
  next
    case guest
    then have "hd (?l @ ?rest) = slash" using abs_link_cases(2) [OF rt nul sp(1)] sp(1) by simp
    with guest show ?thesis
      using sp contained_canon [OF rt, of "?l @ ?rest"] by (auto simp: splice_def Let_def split: if_splits)
  next
    case rel
    obtain d where d: "merged = take d out @ slash # ?l @ ?rest" "length (rootfs cfg) \<le> d"
      "length merged < SP_PATH_MAX"
    proof (cases sl)
      case (Some i)
      with sl have "p + 1 \<le> i" "i < length out" using strchr_from_Some(1,2) by metis+
      with Some rel sp p show thesis by (intro that [of i]) (auto simp: splice_def Let_def split: if_splits)
    next
      case None
      have "r \<noteq> []" using k(2) lk None out rel sp(1) by (auto simp: root_stays_def)
      then obtain i where "strrchr out slash = Some i" "length (rootfs cfg) \<le> i" "i < length out"
        using strrchr_in_append [of r "rootfs cfg"] out by auto
      with None rel sp show thesis by (intro that [of i]) (auto simp: splice_def Let_def split: if_splits)
    qed
    show ?thesis unfolding d(1)
      by (rule contained_splice [OF rt out d(2)]) (use d in simp)
  qed
qed

lemma splice_walk_safe:
  "safe cfg lst out \<Longrightarrow> length (rootfs cfg) \<le> p \<Longrightarrow>
   (case splice_walk cfg lst out p of Return o1 \<Rightarrow> o1 = out | Continue o2 \<Rightarrow> safe cfg lst o2)"
proof (induction cfg lst out p rule: splice_walk.induct)
  case (1 cfg lst out p)
  let ?sl = "strchr_from out (p + 1) slash"
  have le: "length (rootfs cfg) \<le> i" if "?sl = Some i" for i
    using strchr_from_Some(1) [OF that] 1 by simp
  have sk: "rooted cfg" "kernel_ok lst" "root_stays cfg lst" using 1 by (auto simp: safe_def)
  show ?case
  proof (cases "lst (case ?sl of None \<Rightarrow> out | Some i \<Rightarrow> take i out)")
    case Miss
    then show ?thesis by (subst splice_walk.simps) (simp add: Let_def)
  next
    case Node
    then show ?thesis
      using 1 le by (subst splice_walk.simps) (auto simp: Let_def split: option.splits)
  next
    case (Link t)
    show ?thesis
    proof (cases "read_link t = []")
      case True
      with Link show ?thesis
        using 1 le by (subst splice_walk.simps) (auto simp: Let_def split: option.splits)
    next
      case False
      have "safe cfg lst (sp_dotdot_canon m (length (rootfs cfg)))"
        if "splice cfg out ?sl (read_link t) = Some m" for m
        using splice_safe [OF 1(2) refl 1(3) Link False that] sk by (simp add: safe_def)
      with Link False show ?thesis by (subst splice_walk.simps) (auto simp: Let_def split: option.splits)
    qed
  qed
qed

interpretation mid: hop_invariant "intermediate_step cfg lst" "safe cfg lst" "safe cfg lst"
  for cfg lst
proof
  show "safe cfg lst s'" if "safe cfg lst s" "intermediate_step cfg lst s = Continue s'" for s s'
    using splice_walk_safe [OF that(1) order_refl] that(2) by (simp add: intermediate_step_def)
  show "safe cfg lst r" if "safe cfg lst s" "intermediate_step cfg lst s = Return r" for s r
    using splice_walk_safe [OF that(1) order_refl] that by (simp add: intermediate_step_def)
qed

lemma sp_resolve_intermediate_links_safe:
  "safe cfg lst out \<Longrightarrow> safe cfg lst (sp_resolve_intermediate_links cfg lst out)"
  by (auto simp: sp_resolve_intermediate_links_def split: hop.splits dest: mid.loop_continue mid.loop_return)

lemma sp_resolve_links_safe: "safe cfg lst out \<Longrightarrow> safe cfg lst (sp_resolve_links cfg lst out)"
proof -
  assume s: "safe cfg lst out"
  obtain o1 d where c: "sp_chase_final cfg lst out = (o1, d)" by (cases "sp_chase_final cfg lst out")
  with s have "safe cfg lst o1" using sp_chase_final_safe [OF s] by simp
  then show ?thesis
    using s by (auto simp: sp_resolve_links_def c intro: sp_chase_final_safe sp_resolve_intermediate_links_safe)
qed

lemma translate_rootfs_safe:
  assumes "rooted cfg" and "kernel_ok lst" and "follow \<longrightarrow> root_stays cfg lst" and "char_at path 0 = slash"
    and "translate_rootfs cfg lst path follow = Some out"
  shows "contained cfg out"
proof -
  let ?o = "sp_dotdot_canon (rootfs cfg @ path) (length (rootfs cfg))"
  have len: "length (rootfs cfg) + length path + 1 \<le> SP_PATH_MAX"
    using assms(5) by (auto simp: translate_rootfs_def split: if_splits)
  have "path = [] \<or> hd path = slash" using assms(4) by (cases path) auto
  then have c: "contained cfg ?o" using contained_canon [OF assms(1)] len by simp
  have "safe cfg lst ?o" if follow using assms(1-3) c that by (simp add: safe_def)
  moreover have "out = (if follow then sp_resolve_links cfg lst ?o else ?o)"
    using assms(5) by (auto simp: translate_rootfs_def Let_def split: if_splits)
  ultimately show ?thesis using c sp_resolve_links_safe [of cfg lst ?o] by (auto simp: safe_def)
qed

section \<open>Which bind applies\<close>

lemma first_bind_SomeD:
  "first_bind bs p = Some b \<Longrightarrow> b \<in> set bs \<and> path_within (bind_guest b) p"
  by (induction bs) (auto split: if_splits)

lemma first_bind_None_iff: "first_bind bs p = None \<longleftrightarrow> (\<forall>b \<in> set bs. \<not> path_within (bind_guest b) p)"
  by (induction bs) auto

lemma first_bind_longest:
  "longest_first bs \<Longrightarrow> first_bind bs p = Some b \<Longrightarrow> b' \<in> set bs \<Longrightarrow> path_within (bind_guest b') p
   \<Longrightarrow> length (bind_guest b') \<le> length (bind_guest b)"
  by (induction bs) (auto simp: longest_first_def split: if_splits)

lemma best_bind_SomeD:
  "best_bind b0 bs h = Some b \<Longrightarrow> b0 = Some b \<or> (b \<in> set bs \<and> path_within (bind_host b) h)"
  by (induction b0 bs h rule: best_bind.induct) (auto split: if_splits option.splits)

lemma best_bind_mono: "best_bind (Some b0) bs h \<noteq> None"
  by (induction bs arbitrary: b0) auto

lemma best_bind_deepest:
  "best_bind b0 bs h = Some b \<Longrightarrow>
     (\<forall>b1. b0 = Some b1 \<longrightarrow> length (bind_host b1) \<le> length (bind_host b)) \<and>
     (\<forall>b' \<in> set bs. path_within (bind_host b') h \<longrightarrow> length (bind_host b') \<le> length (bind_host b))"
proof (induction b0 bs h rule: best_bind.induct)
  case (1 best host)
  then show ?case by simp
next
  case (2 best b' bs host)
  then show ?case by (auto split: if_splits option.splits)
qed

lemma best_bind_None: "best_bind None bs h = None \<Longrightarrow> b \<in> set bs \<Longrightarrow> \<not> path_within (bind_host b) h"
  by (induction bs) (auto simp: best_bind_mono split: if_splits)

lemma length_reverse_copy: "reverse_copy s n = Some out \<Longrightarrow> length out < n"
  by (auto simp: reverse_copy_def split: if_splits)

lemma translate_no_bind:
  assumes "\<forall>b \<in> set (binds cfg). \<not> path_within (bind_guest b) p"
    and "sp_translate_f no_hook no_hook cfg lst (Some p) follow = Some out"
  shows "translate_rootfs cfg lst p follow = Some out \<and> char_at p 0 = slash"
proof -
  have "first_bind (binds cfg) p = None" using assms(1) by (simp add: first_bind_None_iff)
  with assms(2) show ?thesis by (auto simp: sp_translate_f_def split: if_splits)
qed


lemma resolve_links_id:
  "\<forall>t. lst out \<noteq> Link t \<Longrightarrow> lst out \<noteq> Miss \<Longrightarrow> sp_resolve_links cfg lst out = out"
  by (cases "lst out") (auto simp: sp_resolve_links_def sp_chase_final_def chase_step_def eval_nat_numeral)

section \<open>Properties\<close>

lemma escape_kernel_ok: "kernel_ok escape_lst" "root_stays escape_cfg escape_lst"
  by (auto simp: kernel_ok_def root_stays_def escape_lst_def escape_cfg_def split: if_splits)

lemma prefix_bind_wf: "wf_config prefix_bind_cfg"
  by (simp add: wf_config_def prefix_bind_cfg_def wf_abs_def longest_first_def default_pt_def sp_const)

lemma escape_wf: "wf_config escape_cfg"
  by (simp add: wf_config_def escape_cfg_def wf_abs_def longest_first_def default_pt_def sp_const)

text \<open>
  C1: whatever symbolic links lie below the rootfs, a guest path that no bind covers is translated to a host path inside the
  rootfs: the result is the rootfs or lies below it, has no \<^verbatim>\<open>..\<close> component after the rootfs prefix, and fits the caller's buffer.
  Without the final chase this holds for every file system; with it, the rootfs itself must not be a symbolic link with a
  relative target.
\<close>

theorem sp_translate_contained:
  assumes "wf_config cfg" and "kernel_ok lst" and "follow \<longrightarrow> root_stays cfg lst"
    and "\<forall>b \<in> set (binds cfg). \<not> path_within (bind_guest b) p"
    and "sp_translate_f no_hook no_hook cfg lst (Some p) follow = Some out"
  shows "under (rootfs cfg) out \<and> length out < SP_PATH_MAX"
proof -
  have tr: "translate_rootfs cfg lst p follow = Some out" and abs: "char_at p 0 = slash"
    using translate_no_bind [OF assms(4,5)] by auto
  have "rootfs cfg \<noteq> []" using tr by (auto simp: translate_rootfs_def)
  then have "contained cfg out" by (rule translate_rootfs_safe [OF rooted_wf [OF assms(1)] assms(2,3) abs tr])
  then show ?thesis by (simp add: contained_def)
qed

theorem sp_translate_contained_witness:
  "sp_translate_f no_hook no_hook escape_cfg escape_lst (Some ''/x/../a'') True = Some ''/r/b'' \<and>
   under ''/r'' ''/r/b'' \<and> length ''/r/b'' < SP_PATH_MAX"
proof -
  have t: "sp_translate_f no_hook no_hook escape_cfg escape_lst (Some ''/x/../a'') True = Some ''/r/b''"
    by code_simp
  have r: "rootfs escape_cfg = ''/r''" by (simp add: escape_cfg_def)
  have b: "\<forall>b \<in> set (binds escape_cfg). \<not> path_within (bind_guest b) ''/x/../a''"
    by (simp add: escape_cfg_def)
  from sp_translate_contained [OF escape_wf escape_kernel_ok(1) _ b t] escape_kernel_ok(2) t show ?thesis
    unfolding r by blast
qed

text \<open>
  C9: the bind that applies to a guest path is the one with the longest guest prefix, and
  without the final chase the result is below that bind's host directory, however many
  \<^verbatim>\<open>..\<close> the path carries.
\<close>

theorem sp_translate_bind:
  assumes "wf_config cfg" and "sp_translate_f no_hook no_hook cfg lst (Some p) False = Some out"
    and "b \<in> set (binds cfg)" and "path_within (bind_guest b) p" and "NUL \<notin> set p"
  shows "\<exists>b' \<in> set (binds cfg). length (bind_guest b) \<le> length (bind_guest b') \<and>
           path_within (bind_guest b') p \<and> under (bind_host b') out \<and> length out < SP_PATH_MAX"
proof -
  from assms(3,4) obtain b' where b': "first_bind (binds cfg) p = Some b'"
    using first_bind_None_iff by (metis not_None_eq)
  have mem: "b' \<in> set (binds cfg)" "path_within (bind_guest b') p"
    using first_bind_SomeD [OF b'] by auto
  let ?rest = "drop (length (bind_guest b')) p"
  have wf: "bind_host b' \<noteq> []" "hd (bind_host b') = slash" "length (bind_host b') < SP_PATH_MAX"
    using assms(1) mem(1) by (auto simp: wf_config_def wf_abs_def)
  have rest: "?rest = [] \<or> hd ?rest = slash"
    using mem(2) path_within_iff [OF assms(5)] by auto
  have out: "out = sp_dotdot_canon (bind_host b' @ ?rest) (length (bind_host b'))"
    and len: "length (bind_host b' @ ?rest) < SP_PATH_MAX"
    using assms(2) by (auto simp: sp_translate_f_def b' translate_binds_def Let_def split: if_splits)
  have "length (bind_guest b) \<le> length (bind_guest b')"
    using first_bind_longest [OF _ b' assms(3,4)] assms(1) by (simp add: wf_config_def)
  with mem under_canon [OF wf, of ?rest] length_canon [OF wf rest] len show ?thesis
    unfolding out by fastforce
qed

theorem sp_translate_bind_witness:
  "sp_translate_f no_hook no_hook prefix_bind_cfg escape_lst (Some ''/usr/l/../../x'') False = Some ''/data/x'' \<and>
   (\<exists>b' \<in> set (binds prefix_bind_cfg). length ''/usr'' \<le> length (bind_guest b') \<and>
      path_within (bind_guest b') ''/usr/l/../../x'' \<and> under (bind_host b') ''/data/x'' \<and>
      length ''/data/x'' < SP_PATH_MAX)"
proof -
  let ?b = "\<lparr>bind_host = ''/sd'', bind_guest = ''/usr''\<rparr>"
  have t: "sp_translate_f no_hook no_hook prefix_bind_cfg escape_lst (Some ''/usr/l/../../x'') False = Some ''/data/x''"
    by code_simp
  have m: "?b \<in> set (binds prefix_bind_cfg)" by (simp add: prefix_bind_cfg_def)
  have w: "path_within (bind_guest ?b) ''/usr/l/../../x''" by code_simp
  show ?thesis
    using sp_translate_bind [OF prefix_bind_wf t m w] t by simp
qed



text \<open>
  C8: round trip. A guest path made of plain names, under no bind and no passthrough prefix,
  comes back from \<^verbatim>\<open>sp_reverse\<close> as it was, also when some bind's host side is an ancestor
  of the rootfs.
\<close>

theorem sp_reverse_translate:
  assumes "wf_config cfg" and "p = join_comps cs" and "cs \<noteq> []" and "\<forall>c \<in> set cs. plain c"
    and "\<forall>b \<in> set (binds cfg). \<not> path_within (bind_guest b) p"
    and "\<forall>b \<in> set (binds cfg). path_within (bind_host b) (rootfs cfg @ p) \<longrightarrow> length (bind_host b) < length (rootfs cfg)"
    and "sp_translate_f no_hook no_hook cfg lst (Some p) False = Some out"
    and "length p < outsz"
  shows "out = rootfs cfg @ p \<and> sp_reverse cfg out outsz = Some p"
proof -
  have tr: "translate_rootfs cfg lst p False = Some out"
    using translate_no_bind [OF assms(5,7)] by auto
  then have ne: "rootfs cfg \<noteq> []" by (auto simp: translate_rootfs_def)
  with assms(1) have rt: "rooted cfg" by (rule rooted_wf)
  have "sp_dotdot_canon (rootfs cfg @ p) (length (rootfs cfg)) = rootfs cfg @ p"
    using rt canon_plain [of "rootfs cfg" cs] assms(2,4) by (simp add: rooted_def)
  with tr have out: "out = rootfs cfg @ p"
    by (auto simp: translate_rootfs_def Let_def split: if_splits)
  have "p \<noteq> []" "hd p = slash" using assms(2,3) by (cases cs, auto)+
  then have pw: "path_within (rootfs cfg) out" by (simp add: out)
  have root: "reverse_copy p outsz = Some p" using assms(8) by (auto simp: reverse_copy_def)
  show ?thesis
  proof (cases "best_bind None (binds cfg) out")
    case None
    with pw ne root out \<open>p \<noteq> []\<close> show ?thesis by (simp add: sp_reverse_def Let_def)
  next
    case (Some b)
    then have "length (bind_host b) < length (rootfs cfg)"
      using best_bind_SomeD [OF Some] assms(6) out by auto
    with Some pw ne root out \<open>p \<noteq> []\<close> show ?thesis by (simp add: sp_reverse_def Let_def)
  qed
qed

theorem sp_reverse_translate_witness:
  "sp_translate_f no_hook no_hook prefix_bind_cfg escape_lst (Some ''/home/u'') False = Some ''/data/r/home/u'' \<and>
   sp_reverse prefix_bind_cfg ''/data/r/home/u'' 16 = Some ''/home/u''"
proof -
  have t: "sp_translate_f no_hook no_hook prefix_bind_cfg escape_lst (Some ''/home/u'') False = Some ''/data/r/home/u''"
    by code_simp
  have cs: "''/home/u'' = join_comps [''home'', ''u'']" by simp
  have pl: "\<forall>c \<in> set [''home'', ''u'']. plain c" by (simp add: plain_def name_def)
  have b: "\<forall>b \<in> set (binds prefix_bind_cfg). \<not> path_within (bind_guest b) ''/home/u''" by code_simp
  have h: "\<forall>b \<in> set (binds prefix_bind_cfg). path_within (bind_host b) (rootfs prefix_bind_cfg @ ''/home/u'') \<longrightarrow>
      length (bind_host b) < length (rootfs prefix_bind_cfg)" by code_simp
  show ?thesis
    using sp_reverse_translate [OF prefix_bind_wf cs _ pl b h t, of 16] t by simp
qed

text \<open>
  \<^verbatim>\<open>sp_resolve_links\<close> clamps at the length of the rootfs even when the path lies under a bind:
  following a link below the bind \<^verbatim>\<open>/sdcard\<close> with the rootfs \<^verbatim>\<open>/root\<close> splits the bind's
  own directory name.
\<close>

lemma bind_chase_splits_component:
  "sp_translate \<lparr>rootfs = ''/root'', binds = [\<lparr>bind_host = ''/sdcard'', bind_guest = ''/m''\<rparr>], passthrough = default_pt,
     cfg_debug = False, cfg_fakeroot = False, cfg_link2symlink = False\<rparr>
     (\<lambda>p. if p = ''/sdcard/l'' then Link ''f'' else Node) (Some ''/m/l'') = Some ''/sdca/rd/f''"
  by code_simp

text \<open>
  A relative link in the middle of a path is resolved against the link itself instead of the
  directory that holds it: with \<^verbatim>\<open>/r/d/l -> t\<close> the path \<^verbatim>\<open>/d/l/f\<close> becomes
  \<^verbatim>\<open>/r/d/l/t/f\<close>.
\<close>

lemma intermediate_relative_link:
  "sp_resolve_intermediate_links escape_cfg
     (\<lambda>p. if p = ''/r/d'' then Node else if p = ''/r/d/l'' then Link ''t'' else Miss) ''/r/d/l/f'' \<noteq> ''/r/d/t/f''"
  by code_simp

text \<open>
  A rootfs that is itself a symbolic link with a relative target: the chase follows it, and the guest's root directory becomes a
  path outside.
\<close>

lemma root_link_escapes:
  "sp_translate escape_cfg (\<lambda>p. if p = ''/r'' then Link ''x'' else Node) (Some ''/.'') = Some ''/x''"
  by code_simp

text \<open>
  The host path that a bind gives is a guest path to the next translation, which puts the rootfs in front of it, although the
  design contract calls the translation of a translated path a no-op.
\<close>

lemma bind_result_translated_again:
  "sp_translate prefix_bind_cfg (\<lambda>p. Node) (Some ''/usr/x'') = Some ''/sd/x'' \<and>
   sp_translate prefix_bind_cfg (\<lambda>p. Node) (Some ''/sd/x'') = Some ''/data/r/sd/x''"
  by code_simp

end
