(* ===== verification/Sprout_Shadow.thy ===== *)
theory Sprout_Shadow
  imports Sprout_Paths
begin

text \<open>
  The shared mount table of \<^verbatim>\<open>sprout_shadow.c\<close> (reader), \<^verbatim>\<open>sprout_shadow_owner.c\<close> (writer) and
  the glue in \<^verbatim>\<open>sprout_preload.c\<close>. The mapped region is a header of machine words, an array of
  entries and the bytes from \<^verbatim>\<open>strtab_off\<close> to the end of the map; all header and entry fields
  keep their C widths, so the wrap-around of the 32-bit offset checks is the one of the code.

  The abstract view is a list of binds in the order they were added. The writer is shown to
  append to it, and the reader to compute the longest matching destination in it, the later
  entry on a tie. The table-driven CRC is shown equal to the bitwise one.
\<close>

section \<open>Layout\<close>

definition SP_SHADOW_MAGIC :: u64 where
  "SP_SHADOW_MAGIC = 0x5350525453484457"

definition SP_SHADOW_STALE_NS :: u64 where
  "SP_SHADOW_STALE_NS = 2000000000"

definition SP_SH_T_BIND :: u8 where
  "SP_SH_T_BIND = 1"

definition SP_SH_S_VALID :: u8 where
  "SP_SH_S_VALID = 1"

record sp_shadow_hdr =
  magic :: u64
  gen :: u64
  heartbeat_ns :: u64
  hdr_crc32 :: u32
  count :: u32
  cap :: u64
  strtab_off :: u64
  strtab_len :: u64

record sp_shadow_entry =
  etype :: u8
  estate :: u8
  eflags :: u16
  src_off :: u32
  src_len :: u32
  dst_off :: u32
  dst_len :: u32
  eaux :: u32
  epad :: u32

definition SP_SHADOW_HDR_SIZE :: u64 where
  "SP_SHADOW_HDR_SIZE = 56"

definition SP_SHADOW_ENTRY_SIZE :: u64 where
  "SP_SHADOW_ENTRY_SIZE = 28"

text \<open>The mapped region; \<open>strtab\<close> holds the bytes from \<^verbatim>\<open>base + strtab_off\<close> to the end of the map.\<close>

record shadow_mem =
  hdr :: sp_shadow_hdr
  entries :: "sp_shadow_entry list"
  strtab :: "char list"

section \<open>Checksum\<close>

definition crc_bit :: "u32 \<Rightarrow> u32" where
  "crc_bit c = (if and c 1 \<noteq> 0 then xor 0x82F63B78 (drop_bit 1 c) else drop_bit 1 c)"

definition crc_table :: "u8 \<Rightarrow> u32" where
  "crc_table i = (crc_bit ^^ 8) (ucast i)"

fun crc_loop :: "u32 \<Rightarrow> u8 list \<Rightarrow> u32" where
  "crc_loop crc [] = crc"
| "crc_loop crc (b # bs) = crc_loop (xor (crc_table (ucast (xor crc (ucast b)))) (drop_bit 8 crc)) bs"

definition crc32c :: "u8 list \<Rightarrow> u32" where
  "crc32c bs = not (crc_loop (not 0) bs)"

text \<open>The bitwise definition of CRC-32C that the table speeds up.\<close>

definition crc32c_bitwise :: "u8 list \<Rightarrow> u32" where
  "crc32c_bitwise bs = not (foldl (\<lambda>crc b. (crc_bit ^^ 8) (xor crc (ucast b))) (not 0) bs)"

section \<open>Reader\<close>

text \<open>
  \<^verbatim>\<open>sp_shadow_attach\<close>: \<open>mapped fd\<close> is what \<^verbatim>\<open>mmap\<close> of the descriptor gives, \<open>None\<close> on
  failure. \<open>strict\<close> is \<^verbatim>\<open>SPROUT_SHADOW_STRICT=1\<close>, which turns corruption into an abort.
\<close>

datatype attach = Attached shadow_mem | Refused | Aborted

definition attach_mapsz :: u64 where
  "attach_mapsz = push_bit 16 1"

definition shadow_corrupt :: "bool \<Rightarrow> attach" where
  "shadow_corrupt strict = (if strict then Aborted else Refused)"

definition attach_end :: "sp_shadow_hdr \<Rightarrow> u64" where
  "attach_end h = SP_SHADOW_HDR_SIZE + SP_SHADOW_ENTRY_SIZE * cap h + strtab_len h"

definition sp_shadow_attach :: "bool \<Rightarrow> (int \<Rightarrow> shadow_mem option) \<Rightarrow> int \<Rightarrow> attach" where
  "sp_shadow_attach strict mapped fd =
     (if fd < 0 then Refused
      else case mapped fd of
             None \<Rightarrow> Refused
           | Some m \<Rightarrow>
               (let h = hdr m in
                if magic h \<noteq> SP_SHADOW_MAGIC \<or> cap h = 0 \<or> cap h > 4096 then shadow_corrupt strict
                else if attach_end h > attach_mapsz then shadow_corrupt strict
                else Attached m))"

text \<open>
  \<^verbatim>\<open>sp_shadow_live\<close>: the two loads of \<^verbatim>\<open>gen\<close> happen at different times, so the header is read at
  two instants \<open>m1\<close> and \<open>m2\<close>; \<open>now\<close> is the monotonic clock.
\<close>

definition sp_shadow_live :: "u64 \<Rightarrow> shadow_mem \<Rightarrow> shadow_mem \<Rightarrow> bool" where
  "sp_shadow_live now m1 m2 \<longleftrightarrow>
     gen (hdr m1) \<noteq> 0 \<and>
     \<not> now - heartbeat_ns (hdr m1) > SP_SHADOW_STALE_NS \<and>
     gen (hdr m1) = gen (hdr m2) \<and> and (gen (hdr m1)) 1 = 0 \<and>
     ucast (count (hdr m2)) \<le> cap (hdr m2)"

text \<open>
  \<^verbatim>\<open>strncmp(path, mem, n) == 0\<close> where \<open>mem\<close> is raw memory; \<open>None\<close> is a read past its end.
\<close>

fun strncmp_mem :: "cstr \<Rightarrow> char list \<Rightarrow> nat \<Rightarrow> bool option" where
  "strncmp_mem s bs 0 = Some True"
| "strncmp_mem s [] (Suc n) = None"
| "strncmp_mem s (b # bs) (Suc n) =
     (let a = (case s of [] \<Rightarrow> NUL | x # _ \<Rightarrow> x) in
      if a \<noteq> b then Some False
      else if a = NUL then Some True
      else strncmp_mem (tl s) bs n)"

text \<open>The best match so far: its length and the source range.\<close>

type_synonym best = "nat \<times> u32 \<times> u32"

text \<open>One iteration of the scan; \<open>None\<close> is a read outside the table or outside the path.\<close>

definition scan_entry :: "u64 \<Rightarrow> char list \<Rightarrow> cstr \<Rightarrow> sp_shadow_entry \<Rightarrow> best \<Rightarrow> best option" where
  "scan_entry stlen tab path e best =
     (if etype e \<noteq> SP_SH_T_BIND \<or> estate e \<noteq> SP_SH_S_VALID then Some best
      else if dst_len e = 0 \<or> (ucast (dst_off e + dst_len e) :: u64) > stlen then Some best
      else if unat (dst_len e) < fst best then Some best
      else case strncmp_mem path (drop (unat (dst_off e)) tab) (unat (dst_len e)) of
             None \<Rightarrow> None
           | Some False \<Rightarrow> Some best
           | Some True \<Rightarrow>
               if unat (dst_len e) > length path then None
               else let t = char_at path (unat (dst_len e)) in
                    if t \<noteq> NUL \<and> t \<noteq> slash then Some best
                    else Some (unat (dst_len e), src_off e, src_len e))"

fun scan_entries :: "u64 \<Rightarrow> char list \<Rightarrow> cstr \<Rightarrow> sp_shadow_entry list \<Rightarrow> best \<Rightarrow> best option" where
  "scan_entries stlen tab path [] best = Some best"
| "scan_entries stlen tab path (e # es) best =
     (case scan_entry stlen tab path e best of
        None \<Rightarrow> None
      | Some best' \<Rightarrow> scan_entries stlen tab path es best')"

datatype lookup = NoMatch | Rewritten cstr | Fault

text \<open>
  \<^verbatim>\<open>sp_shadow_lookup_bind\<close>. \<open>m1\<close>, \<open>m2\<close> are the instants of the liveness test, \<open>m\<close> the region
  during the scan and \<open>m'\<close> at the second load of \<^verbatim>\<open>gen\<close>.
\<close>

definition sp_shadow_lookup_bind ::
  "u64 \<Rightarrow> shadow_mem \<Rightarrow> shadow_mem \<Rightarrow> shadow_mem \<Rightarrow> shadow_mem \<Rightarrow> cstr \<Rightarrow> nat \<Rightarrow> lookup" where
  "sp_shadow_lookup_bind now m1 m2 m m' path out_cap =
     (if \<not> sp_shadow_live now m1 m2 then NoMatch
      else case scan_entries (strtab_len (hdr m)) (strtab m) path
                  (take (unat (count (hdr m))) (entries m)) (0, 0, 0) of
             None \<Rightarrow> Fault
           | Some (best_len, soff, slen) \<Rightarrow>
               if best_len = 0 then NoMatch
               else if gen (hdr m) \<noteq> gen (hdr m') then NoMatch
               else let tail_len = length path - best_len in
                    if unat slen + tail_len + 1 > out_cap then NoMatch
                    else if unat soff + unat slen > length (strtab m) then Fault
                    else Rewritten (take (unat slen) (drop (unat soff) (strtab m)) @ drop best_len path))"

section \<open>Writer\<close>

record sp_shadow_owner =
  ofd :: int
  omap :: "shadow_mem option"
  omap_size :: u64
  ocap :: u64
  odirty :: bool

definition owner_mapsz :: "u64 \<Rightarrow> u64" where
  "owner_mapsz cap_entries =
     (let mapsz = and (SP_SHADOW_HDR_SIZE + SP_SHADOW_ENTRY_SIZE * cap_entries + 4095) (not 4095)
      in if mapsz < push_bit 16 1 then push_bit 16 1 else mapsz)"

definition zero_entry :: sp_shadow_entry where
  "zero_entry = \<lparr>etype = 0, estate = 0, eflags = 0, src_off = 0, src_len = 0, dst_off = 0,
                 dst_len = 0, eaux = 0, epad = 0\<rparr>"

definition zero_owner :: "int \<Rightarrow> sp_shadow_owner" where
  "zero_owner fd = \<lparr>ofd = fd, omap = None, omap_size = 0, ocap = 0, odirty = False\<rparr>"

text \<open>
  \<^verbatim>\<open>sp_shadow_owner_init\<close>: \<open>memfd\<close> is the descriptor \<^verbatim>\<open>memfd_create\<close> returned and \<open>mapped\<close>
  tells whether \<^verbatim>\<open>ftruncate\<close> and \<^verbatim>\<open>mmap\<close> succeeded. A fresh memory file reads as zeroes.
\<close>

definition sp_shadow_owner_init :: "int \<Rightarrow> bool \<Rightarrow> u64 \<Rightarrow> sp_shadow_owner \<times> int" where
  "sp_shadow_owner_init memfd mapped cap_entries =
     (if cap_entries = 0 \<or> cap_entries > 4096 then (zero_owner 0, -1)
      else let mapsz = owner_mapsz cap_entries;
               off = SP_SHADOW_HDR_SIZE + SP_SHADOW_ENTRY_SIZE * cap_entries in
           if memfd < 0 \<or> \<not> mapped then (zero_owner 0, -1)
           else (\<lparr>ofd = memfd,
                  omap = Some \<lparr>hdr = \<lparr>magic = SP_SHADOW_MAGIC, gen = 1, heartbeat_ns = 0, hdr_crc32 = 0,
                                      count = 0, cap = cap_entries, strtab_off = off, strtab_len = 0\<rparr>,
                               entries = replicate (unat cap_entries) zero_entry,
                               strtab = replicate (unat (mapsz - off)) NUL\<rparr>,
                  omap_size = mapsz, ocap = cap_entries, odirty = False\<rparr>, 0))"

definition sp_shadow_owner_close :: "sp_shadow_owner \<Rightarrow> sp_shadow_owner" where
  "sp_shadow_owner_close ow = zero_owner (-1)"

text \<open>\<^verbatim>\<open>memcpy(tab + off, bytes, len)\<close>.\<close>

definition poke :: "char list \<Rightarrow> nat \<Rightarrow> char list \<Rightarrow> char list" where
  "poke tab off bytes = take off tab @ bytes @ drop (off + length bytes) tab"

definition strlen32 :: "cstr \<Rightarrow> u32" where
  "strlen32 s = word_of_nat (length s)"

definition add_bind_mem :: "shadow_mem \<Rightarrow> cstr \<Rightarrow> cstr \<Rightarrow> shadow_mem" where
  "add_bind_mem m dst src =
     (let h = hdr m; idx = count h; off = ucast (strtab_len h) :: u32;
          dlen = strlen32 dst; soff = off + dlen + 1; slen = strlen32 src;
          e = zero_entry\<lparr>etype := SP_SH_T_BIND, estate := SP_SH_S_VALID, dst_off := off, dst_len := dlen,
                         src_off := soff, src_len := slen\<rparr>
      in m\<lparr>hdr := h\<lparr>strtab_len := ucast (soff + slen + 1), count := idx + 1\<rparr>,
           entries := (entries m)[unat idx := e],
           strtab := poke (poke (strtab m) (unat off) (dst @ [NUL])) (unat soff) (src @ [NUL])\<rparr>)"

definition sp_shadow_owner_add_bind :: "sp_shadow_owner \<Rightarrow> cstr \<Rightarrow> cstr \<Rightarrow> sp_shadow_owner \<times> int" where
  "sp_shadow_owner_add_bind ow dst src =
     (case omap ow of
        None \<Rightarrow> (ow, -1)
      | Some m \<Rightarrow>
          (let h = hdr m in
           if ucast (count h) \<ge> ocap ow then (ow, -1)
           else let rem = ucast (omap_size ow - strtab_off h - strtab_len h) :: u32;
                    need = word_of_nat (length dst + length src + 2) :: u32 in
                if need > rem then (ow, -1)
                else (ow\<lparr>omap := Some (add_bind_mem m dst src), odirty := True\<rparr>, uint (count h))))"

definition sp_shadow_owner_mark_state :: "sp_shadow_owner \<Rightarrow> u32 \<Rightarrow> u8 \<Rightarrow> sp_shadow_owner" where
  "sp_shadow_owner_mark_state ow idx state =
     (case omap ow of
        None \<Rightarrow> ow
      | Some m \<Rightarrow>
          if ucast idx \<ge> ocap ow then ow
          else ow\<lparr>omap := Some (m\<lparr>entries := (entries m)[unat idx := (entries m ! unat idx)\<lparr>estate := state\<rparr>]\<rparr>),
                  odirty := True\<rparr>)"

definition sp_shadow_owner_commit :: "u64 \<Rightarrow> sp_shadow_owner \<Rightarrow> sp_shadow_owner" where
  "sp_shadow_owner_commit now ow =
     (case omap ow of
        None \<Rightarrow> ow
      | Some m \<Rightarrow> ow\<lparr>omap := Some (m\<lparr>hdr := (hdr m)\<lparr>heartbeat_ns := now,
                                         gen := and (gen (hdr m)) (not 1) + 2\<rparr>\<rparr>), odirty := False\<rparr>)"

definition sp_shadow_owner_pulse :: "u64 \<Rightarrow> sp_shadow_owner \<Rightarrow> sp_shadow_owner" where
  "sp_shadow_owner_pulse now ow =
     (case omap ow of
        None \<Rightarrow> ow
      | Some m \<Rightarrow> ow\<lparr>omap := Some (m\<lparr>hdr := (hdr m)\<lparr>heartbeat_ns := now\<rparr>\<rparr>)\<rparr>)"

section \<open>Glue in the interposer\<close>

text \<open>
  \<^verbatim>\<open>sp_shadow_init_once\<close>: the table file first, then the inherited descriptor. \<open>open_ro\<close> is
  \<^verbatim>\<open>open(path, O_RDONLY)\<close>; \<open>strtol\<close> gives the number and the rest of the string. The guard
  asks for a rest that is not empty, as the code does.
\<close>

definition sp_shadow_init_once ::
  "env \<Rightarrow> (cstr \<Rightarrow> int) \<Rightarrow> (cstr \<Rightarrow> int \<times> cstr) \<Rightarrow> (int \<Rightarrow> attach) \<Rightarrow> (int \<times> shadow_mem) option" where
  "sp_shadow_init_once env open_ro strtol att =
     (let by_fd = (case getenv env ''SPROUT_SHADOW_FD'' of
                     None \<Rightarrow> None
                   | Some e \<Rightarrow>
                       (let (fd, rest) = strtol e in
                        if rest \<noteq> [] \<and> fd \<ge> 3 \<and> fd < 4096
                        then (case att fd of Attached m \<Rightarrow> Some (fd, m) | _ \<Rightarrow> None)
                        else None))
      in case getenv env ''SPROUT_SHADOW_FILE'' of
           None \<Rightarrow> by_fd
         | Some sf \<Rightarrow>
             if sf = [] then by_fd
             else let fd = open_ro sf in
                  if fd < 0 then by_fd
                  else (case att fd of Attached m \<Rightarrow> Some (fd, m) | _ \<Rightarrow> by_fd))"

definition sp_shadow_rewrite :: "(int \<times> shadow_mem) option \<Rightarrow> u64 \<Rightarrow> cstr \<Rightarrow> lookup" where
  "sp_shadow_rewrite snap now path =
     (case snap of
        None \<Rightarrow> NoMatch
      | Some (fd, m) \<Rightarrow>
          if \<not> sp_shadow_live now m m then NoMatch
          else sp_shadow_lookup_bind now m m m m path SP_PATH_MAX)"

section \<open>Abstract table\<close>

definition slice :: "char list \<Rightarrow> nat \<Rightarrow> nat \<Rightarrow> char list" where
  "slice tab off len = take len (drop off tab)"

text \<open>A bind as the owner added it: destination, source and state.\<close>

type_synonym abs_bind = "cstr \<times> cstr \<times> u8"

definition abs_entry :: "char list \<Rightarrow> sp_shadow_entry \<Rightarrow> abs_bind" where
  "abs_entry tab e =
     (slice tab (unat (dst_off e)) (unat (dst_len e)), slice tab (unat (src_off e)) (unat (src_len e)), estate e)"

definition abs_table :: "shadow_mem \<Rightarrow> abs_bind list" where
  "abs_table m = map (abs_entry (strtab m)) (take (unat (count (hdr m))) (entries m))"

definition entry_ok :: "nat \<Rightarrow> char list \<Rightarrow> sp_shadow_entry \<Rightarrow> bool" where
  "entry_ok n tab e \<longleftrightarrow>
     etype e = SP_SH_T_BIND \<and>
     unat (dst_off e) + unat (dst_len e) < n \<and> unat (src_off e) + unat (src_len e) < n \<and>
     NUL \<notin> set (fst (abs_entry tab e))"

definition wf_table :: "shadow_mem \<Rightarrow> bool" where
  "wf_table m \<longleftrightarrow>
     magic (hdr m) = SP_SHADOW_MAGIC \<and>
     unat (cap (hdr m)) = length (entries m) \<and> length (entries m) \<le> 4096 \<and>
     unat (count (hdr m)) \<le> length (entries m) \<and>
     unat (strtab_len (hdr m)) \<le> length (strtab m) \<and> length (strtab m) < 2 ^ 31 \<and>
     (\<forall>e \<in> set (take (unat (count (hdr m))) (entries m)). entry_ok (unat (strtab_len (hdr m))) (strtab m) e)"

definition wf_owner :: "sp_shadow_owner \<Rightarrow> bool" where
  "wf_owner ow \<longleftrightarrow>
     (case omap ow of
        None \<Rightarrow> True
      | Some m \<Rightarrow> wf_table m \<and> ocap ow = cap (hdr m) \<and> strtab_off (hdr m) \<le> omap_size ow \<and>
                  unat (omap_size ow) - unat (strtab_off (hdr m)) = length (strtab m))"

text \<open>The specification of the lookup: of the valid binds that cover the path, the longest, later ones first.\<close>

definition covers :: "cstr \<Rightarrow> abs_bind \<Rightarrow> bool" where
  "covers path b \<longleftrightarrow> (case b of (d, s, st) \<Rightarrow> st = SP_SH_S_VALID \<and> d \<noteq> [] \<and> path_within d path)"

definition pick :: "cstr \<Rightarrow> (cstr \<times> cstr) option \<Rightarrow> abs_bind \<Rightarrow> (cstr \<times> cstr) option" where
  "pick path best b =
     (if covers path b \<and> (case best of None \<Rightarrow> True | Some (d, _) \<Rightarrow> length d \<le> length (fst b))
      then Some (fst b, fst (snd b)) else best)"

definition spec_lookup :: "abs_bind list \<Rightarrow> cstr \<Rightarrow> (cstr \<times> cstr) option" where
  "spec_lookup tbl path = foldl (pick path) None tbl"

text \<open>How the scan's best match stands for the abstract one.\<close>

definition best_rel :: "char list \<Rightarrow> best \<Rightarrow> (cstr \<times> cstr) option \<Rightarrow> bool" where
  "best_rel tab best ab \<longleftrightarrow>
     (case best of (n, soff, slen) \<Rightarrow>
        case ab of
          None \<Rightarrow> n = 0
        | Some (d, src) \<Rightarrow> d \<noteq> [] \<and> n = length d \<and> unat soff + unat slen \<le> length tab \<and>
                          slice tab (unat soff) (unat slen) = src)"

section \<open>The writer appends to the abstract table\<close>

lemma length_poke: "off + length bs \<le> length tab \<Longrightarrow> length (poke tab off bs) = length tab"
  by (simp add: poke_def)

lemma slice_poke_below: "a + l \<le> off \<Longrightarrow> off \<le> length tab \<Longrightarrow> slice (poke tab off bs) a l = slice tab a l"
proof -
  assume h: "a + l \<le> off" "off \<le> length tab"
  then have "slice (poke tab off bs) a l = take l (drop a (take off tab))"
    by (simp add: slice_def poke_def)
  also have "\<dots> = take l (drop a tab)" using h by (simp add: drop_take min_def)
  finally show ?thesis by (simp add: slice_def)
qed

lemma slice_poke_at: "off \<le> length tab \<Longrightarrow> slice (poke tab off (bs @ cs)) off (length bs) = bs"
  by (simp add: slice_def poke_def)

lemma slice_poke_above:
  "off + length bs \<le> a \<Longrightarrow> off \<le> length tab \<Longrightarrow> slice (poke tab off bs) a l = slice tab a l"
  by (simp add: slice_def poke_def)

lemma abs_entry_poke:
  assumes "entry_ok n tab e" and "n \<le> off" and "off \<le> length tab"
  shows "abs_entry (poke tab off bs) e = abs_entry tab e"
  using assms by (simp add: abs_entry_def entry_ok_def slice_poke_below)

lemma entry_ok_poke:
  "entry_ok n tab e \<Longrightarrow> n \<le> off \<Longrightarrow> off \<le> length tab \<Longrightarrow> n \<le> n' \<Longrightarrow> entry_ok n' (poke tab off bs) e"
  using abs_entry_poke [of n tab e off bs] by (auto simp: entry_ok_def)

lemma add_bind_words:
  assumes "unat (w :: u64) + length dst + length src + 2 \<le> n" and "n < 2 ^ 31"
  shows "unat (ucast w :: u32) = unat w" and "unat (strlen32 dst) = length dst" and "unat (strlen32 src) = length src"
    and "unat ((ucast w :: u32) + strlen32 dst + 1) = unat w + length dst + 1"
    and "unat (ucast ((ucast w :: u32) + strlen32 dst + 1 + strlen32 src + 1) :: u64) = unat w + length dst + length src + 2"
proof -
  show w: "unat (ucast w :: u32) = unat w" using assms by (intro unat_ucast_small) simp
  show d: "unat (strlen32 dst) = length dst" and s: "unat (strlen32 src) = length src"
    using assms by (auto simp: strlen32_def intro!: unat_of_nat_small)
  have wd: "unat ((ucast w :: u32) + strlen32 dst) = unat w + length dst"
    using assms w d by (subst unat_add_small) simp_all
  show wd1: "unat ((ucast w :: u32) + strlen32 dst + 1) = unat w + length dst + 1"
    using assms wd by (subst unat_add_small) simp_all
  have "unat ((ucast w :: u32) + strlen32 dst + 1 + strlen32 src) = unat w + length dst + 1 + length src"
    using assms wd1 s by (subst unat_add_small) simp_all
  then have "unat ((ucast w :: u32) + strlen32 dst + 1 + strlen32 src + 1) = unat w + length dst + length src + 2"
    using assms by (subst unat_add_small) simp_all
  then show "unat (ucast ((ucast w :: u32) + strlen32 dst + 1 + strlen32 src + 1) :: u64) = unat w + length dst + length src + 2"
    by (simp add: unat_ucast_up)
qed

lemma add_bind_mem_refines:
  assumes wf: "wf_table m" and room: "unat (count (hdr m)) < length (entries m)"
    and fits: "unat (strtab_len (hdr m)) + length dst + length src + 2 \<le> length (strtab m)"
    and nul: "NUL \<notin> set dst"
  shows "wf_table (add_bind_mem m dst src) \<and>
         abs_table (add_bind_mem m dst src) = abs_table m @ [(dst, src, SP_SH_S_VALID)]"
proof -
  let ?L = "unat (strtab_len (hdr m))" and ?c = "unat (count (hdr m))" and ?t = "strtab m"
  let ?t1 = "poke ?t ?L (dst @ [NUL])"
  let ?t2 = "poke ?t1 (?L + length dst + 1) (src @ [NUL])"
  have small: "length ?t < 2 ^ 31" "length (entries m) \<le> 4096" "?c \<le> 4096"
    using wf by (auto simp: wf_table_def)
  note w = add_bind_words [OF fits small(1)]
  have cnt: "unat (count (hdr m) + 1) = ?c + 1" using small by (subst unat_add_small) simp_all
  define e where "e = zero_entry\<lparr>etype := SP_SH_T_BIND, estate := SP_SH_S_VALID,
     dst_off := ucast (strtab_len (hdr m)), dst_len := strlen32 dst,
     src_off := ucast (strtab_len (hdr m)) + strlen32 dst + 1, src_len := strlen32 src\<rparr>"
  have mem: "strtab (add_bind_mem m dst src) = ?t2"
    "entries (add_bind_mem m dst src) = (entries m)[?c := e]"
    "unat (strtab_len (hdr (add_bind_mem m dst src))) = ?L + length dst + length src + 2"
    "unat (count (hdr (add_bind_mem m dst src))) = ?c + 1"
    "cap (hdr (add_bind_mem m dst src)) = cap (hdr m)" "magic (hdr (add_bind_mem m dst src)) = magic (hdr m)"
    using w cnt by (simp_all add: add_bind_mem_def Let_def e_def)
  have len1: "length ?t1 = length ?t" and len2: "length ?t2 = length ?t"
    using fits by (simp_all add: length_poke)
  have tk: "take (?c + 1) ((entries m)[?c := e]) = take ?c (entries m) @ [e]"
    using room by (simp add: take_Suc_conv_app_nth)
  have old: "entry_ok (?L + length dst + length src + 2) ?t2 x \<and> abs_entry ?t2 x = abs_entry ?t x"
    if "x \<in> set (take ?c (entries m))" for x
  proof -
    have ok: "entry_ok ?L ?t x" using wf that by (simp add: wf_table_def)
    have ok1: "entry_ok ?L ?t1 x" using fits by (intro entry_ok_poke [OF ok]) simp_all
    have "entry_ok (?L + length dst + length src + 2) ?t2 x" using fits len1 by (intro entry_ok_poke [OF ok1]) simp_all
    moreover have "abs_entry ?t2 x = abs_entry ?t1 x" using fits len1 by (intro abs_entry_poke [OF ok1]) simp_all
    moreover have "abs_entry ?t1 x = abs_entry ?t x" using fits by (intro abs_entry_poke [OF ok]) simp_all
    ultimately show ?thesis by simp
  qed
  have "slice ?t2 ?L (length dst) = slice ?t1 ?L (length dst)"
    using fits len1 by (intro slice_poke_below) simp_all
  also have "\<dots> = dst" using fits by (intro slice_poke_at) simp
  finally have sd: "slice ?t2 ?L (length dst) = dst" .
  have ss: "slice ?t2 (?L + length dst + 1) (length src) = src"
    using fits len1 by (intro slice_poke_at) simp
  have new: "abs_entry ?t2 e = (dst, src, SP_SH_S_VALID)"
    using w sd ss by (simp add: abs_entry_def e_def)
  have "entry_ok (?L + length dst + length src + 2) ?t2 e"
    using w new nul by (simp add: entry_ok_def) (simp add: e_def)
  with old new show ?thesis
    using wf fits len2 room unfolding wf_table_def abs_table_def mem tk by auto
qed

section \<open>The reader computes the specified lookup\<close>

lemma strncmp_mem_prefix: "NUL \<notin> set d \<Longrightarrow> strncmp_mem p (d @ r) (length d) = Some (take (length d) p = d)"
  by (induction d arbitrary: p) (auto split: list.split)

lemma length_slice: "off + len \<le> length tab \<Longrightarrow> length (slice tab off len) = len"
  by (simp add: slice_def)

lemma drop_slice: "drop off tab = slice tab off len @ drop (off + len) tab"
  by (metis append_take_drop_id drop_drop add.commute slice_def)

lemma scan_entry_pick:
  assumes ok: "entry_ok (unat stlen) tab e" and len: "unat stlen \<le> length tab" "length tab < 2 ^ 31"
    and rel: "best_rel tab best ab"
  shows "\<exists>best'. scan_entry stlen tab path e best = Some best' \<and> best_rel tab best' (pick path ab (abs_entry tab e))"
proof -
  let ?d = "slice tab (unat (dst_off e)) (unat (dst_len e))"
  have sum: "unat (dst_off e) + unat (dst_len e) < unat stlen" and bt: "etype e = SP_SH_T_BIND"
    and nul: "NUL \<notin> set ?d" using ok by (auto simp: entry_ok_def abs_entry_def)
  have ld: "length ?d = unat (dst_len e)" using sum len by (intro length_slice) simp
  have "unat (dst_off e + dst_len e) = unat (dst_off e) + unat (dst_len e)"
    using sum len by (intro unat_add_small) simp
  then have inb: "\<not> (ucast (dst_off e + dst_len e) :: u64) > stlen"
    using sum by (simp add: word_less_nat_alt unat_ucast_up)
  have cmp: "strncmp_mem path (drop (unat (dst_off e)) tab) (unat (dst_len e)) =
      Some (take (length ?d) path = ?d)"
    using strncmp_mem_prefix [OF nul, of path] ld drop_slice by metis
  have emp: "dst_len e = 0 \<longleftrightarrow> ?d = []"
    using ld by (metis length_0_conv unat_eq_zero)
  have within: "path_within ?d path \<longleftrightarrow>
      take (length ?d) path = ?d \<and> (char_at path (length ?d) = NUL \<or> char_at path (length ?d) = slash)"
    by (auto simp: path_within_def strncmp_eq_def)
  have src: "unat (src_off e) + unat (src_len e) \<le> length tab" using ok len by (simp add: entry_ok_def)
  have short: "length ?d \<le> length path" if "take (length ?d) path = ?d"
    using that by (metis length_take min.cobounded1)
  have abse: "abs_entry tab e = (?d, slice tab (unat (src_off e)) (unat (src_len e)), estate e)"
    by (simp add: abs_entry_def)
  have le: "unat (dst_len e) < fst best \<longleftrightarrow> \<not> (case ab of None \<Rightarrow> True | Some (d, _) \<Rightarrow> length d \<le> length ?d)"
    using rel ld by (auto simp: best_rel_def split: option.splits prod.splits)
  show ?thesis
  proof (cases "covers path (abs_entry tab e) \<and> \<not> unat (dst_len e) < fst best")
    case True
    then have "scan_entry stlen tab path e best = Some (unat (dst_len e), src_off e, src_len e)"
      using bt inb emp cmp within short ld by (auto simp: scan_entry_def covers_def abse)
    moreover have "pick path ab (abs_entry tab e) = Some (?d, slice tab (unat (src_off e)) (unat (src_len e)))"
      using True le by (cases ab) (auto simp: pick_def abse)
    moreover have "?d \<noteq> []" using True by (simp add: covers_def abse)
    then have "best_rel tab (unat (dst_len e), src_off e, src_len e)
        (Some (?d, slice tab (unat (src_off e)) (unat (src_len e))))"
      using src ld by (simp add: best_rel_def)
    ultimately show ?thesis by auto
  next
    case False
    have "scan_entry stlen tab path e best = Some best"
    proof (cases "estate e = SP_SH_S_VALID \<and> ?d \<noteq> [] \<and> \<not> unat (dst_len e) < fst best")
      case True
      with False have "\<not> path_within ?d path" by (simp add: covers_def abse)
      with True show ?thesis
        using inb emp cmp within short ld
        by (cases "take (length ?d) path = ?d") (auto simp: scan_entry_def bt Let_def)
    next
      case False
      then show ?thesis using inb emp by (auto simp: scan_entry_def)
    qed
    moreover have "pick path ab (abs_entry tab e) = ab"
      using False le by (cases ab) (auto simp: pick_def abse)
    ultimately show ?thesis using rel by simp
  qed
qed

lemma scan_entries_pick:
  assumes "\<forall>e \<in> set es. entry_ok (unat stlen) tab e" and "unat stlen \<le> length tab" "length tab < 2 ^ 31"
    and "best_rel tab best ab"
  shows "\<exists>best'. scan_entries stlen tab path es best = Some best' \<and>
           best_rel tab best' (foldl (pick path) ab (map (abs_entry tab) es))"
  using assms
proof (induction es arbitrary: best ab)
  case (Cons e es)
  then obtain b where "scan_entry stlen tab path e best = Some b" "best_rel tab b (pick path ab (abs_entry tab e))"
    using scan_entry_pick [of stlen tab e best ab path] by auto
  with Cons show ?case by simp
qed simp

lemma pick_Some: "pick path (Some x) b \<noteq> None"
  by (simp add: pick_def)

text \<open>What the fold means: the longest destination that covers the path, the latest of them.\<close>

lemma spec_lookup_snoc: "spec_lookup (tbl @ [b]) path = pick path (spec_lookup tbl path) b"
  by (simp add: spec_lookup_def)

lemma spec_lookup_longest:
  "case spec_lookup tbl path of
     None \<Rightarrow> \<forall>b \<in> set tbl. \<not> covers path b
   | Some (d, src) \<Rightarrow> (\<exists>st. (d, src, st) \<in> set tbl \<and> covers path (d, src, st)) \<and>
        (\<forall>b \<in> set tbl. covers path b \<longrightarrow> length (fst b) \<le> length d)"
proof (induction tbl rule: rev_induct)
  case Nil
  then show ?case by (simp add: spec_lookup_def)
next
  case (snoc b tbl)
  obtain d src st where b: "b = (d, src, st)" by (cases b)
  show ?case
  proof (cases "spec_lookup tbl path")
    case None
    with snoc show ?thesis by (auto simp: spec_lookup_snoc pick_def b)
  next
    case (Some x)
    obtain d0 s0 where "x = (d0, s0)" by (cases x)
    with snoc Some show ?thesis by (auto simp: spec_lookup_snoc pick_def b)
  qed
qed

lemma lookup_bind_refines:
  assumes wf: "wf_table m" and live: "sp_shadow_live now m m"
  shows "sp_shadow_lookup_bind now m m m m path out_cap =
     (case spec_lookup (abs_table m) path of
        None \<Rightarrow> NoMatch
      | Some (d, src) \<Rightarrow>
          if length src + (length path - length d) + 1 > out_cap then NoMatch
          else Rewritten (src @ drop (length d) path))"
proof -
  let ?es = "take (unat (count (hdr m))) (entries m)"
  have "\<forall>e \<in> set ?es. entry_ok (unat (strtab_len (hdr m))) (strtab m) e"
    "unat (strtab_len (hdr m)) \<le> length (strtab m)" "length (strtab m) < 2 ^ 31"
    using wf by (auto simp: wf_table_def)
  then obtain n so sl where sc: "scan_entries (strtab_len (hdr m)) (strtab m) path ?es (0, 0, 0) = Some (n, so, sl)"
    and rel: "best_rel (strtab m) (n, so, sl) (spec_lookup (abs_table m) path)"
    using scan_entries_pick [of ?es "strtab_len (hdr m)" "strtab m" "(0, 0, 0)" None path]
    by (auto simp: best_rel_def spec_lookup_def abs_table_def)
  show ?thesis
  proof (cases "spec_lookup (abs_table m) path")
    case None
    with rel sc live show ?thesis by (simp add: sp_shadow_lookup_bind_def best_rel_def)
  next
    case (Some ds)
    obtain d src where "ds = (d, src)" by (cases ds)
    with rel sc live Some show ?thesis
      using length_slice [of "unat so" "unat sl" "strtab m"]
      by (auto simp: sp_shadow_lookup_bind_def best_rel_def slice_def Let_def)
  qed
qed

section \<open>Writer invariant\<close>

lemma owner_mapsz_bounds:
  assumes "cap_entries \<le> 4096"
  shows "SP_SHADOW_HDR_SIZE + SP_SHADOW_ENTRY_SIZE * cap_entries \<le> owner_mapsz cap_entries"
    and "unat (owner_mapsz cap_entries) < 2 ^ 31"
proof -
  let ?n = "unat cap_entries"
  have n: "?n \<le> 4096" using assms by (simp add: word_le_nat_alt)
  have m: "unat (SP_SHADOW_ENTRY_SIZE * cap_entries) = 28 * ?n"
    using n by (subst unat_mult_small) (simp_all add: SP_SHADOW_ENTRY_SIZE_def)
  have o: "unat (SP_SHADOW_HDR_SIZE + SP_SHADOW_ENTRY_SIZE * cap_entries) = 56 + 28 * ?n"
    using n m by (subst unat_add_small) (simp_all add: SP_SHADOW_HDR_SIZE_def)
  let ?s = "SP_SHADOW_HDR_SIZE + SP_SHADOW_ENTRY_SIZE * cap_entries + 4095"
  have s: "unat ?s = 4151 + 28 * ?n"
    using n o by (subst unat_add_small) simp_all
  have mask: "(4095 :: u64) = mask 12" by (simp add: mask_eq_exp_minus_1)
  have r: "unat (and ?s (not 4095)) = (4151 + 28 * ?n) div 4096 * 4096"
    unfolding mask unat_and_not_mask using s by (simp add: mask)
  show "SP_SHADOW_HDR_SIZE + SP_SHADOW_ENTRY_SIZE * cap_entries \<le> owner_mapsz cap_entries"
    using r o n by (auto simp: owner_mapsz_def Let_def word_le_nat_alt word_less_nat_alt)
  show "unat (owner_mapsz cap_entries) < 2 ^ 31"
    using r n by (auto simp: owner_mapsz_def Let_def)
qed

lemma owner_init_wf: "wf_owner (fst (sp_shadow_owner_init memfd mapped cap_entries))"
proof (cases "cap_entries = 0 \<or> cap_entries > 4096 \<or> memfd < 0 \<or> \<not> mapped")
  case False
  then have c: "cap_entries \<le> 4096" by (simp add: not_less)
  then have "unat cap_entries \<le> 4096" by (simp add: word_le_nat_alt)
  with owner_mapsz_bounds [OF c] False show ?thesis
    by (simp add: sp_shadow_owner_init_def wf_owner_def wf_table_def Let_def unat_sub)
qed (auto simp: sp_shadow_owner_init_def wf_owner_def zero_owner_def Let_def)

lemma owner_add_bind_refines:
  assumes wf: "wf_owner ow" and m: "omap ow = Some m" and nul: "NUL \<notin> set dst"
    and len: "length dst + length src + 2 < 2 ^ 32"
    and r: "sp_shadow_owner_add_bind ow dst src = (ow', idx)" "idx \<ge> 0"
  shows "wf_owner ow' \<and> omap ow' = Some (add_bind_mem m dst src) \<and> idx = int (length (abs_table m)) \<and>
         wf_table (add_bind_mem m dst src) \<and>
         abs_table (add_bind_mem m dst src) = abs_table m @ [(dst, src, SP_SH_S_VALID)]"
proof -
  let ?h = "hdr m"
  have wt: "wf_table m" and oc: "ocap ow = cap ?h" and off: "strtab_off ?h \<le> omap_size ow"
    and sz: "unat (omap_size ow) - unat (strtab_off ?h) = length (strtab m)"
    using wf m by (auto simp: wf_owner_def)
  have lens: "unat (cap ?h) = length (entries m)" "unat (strtab_len ?h) \<le> length (strtab m)" "length (strtab m) < 2 ^ 31"
    "unat (count ?h) \<le> length (entries m)"
    using wt by (auto simp: wf_table_def)
  have nfull: "\<not> ucast (count ?h) \<ge> ocap ow"
    using r m by (auto simp: sp_shadow_owner_add_bind_def Let_def split: if_splits)
  have nneed: "\<not> (word_of_nat (length dst + length src + 2) :: u32) > ucast (omap_size ow - strtab_off ?h - strtab_len ?h)"
    using r m by (auto simp: sp_shadow_owner_add_bind_def Let_def split: if_splits)
  have res: "ow' = ow\<lparr>omap := Some (add_bind_mem m dst src), odirty := True\<rparr>" "idx = uint (count ?h)"
    using r m nfull nneed by (auto simp: sp_shadow_owner_add_bind_def Let_def)
  have room: "unat (count ?h) < length (entries m)"
    using nfull lens oc by (simp add: word_le_nat_alt unat_ucast_up)
  have d1: "unat (omap_size ow - strtab_off ?h) = length (strtab m)"
    using off sz by (simp add: unat_sub)
  have d2: "unat (omap_size ow - strtab_off ?h - strtab_len ?h) = length (strtab m) - unat (strtab_len ?h)"
    using d1 lens by (subst unat_sub) (simp_all add: word_le_nat_alt)
  have "unat (ucast (omap_size ow - strtab_off ?h - strtab_len ?h) :: u32) = length (strtab m) - unat (strtab_len ?h)"
    using d2 lens by (subst unat_ucast_small) simp_all
  moreover have "unat (word_of_nat (length dst + length src + 2) :: u32) = length dst + length src + 2"
    using len by (intro unat_of_nat_small) simp
  ultimately have fits: "unat (strtab_len ?h) + length dst + length src + 2 \<le> length (strtab m)"
    using nneed lens by (simp add: word_less_nat_alt)
  note ref = add_bind_mem_refines [OF wt room fits nul]
  have same: "cap (hdr (add_bind_mem m dst src)) = cap ?h" "strtab_off (hdr (add_bind_mem m dst src)) = strtab_off ?h"
    "length (strtab (add_bind_mem m dst src)) = length (strtab m)"
    using fits add_bind_words [OF fits lens(3)] by (simp_all add: add_bind_mem_def Let_def length_poke)
  have "int (length (abs_table m)) = uint (count ?h)" using lens by (simp add: abs_table_def)
  with ref res wf m same oc off sz show ?thesis by (simp add: wf_owner_def)
qed

lemma owner_commit_table:
  "omap ow = Some m \<Longrightarrow> wf_owner ow \<Longrightarrow>
   wf_owner (sp_shadow_owner_commit now ow) \<and>
   (\<exists>m'. omap (sp_shadow_owner_commit now ow) = Some m' \<and> wf_table m' \<and> abs_table m' = abs_table m)"
  by (simp add: sp_shadow_owner_commit_def wf_owner_def wf_table_def abs_table_def)

lemma owner_pulse_wf: "wf_owner ow \<Longrightarrow> wf_owner (sp_shadow_owner_pulse now ow)"
  by (auto simp: sp_shadow_owner_pulse_def wf_owner_def wf_table_def split: option.splits)

lemma entry_ok_state [simp]: "entry_ok n tab (e\<lparr>estate := st\<rparr>) = entry_ok n tab e"
  by (simp add: entry_ok_def abs_entry_def)

lemma owner_mark_state_wf:
  assumes "wf_owner ow"
  shows "wf_owner (sp_shadow_owner_mark_state ow idx st)"
proof (cases "omap ow")
  case (Some m)
  let ?n = "unat (count (hdr m))"
  have wt: "wf_table m" using assms Some by (simp add: wf_owner_def)
  have len: "unat idx < length (entries m)" if "\<not> ucast idx \<ge> ocap ow"
    using that assms Some by (simp add: wf_owner_def wf_table_def word_le_nat_alt unat_ucast_up)
  have "entry_ok k tab x"
    if "x \<in> set (take ?n ((entries m)[unat idx := (entries m ! unat idx)\<lparr>estate := st\<rparr>]))"
      "unat idx < length (entries m)" "\<forall>e \<in> set (take ?n (entries m)). entry_ok k tab e" for k tab x
  proof (cases "unat idx < ?n")
    case True
    then have "take ?n ((entries m)[unat idx := y]) = (take ?n (entries m))[unat idx := y]" for y
      by (simp add: take_update_swap)
    moreover have "entries m ! unat idx \<in> set (take ?n (entries m))"
      using True that(2) by (auto simp: in_set_conv_nth intro!: exI [of _ "unat idx"])
    ultimately show ?thesis using that by (auto dest!: set_update_subset_insert [THEN subsetD])
  next
    case False
    with that show ?thesis by simp
  qed
  with len wt assms Some show ?thesis
    by (auto simp: sp_shadow_owner_mark_state_def wf_owner_def wf_table_def)
qed (use assms in \<open>simp add: sp_shadow_owner_mark_state_def\<close>)

section \<open>Table and bitwise checksum agree\<close>

lemma crc_bit_alt: "crc_bit c = xor (drop_bit 1 c) (if bit c 0 then 0x82F63B78 else 0)"
  by (simp add: crc_bit_def and_one_eq bit_0 xor.commute odd_iff_mod_2_eq_one)

lemma crc_bit_xor: "crc_bit (xor a b) = xor (crc_bit a) (crc_bit b)"
proof -
  let ?p = "\<lambda>c :: u32. if bit c 0 then (0x82F63B78 :: u32) else 0"
  have p: "?p (xor a b) = xor (?p a) (?p b)" by (cases "bit a 0"; cases "bit b 0") (simp_all add: bit_xor_iff)
  have d: "drop_bit 1 (xor a b) = xor (drop_bit 1 a) (drop_bit 1 b)" by (rule drop_bit_xor)
  show ?thesis unfolding crc_bit_alt p d by (simp only: xor.assoc xor.left_commute)
qed

lemma crc_bits_xor: "(crc_bit ^^ n) (xor a b) = xor ((crc_bit ^^ n) a) ((crc_bit ^^ n) b)"
  by (induction n) (simp_all add: crc_bit_xor)

lemma crc_bits_shift: "\<forall>k < n. \<not> bit y k \<Longrightarrow> (crc_bit ^^ n) y = drop_bit n y"
proof (induction n arbitrary: y)
  case (Suc n)
  have "(crc_bit ^^ Suc n) y = (crc_bit ^^ n) (crc_bit y)" by (simp only: funpow_Suc_right o_apply)
  also have "crc_bit y = drop_bit 1 y" using Suc.prems by (simp add: crc_bit_alt)
  also have "(crc_bit ^^ n) (drop_bit 1 y) = drop_bit n (drop_bit 1 y)"
    using Suc.prems by (intro Suc.IH) (auto simp: bit_drop_bit_eq)
  finally show ?case by (simp add: drop_bit_drop_bit)
qed simp

lemma ucast_low_byte: "ucast (ucast (x :: u32) :: u8) = take_bit 8 x"
  by (rule bit_word_eqI) (auto simp: bit_ucast_iff bit_take_bit_iff)

lemma split_low_byte: "xor (take_bit 8 x) (push_bit 8 (drop_bit 8 x)) = (x :: u32)"
  by (rule bit_word_eqI) (auto simp: bit_xor_iff bit_take_bit_iff bit_push_bit_iff bit_drop_bit_eq)

lemma crc_high_bytes: "(crc_bit ^^ 8) (push_bit 8 (drop_bit 8 x)) = drop_bit 8 x"
proof -
  have "(crc_bit ^^ 8) (push_bit 8 (drop_bit 8 x)) = drop_bit 8 (push_bit 8 (drop_bit 8 x))"
    by (rule crc_bits_shift) (simp add: bit_push_bit_iff)
  also have "\<dots> = drop_bit 8 x"
    by (rule bit_word_eqI) (auto simp: bit_drop_bit_eq bit_push_bit_iff dest: bit_imp_le_length)
  finally show ?thesis .
qed

lemma crc_byte: "xor (crc_table (ucast (xor crc (ucast (b :: u8))))) (drop_bit 8 crc) = (crc_bit ^^ 8) (xor crc (ucast b))"
proof -
  let ?x = "xor crc (ucast b) :: u32"
  have "drop_bit 8 (ucast b :: u32) = 0"
    by (rule bit_word_eqI) (auto simp: bit_drop_bit_eq bit_ucast_iff dest: bit_imp_le_length)
  then have hi: "drop_bit 8 ?x = drop_bit 8 crc" by (simp add: drop_bit_xor)
  have "(crc_bit ^^ 8) ?x = xor ((crc_bit ^^ 8) (take_bit 8 ?x)) ((crc_bit ^^ 8) (push_bit 8 (drop_bit 8 ?x)))"
    by (metis crc_bits_xor split_low_byte)
  also have "\<dots> = xor ((crc_bit ^^ 8) (take_bit 8 ?x)) (drop_bit 8 crc)"
    by (simp only: crc_high_bytes hi)
  finally show ?thesis by (simp only: crc_table_def ucast_low_byte)
qed

lemma crc_loop_bitwise: "crc_loop crc bs = foldl (\<lambda>crc b. (crc_bit ^^ 8) (xor crc (ucast b))) crc bs"
  by (induction bs arbitrary: crc) (simp_all only: crc_loop.simps foldl.simps crc_byte)

section \<open>The contract between owner and readers\<close>

text \<open>
  A mount table whose owner publishes binds and whose readers rewrite paths: publishing
  appends, looking up follows the specification while the table is live.
\<close>

locale mount_table =
  fixes ok :: "'t \<Rightarrow> bool"
    and view :: "'t \<Rightarrow> abs_bind list"
    and publish :: "'t \<Rightarrow> cstr \<Rightarrow> cstr \<Rightarrow> 't option"
    and alive :: "'t \<Rightarrow> bool"
    and look :: "'t \<Rightarrow> cstr \<Rightarrow> nat \<Rightarrow> lookup"
  assumes publish_ok: "ok t \<Longrightarrow> NUL \<notin> set dst \<Longrightarrow> length dst + length src + 2 < 2 ^ 32 \<Longrightarrow>
      publish t dst src = Some t' \<Longrightarrow> ok t' \<and> view t' = view t @ [(dst, src, SP_SH_S_VALID)]"
    and look_spec: "ok t \<Longrightarrow> alive t \<Longrightarrow> look t path room =
      (case spec_lookup (view t) path of
         None \<Rightarrow> NoMatch
       | Some (d, src) \<Rightarrow>
           if length src + (length path - length d) + 1 > room then NoMatch
           else Rewritten (src @ drop (length d) path))"
begin

lemma published_visible:
  assumes "ok t" and "NUL \<notin> set dst" and "dst \<noteq> []" and "length dst + length src + 2 < 2 ^ 32"
    and "publish t dst src = Some t'" and "alive t'"
    and "rest = [] \<or> hd rest = slash" and "length src + length rest < room"
    and "\<forall>b \<in> set (view t). covers (dst @ rest) b \<longrightarrow> length (fst b) \<le> length dst"
  shows "look t' (dst @ rest) room = Rewritten (src @ rest)"
proof -
  have t': "ok t'" "view t' = view t @ [(dst, src, SP_SH_S_VALID)]" using publish_ok assms by blast+
  have cov: "covers (dst @ rest) (dst, src, SP_SH_S_VALID)" using assms by (simp add: covers_def)
  have "case spec_lookup (view t) (dst @ rest) of None \<Rightarrow> True | Some (d, _) \<Rightarrow> length d \<le> length dst"
    using spec_lookup_longest [of "view t" "dst @ rest"] assms(9) by (fastforce split: option.splits)
  with cov have "spec_lookup (view t') (dst @ rest) = Some (dst, src)"
    by (auto simp: t' spec_lookup_snoc pick_def split: option.splits)
  with look_spec [OF t'(1) assms(6), of "dst @ rest" room] assms(8) show ?thesis by simp
qed

lemma published_elsewhere:
  assumes "ok t" and "NUL \<notin> set dst" and "length dst + length src + 2 < 2 ^ 32"
    and "publish t dst src = Some t'" and "alive t" and "alive t'" and "\<not> path_within dst path"
  shows "look t' path room = look t path room"
proof -
  have t': "ok t'" "view t' = view t @ [(dst, src, SP_SH_S_VALID)]" using publish_ok assms by blast+
  have "spec_lookup (view t') path = spec_lookup (view t) path"
    using assms(7) by (simp add: t' spec_lookup_snoc pick_def covers_def)
  then show ?thesis using look_spec [OF t'(1) assms(6)] look_spec [OF assms(1,5)] by simp
qed

end

text \<open>The owner adds the bind and commits; readers map the same region.\<close>

definition owner_publish :: "u64 \<Rightarrow> sp_shadow_owner \<Rightarrow> cstr \<Rightarrow> cstr \<Rightarrow> sp_shadow_owner option" where
  "owner_publish now ow dst src =
     (case sp_shadow_owner_add_bind ow dst src of
        (ow', idx) \<Rightarrow> if idx < 0 then None else Some (sp_shadow_owner_commit now ow'))"

definition owner_region :: "sp_shadow_owner \<Rightarrow> shadow_mem" where
  "owner_region ow = the (omap ow)"

interpretation shadow: mount_table
  "\<lambda>ow. wf_owner ow \<and> omap ow \<noteq> None" "\<lambda>ow. abs_table (owner_region ow)" "owner_publish now"
  "\<lambda>ow. sp_shadow_live now' (owner_region ow) (owner_region ow)"
  "\<lambda>ow. sp_shadow_lookup_bind now' (owner_region ow) (owner_region ow) (owner_region ow) (owner_region ow)"
  for now now'
proof
  fix t t' dst src
  assume ok: "wf_owner t \<and> omap t \<noteq> None" and nul: "NUL \<notin> set dst" and len: "length dst + length src + 2 < 2 ^ 32"
    and pub: "owner_publish now t dst src = Some t'"
  obtain m where m: "omap t = Some m" using ok by auto
  obtain ow' idx where a: "sp_shadow_owner_add_bind t dst src = (ow', idx)"
    by (cases "sp_shadow_owner_add_bind t dst src")
  with pub have idx: "idx \<ge> 0" and t': "t' = sp_shadow_owner_commit now ow'"
    by (auto simp: owner_publish_def split: if_splits)
  have add: "wf_owner ow'" "omap ow' = Some (add_bind_mem m dst src)"
    "abs_table (add_bind_mem m dst src) = abs_table m @ [(dst, src, SP_SH_S_VALID)]"
    using owner_add_bind_refines [OF _ m nul len a idx] ok by auto
  with owner_commit_table [OF add(2,1), of now]
  show "(wf_owner t' \<and> omap t' \<noteq> None) \<and>
      abs_table (owner_region t') = abs_table (owner_region t) @ [(dst, src, SP_SH_S_VALID)]"
    by (auto simp: t' owner_region_def m)
next
  fix t path room
  assume "wf_owner t \<and> omap t \<noteq> None" and "sp_shadow_live now' (owner_region t) (owner_region t)"
  then show "sp_shadow_lookup_bind now' (owner_region t) (owner_region t) (owner_region t) (owner_region t) path room =
      (case spec_lookup (abs_table (owner_region t)) path of
         None \<Rightarrow> NoMatch
       | Some (d, src) \<Rightarrow>
           if length src + (length path - length d) + 1 > room then NoMatch
           else Rewritten (src @ drop (length d) path))"
    by (intro lookup_bind_refines) (auto simp: wf_owner_def owner_region_def)
qed

section \<open>Life of the owner\<close>

inductive owner_reach :: "sp_shadow_owner \<Rightarrow> bool" where
  init: "owner_reach (fst (sp_shadow_owner_init memfd mapped cap_entries))"
| add: "owner_reach ow \<Longrightarrow> NUL \<notin> set dst \<Longrightarrow> length dst + length src + 2 < 2 ^ 32 \<Longrightarrow>
    owner_reach (fst (sp_shadow_owner_add_bind ow dst src))"
| mark: "owner_reach ow \<Longrightarrow> owner_reach (sp_shadow_owner_mark_state ow idx st)"
| commit: "owner_reach ow \<Longrightarrow> owner_reach (sp_shadow_owner_commit now ow)"
| pulse: "owner_reach ow \<Longrightarrow> owner_reach (sp_shadow_owner_pulse now ow)"
| close: "owner_reach ow \<Longrightarrow> owner_reach (sp_shadow_owner_close ow)"

lemma owner_add_bind_fails: "snd (sp_shadow_owner_add_bind ow dst src) < 0 \<Longrightarrow> fst (sp_shadow_owner_add_bind ow dst src) = ow"
  by (auto simp: sp_shadow_owner_add_bind_def Let_def split: option.splits if_splits)

lemma owner_add_bind_wf:
  assumes "wf_owner ow" and "NUL \<notin> set dst" and "length dst + length src + 2 < 2 ^ 32"
  shows "wf_owner (fst (sp_shadow_owner_add_bind ow dst src))"
proof (cases "snd (sp_shadow_owner_add_bind ow dst src) < 0")
  case True
  then show ?thesis using assms by (simp add: owner_add_bind_fails)
next
  case False
  then obtain m where "omap ow = Some m" by (auto simp: sp_shadow_owner_add_bind_def split: option.splits)
  with False assms owner_add_bind_refines [of ow m dst src] show ?thesis
    by (cases "sp_shadow_owner_add_bind ow dst src") auto
qed

lemma owner_close_wf: "wf_owner (sp_shadow_owner_close ow)"
  by (simp add: sp_shadow_owner_close_def zero_owner_def wf_owner_def)

lemma owner_reach_wf: "owner_reach ow \<Longrightarrow> wf_owner ow"
proof (induction rule: owner_reach.induct)
  case (commit ow now)
  then show ?case using owner_commit_table [of ow _ now]
    by (cases "omap ow") (auto simp: sp_shadow_owner_commit_def)
qed (blast intro: owner_init_wf owner_add_bind_wf owner_mark_state_wf owner_pulse_wf owner_close_wf)+

text \<open>A table with one bind, for the witnesses.\<close>

definition demo_owner :: sp_shadow_owner where
  "demo_owner = fst (sp_shadow_owner_init 5 True 4)"

definition demo_published :: sp_shadow_owner where
  "demo_published = sp_shadow_owner_commit 7 (fst (sp_shadow_owner_add_bind demo_owner ''/mnt'' ''/src''))"

lemmas layout_defs = SP_SHADOW_HDR_SIZE_def SP_SHADOW_ENTRY_SIZE_def owner_mapsz_def

lemma demo_add: "snd (sp_shadow_owner_add_bind demo_owner ''/mnt'' ''/src'') = 0"
  by (simp add: demo_owner_def sp_shadow_owner_init_def sp_shadow_owner_add_bind_def Let_def layout_defs)

lemma demo_publish: "owner_publish 7 demo_owner ''/mnt'' ''/src'' = Some demo_published"
  using demo_add by (cases "sp_shadow_owner_add_bind demo_owner ''/mnt'' ''/src''")
    (simp add: owner_publish_def demo_published_def)

lemma demo_wf: "wf_owner demo_owner \<and> omap demo_owner \<noteq> None" "abs_table (owner_region demo_owner) = []"
proof -
  show "wf_owner demo_owner \<and> omap demo_owner \<noteq> None"
    using owner_init_wf [of 5 True 4]
    by (simp add: demo_owner_def) (simp add: sp_shadow_owner_init_def Let_def)
  show "abs_table (owner_region demo_owner) = []"
    by (simp add: demo_owner_def sp_shadow_owner_init_def Let_def owner_region_def abs_table_def)
qed

lemma demo_table: "wf_owner demo_published \<and> omap demo_published \<noteq> None"
  "abs_table (owner_region demo_published) = [(''/mnt'', ''/src'', SP_SH_S_VALID)]"
  using shadow.publish_ok [OF demo_wf(1) _ _ demo_publish] demo_wf(2) by simp_all

lemma demo_live: "sp_shadow_live 9 (owner_region demo_published) (owner_region demo_published)"
  by (simp add: demo_published_def demo_owner_def sp_shadow_owner_init_def sp_shadow_owner_add_bind_def
      sp_shadow_owner_commit_def add_bind_mem_def sp_shadow_live_def owner_region_def Let_def layout_defs
      SP_SHADOW_STALE_NS_def)

section \<open>Properties\<close>

text \<open>
  C7: whatever the owner did since it created the table, a reader that finds it live never
  reads outside it: the lookup gives a rewritten path or no match, and the rewritten path is
  the one of the longest valid bind that covers the path, the most recently added on a tie.
\<close>

theorem shadow_lookup_sound:
  assumes "owner_reach ow" and "omap ow = Some m" and "sp_shadow_live now m m"
  shows "sp_shadow_lookup_bind now m m m m path room =
     (case spec_lookup (abs_table m) path of
        None \<Rightarrow> NoMatch
      | Some (d, src) \<Rightarrow>
          if length src + (length path - length d) + 1 > room then NoMatch
          else Rewritten (src @ drop (length d) path))"
  using owner_reach_wf [OF assms(1)] assms(2,3) by (intro lookup_bind_refines) (simp_all add: wf_owner_def)

theorem shadow_lookup_sound_witness:
  "sp_shadow_lookup_bind 9 (owner_region demo_published) (owner_region demo_published)
     (owner_region demo_published) (owner_region demo_published) ''/mnt/x'' 64 = Rewritten ''/src/x''"
proof -
  have r: "owner_reach demo_published"
    unfolding demo_published_def demo_owner_def by (intro owner_reach.intros) simp_all
  have m: "omap demo_published = Some (owner_region demo_published)"
    using demo_table(1) by (auto simp: owner_region_def)
  have s: "spec_lookup [(''/mnt'', ''/src'', SP_SH_S_VALID)] ''/mnt/x'' = Some (''/mnt'', ''/src'')"
    by code_simp
  show ?thesis
    using shadow_lookup_sound [OF r m demo_live, of "''/mnt/x''" 64] by (simp add: demo_table(2) s)
qed

text \<open>
  C14: a bind that the owner adds and commits is seen by every reader that finds the table
  live: a path at or below the destination is rewritten to the source with the same rest,
  unless a longer destination covers it.
\<close>

theorem shadow_publish_visible:
  assumes "wf_owner ow \<and> omap ow \<noteq> None" and "NUL \<notin> set dst" and "dst \<noteq> []"
    and "length dst + length src + 2 < 2 ^ 32"
    and "owner_publish now ow dst src = Some ow'"
    and "sp_shadow_live now' (owner_region ow') (owner_region ow')"
    and "rest = [] \<or> hd rest = slash" and "length src + length rest < room"
    and "\<forall>b \<in> set (abs_table (owner_region ow)). covers (dst @ rest) b \<longrightarrow> length (fst b) \<le> length dst"
  shows "sp_shadow_lookup_bind now' (owner_region ow') (owner_region ow') (owner_region ow') (owner_region ow')
           (dst @ rest) room = Rewritten (src @ rest)"
  by (rule shadow.published_visible [OF assms])

theorem shadow_publish_visible_witness:
  "sp_shadow_lookup_bind 9 (owner_region demo_published) (owner_region demo_published)
     (owner_region demo_published) (owner_region demo_published) (''/mnt'' @ ''/a/b'') 64 = Rewritten (''/src'' @ ''/a/b'')"
  using demo_wf demo_live by (intro shadow_publish_visible [OF _ _ _ _ demo_publish]) simp_all

text \<open>The table-driven CRC-32C equals the bitwise one on every input.\<close>

lemma crc32c_table_correct: "crc32c bs = crc32c_bitwise bs"
  by (simp add: crc32c_def crc32c_bitwise_def crc_loop_bitwise)

section \<open>Observations\<close>

text \<open>
  A descriptor number that \<^verbatim>\<open>strtol\<close> consumes entirely, the only well-formed value of
  \<^verbatim>\<open>SPROUT_SHADOW_FD\<close>, is never attached.
\<close>

lemma shadow_fd_never_attached:
  "getenv env ''SPROUT_SHADOW_FILE'' = None \<Longrightarrow> getenv env ''SPROUT_SHADOW_FD'' = Some v \<Longrightarrow>
   strtol v = (fd, []) \<Longrightarrow> sp_shadow_init_once env open_ro strtol att = None"
  by (simp add: sp_shadow_init_once_def)

text \<open>Adding a bind leaves the generation as it is, so it is visible before the commit.\<close>

lemma add_bind_keeps_gen: "gen (hdr (add_bind_mem m dst src)) = gen (hdr m)"
  by (simp add: add_bind_mem_def Let_def)

text \<open>An owner may create 4096 entries, but readers refuse such a table.\<close>

lemma large_table_refused:
  "sp_shadow_attach False (\<lambda>fd. omap (fst (sp_shadow_owner_init 5 True 4096))) fd = Refused"
  by (simp add: sp_shadow_attach_def sp_shadow_owner_init_def Let_def attach_end_def attach_mapsz_def
      SP_SHADOW_HDR_SIZE_def SP_SHADOW_ENTRY_SIZE_def SP_SHADOW_MAGIC_def shadow_corrupt_def)

text \<open>The 64-bit end of the table wraps: a string table length near the top passes the test.\<close>

lemma attach_end_wraps:
  "attach_end \<lparr>magic = SP_SHADOW_MAGIC, gen = 2, heartbeat_ns = 0, hdr_crc32 = 0, count = 1, cap = 1,
     strtab_off = 84, strtab_len = - 84\<rparr> \<le> attach_mapsz"
  by (simp add: attach_end_def SP_SHADOW_HDR_SIZE_def SP_SHADOW_ENTRY_SIZE_def attach_mapsz_def)

end
