(* ===== verification/Sprout_Caches.thy ===== *)
theory Sprout_Caches
  imports Sprout_Config
begin

text \<open>
  The process-lifetime caches of \<^verbatim>\<open>sprout_preload.c\<close>: the translate cache (\<^verbatim>\<open>sp_xcache\<close>), the
  exec-name cache (\<^verbatim>\<open>sp_ecache\<close>) and the environment snapshot of the constructor. Both
  caches are open-addressing tables with a bounded probe sequence and no deletion besides
  the full clear; they share the contract \<open>memo\<close>: a lookup never returns anything but
  the value last stored under that key.
\<close>

section \<open>Hashes\<close>

definition byte :: "char \<Rightarrow> u64" where
  "byte c = of_char c"

fun xhash_loop :: "u64 \<Rightarrow> cstr \<Rightarrow> u64" where
  "xhash_loop h [] = h"
| "xhash_loop h (c # s) = xhash_loop (h * 33 + byte c) s"

definition sp_xhash :: "cstr \<Rightarrow> u64" where
  "sp_xhash s = xhash_loop 5381 s"

fun pathver_loop :: "u64 \<Rightarrow> cstr \<Rightarrow> u64" where
  "pathver_loop h [] = h"
| "pathver_loop h (c # s) = pathver_loop (xor h (byte c) * 1099511628211) s"

definition sp_pathver :: "cstr \<Rightarrow> u64" where
  "sp_pathver p = pathver_loop 146959810393466560 p"

section \<open>Probe sequences\<close>

text \<open>
  The loop \<^verbatim>\<open>for (hop = 0; hop < n; hop++)\<close> over the slots \<^verbatim>\<open>(i + hop) % CAP\<close>; an unused
  slot is \<open>None\<close>.
\<close>

fun probe_get :: "'e option list \<Rightarrow> nat \<Rightarrow> nat \<Rightarrow> ('e \<Rightarrow> bool) \<Rightarrow> 'e option" where
  "probe_get tab i 0 hit = None"
| "probe_get tab i (Suc n) hit =
     (case tab ! (i mod length tab) of
        None \<Rightarrow> None
      | Some e \<Rightarrow> if hit e then Some e else probe_get tab (Suc i) n hit)"

fun probe_put :: "'e option list \<Rightarrow> nat \<Rightarrow> nat \<Rightarrow> ('e \<Rightarrow> bool) \<Rightarrow> 'e \<Rightarrow> 'e option list" where
  "probe_put tab i 0 hit e = tab"
| "probe_put tab i (Suc n) hit e =
     (case tab ! (i mod length tab) of
        None \<Rightarrow> tab[i mod length tab := Some e]
      | Some e' \<Rightarrow> if hit e' then tab[i mod length tab := Some e] else probe_put tab (Suc i) n hit e)"

section \<open>Translate cache\<close>

definition SP_XCACHE_CAP :: nat where
  "SP_XCACHE_CAP = 128"

record sp_xentry =
  xe_g :: cstr
  xe_h :: cstr

type_synonym xcache = "sp_xentry option list"

definition xslot :: "cstr \<Rightarrow> nat" where
  "xslot g = unat (sp_xhash g mod 128)"

definition sp_xcache_get :: "xcache \<Rightarrow> cstr \<Rightarrow> cptr" where
  "sp_xcache_get c g = map_option xe_h (probe_get c (xslot g) 8 (\<lambda>e. xe_g e = g))"

text \<open>\<^verbatim>\<open>strncpy(dst, s, cap - 1); dst[cap - 1] = 0\<close>.\<close>

definition strncpy_z :: "nat \<Rightarrow> cstr \<Rightarrow> cstr" where
  "strncpy_z n s = take (n - 1) s"

definition sp_xcache_put :: "xcache \<Rightarrow> cstr \<Rightarrow> cstr \<Rightarrow> xcache" where
  "sp_xcache_put c g h =
     probe_put c (xslot g) 8 (\<lambda>e. xe_g e = g) \<lparr>xe_g = strncpy_z SP_PATH_MAX g, xe_h = strncpy_z SP_PATH_MAX h\<rparr>"

definition sp_xcache_clear :: "xcache \<Rightarrow> xcache" where
  "sp_xcache_clear c = replicate SP_XCACHE_CAP None"

section \<open>Exec-name cache\<close>

definition SP_ECACHE_CAP :: nat where
  "SP_ECACHE_CAP = 64"

record sp_ecentry =
  ec_name :: cstr
  ec_cand :: cstr
  ec_pk :: u64

type_synonym ecache = "sp_ecentry option list"

definition eslot :: "cstr \<Rightarrow> nat" where
  "eslot nm = unat (sp_xhash nm mod 64)"

definition sp_ecache_get :: "ecache \<Rightarrow> cstr \<Rightarrow> u64 \<Rightarrow> cptr" where
  "sp_ecache_get c nm pk = map_option ec_cand (probe_get c (eslot nm) 6 (\<lambda>e. ec_pk e = pk \<and> ec_name e = nm))"

definition sp_ecache_put :: "ecache \<Rightarrow> cstr \<Rightarrow> u64 \<Rightarrow> cstr \<Rightarrow> ecache" where
  "sp_ecache_put c nm pk cand =
     probe_put c (eslot nm) 6 (\<lambda>e. ec_pk e = pk \<and> ec_name e = nm)
       \<lparr>ec_name = strncpy_z 96 nm, ec_cand = strncpy_z SP_PATH_MAX cand, ec_pk = pk\<rparr>"

definition sp_exec_caches_clear :: "xcache \<times> ecache \<Rightarrow> xcache \<times> ecache" where
  "sp_exec_caches_clear c = (sp_xcache_clear (fst c), replicate SP_ECACHE_CAP None)"

section \<open>Environment snapshot\<close>

definition SP_SNAP_MAX_ROWS :: nat where
  "SP_SNAP_MAX_ROWS = 160"

definition SP_SNAP_ROW_CAP :: nat where
  "SP_SNAP_ROW_CAP = SP_PATH_MAX + 2"

fun snapshot_loop :: "cstr list \<Rightarrow> env \<Rightarrow> cstr list" where
  "snapshot_loop rows [] = rows"
| "snapshot_loop rows (row # rest) =
     (if \<not> length rows < SP_SNAP_MAX_ROWS then rows
      else if \<not> starts_with ''SPROUT_'' row \<and> \<not> starts_with ''LD_'' row then snapshot_loop rows rest
      else if length row \<ge> SP_SNAP_ROW_CAP then snapshot_loop rows rest
      else snapshot_loop (rows @ [row]) rest)"

definition sp_snapshot_chain_env :: "env \<Rightarrow> cstr list" where
  "sp_snapshot_chain_env env = snapshot_loop [] env"

fun sp_snap_get :: "cstr list \<Rightarrow> cstr \<Rightarrow> cptr" where
  "sp_snap_get [] key = None"
| "sp_snap_get (r # rs) key = (if row_of_key key r then Some (drop (Suc (length key)) r) else sp_snap_get rs key)"

definition env_or_snap :: "env \<Rightarrow> cstr list \<Rightarrow> cstr \<Rightarrow> cptr" where
  "env_or_snap env snap key = nonempty_or (getenv env key) (sp_snap_get snap key)"

definition sp_loader_path :: "env \<Rightarrow> cstr list \<Rightarrow> cptr" where
  "sp_loader_path env snap = env_or_snap env snap ''SPROUT_LOADER''"

definition sp_preload_path :: "env \<Rightarrow> cstr list \<Rightarrow> cptr" where
  "sp_preload_path env snap = env_or_snap env snap ''SPROUT_PRELOAD_PATH''"

definition sp_library_path_v :: "env \<Rightarrow> cstr list \<Rightarrow> cptr" where
  "sp_library_path_v env snap = env_or_snap env snap ''SPROUT_LIBRARY_PATH''"

definition sp_libc_kind :: "env \<Rightarrow> cstr list \<Rightarrow> cptr" where
  "sp_libc_kind env snap = env_or_snap env snap ''SPROUT_LIBC''"

section \<open>The contract of a cache\<close>

text \<open>
  \<open>fits k v\<close>: key and value are stored without truncation. The laws are what a client may
  rely on: an empty cache misses, a store changes nothing for other keys but may be
  dropped, and the value found under the stored key is the new one or none.
\<close>

locale memo =
  fixes ok :: "'c \<Rightarrow> bool"
    and empty :: 'c
    and get :: "'c \<Rightarrow> 'k \<Rightarrow> 'v option"
    and put :: "'c \<Rightarrow> 'k \<Rightarrow> 'v \<Rightarrow> 'c"
    and fits :: "'k \<Rightarrow> 'v \<Rightarrow> bool"
  assumes ok_empty: "ok empty"
    and get_empty: "get empty k = None"
    and ok_put: "ok c \<Longrightarrow> fits k v \<Longrightarrow> ok (put c k v)"
    and get_put_other: "ok c \<Longrightarrow> fits k v \<Longrightarrow> k' \<noteq> k \<Longrightarrow> get (put c k v) k' = get c k'"
    and get_put_same: "ok c \<Longrightarrow> fits k v \<Longrightarrow> get (put c k v) k = Some w \<Longrightarrow> w = v"
begin

text \<open>A cache is sound for a function when every hit is its value.\<close>

definition sound :: "('k \<Rightarrow> 'v option) \<Rightarrow> 'c \<Rightarrow> bool" where
  "sound f c \<longleftrightarrow> ok c \<and> (\<forall>k v. get c k = Some v \<longrightarrow> f k = Some v)"

lemma sound_empty: "sound f empty"
  by (simp add: sound_def ok_empty get_empty)

lemma sound_hit: "sound f c \<Longrightarrow> get c k = Some v \<Longrightarrow> f k = Some v"
  by (simp add: sound_def)

lemma sound_put: "sound f c \<Longrightarrow> fits k v \<Longrightarrow> f k = Some v \<Longrightarrow> sound f (put c k v)"
  unfolding sound_def using get_put_other get_put_same ok_put by metis

text \<open>Any sequence of stores of correct values keeps a cache sound.\<close>

lemma sound_puts:
  "\<forall>(k, v) \<in> set kvs. fits k v \<and> f k = Some v \<Longrightarrow> sound f c \<Longrightarrow> sound f (foldl (\<lambda>c (k, v). put c k v) c kvs)"
  by (induction kvs arbitrary: c) (auto simp: sound_put)

end

section \<open>Probe sequences keep the contract\<close>

text \<open>
  The invariant: every slot between the home of an entry and the entry itself is in use;
  \<open>key\<close> is the key of an entry and \<open>home\<close> its home slot.
\<close>

definition passes :: "'e option list \<Rightarrow> nat \<Rightarrow> nat \<Rightarrow> ('e \<Rightarrow> bool) \<Rightarrow> bool" where
  "passes tab i d skip \<longleftrightarrow> (\<forall>j < d. \<exists>x. tab ! ((i + j) mod length tab) = Some x \<and> skip x)"

definition probe_ok :: "nat \<Rightarrow> ('e \<Rightarrow> 'k) \<Rightarrow> ('k \<Rightarrow> nat) \<Rightarrow> 'e option list \<Rightarrow> bool" where
  "probe_ok c key home tab \<longleftrightarrow>
     0 < c \<and> length tab = c \<and>
     (\<forall>p < c. \<forall>e. tab ! p = Some e \<longrightarrow>
        (\<exists>d < c. (home (key e) + d) mod c = p \<and> passes tab (home (key e)) d (\<lambda>_. True)))"

lemma passes_Suc:
  "passes tab i (Suc d) skip \<longleftrightarrow>
     (\<exists>x. tab ! (i mod length tab) = Some x \<and> skip x) \<and> passes tab (Suc i) d skip"
  unfolding passes_def by (auto simp: less_Suc_eq_0_disj)

lemma ex_less_Suc_split: "(\<exists>d < Suc n. P d) \<longleftrightarrow> P 0 \<or> (\<exists>d < n. P (Suc d))"
  by (auto simp: less_Suc_eq_0_disj)

lemma probe_get_Some_iff:
  "probe_get tab i n hit = Some e \<longleftrightarrow>
     (\<exists>d < n. passes tab i d (\<lambda>x. \<not> hit x) \<and> tab ! ((i + d) mod length tab) = Some e \<and> hit e)"
proof (induction n arbitrary: i)
  case (Suc n)
  have "(\<exists>d < Suc n. passes tab i d (\<lambda>x. \<not> hit x) \<and> tab ! ((i + d) mod length tab) = Some e \<and> hit e) \<longleftrightarrow>
      (tab ! (i mod length tab) = Some e \<and> hit e) \<or>
      (\<exists>d < n. passes tab i (Suc d) (\<lambda>x. \<not> hit x) \<and> tab ! ((Suc i + d) mod length tab) = Some e \<and> hit e)"
    unfolding ex_less_Suc_split by (simp add: passes_def)
  then show ?case
    using Suc by (auto simp: passes_Suc split: option.splits)
qed simp

lemma probe_put_cases:
  obtains (stored) d where "d < n" "passes tab i d (\<lambda>x. \<not> hit x)"
      "case tab ! ((i + d) mod length tab) of None \<Rightarrow> True | Some x \<Rightarrow> hit x"
      "probe_put tab i n hit e = tab[(i + d) mod length tab := Some e]"
  | (dropped) "passes tab i n (\<lambda>x. \<not> hit x)" "probe_put tab i n hit e = tab"
proof (induction n arbitrary: i thesis)
  case 0
  then show ?case by (simp add: passes_def)
next
  case (Suc n)
  show ?case
  proof (cases "\<exists>x. tab ! (i mod length tab) = Some x \<and> \<not> hit x")
    case True
    then have step: "probe_put tab i (Suc n) hit e = probe_put tab (Suc i) n hit e" by auto
    show ?thesis
    proof (rule Suc.IH [of "Suc i"])
      fix d assume "d < n" "passes tab (Suc i) d (\<lambda>x. \<not> hit x)"
        "case tab ! ((Suc i + d) mod length tab) of None \<Rightarrow> True | Some x \<Rightarrow> hit x"
        "probe_put tab (Suc i) n hit e = tab[(Suc i + d) mod length tab := Some e]"
      with True step show thesis by (intro Suc.prems(1) [of "Suc d"]) (simp_all add: passes_Suc)
    next
      assume "passes tab (Suc i) n (\<lambda>x. \<not> hit x)" "probe_put tab (Suc i) n hit e = tab"
      with True step show thesis by (intro Suc.prems(2)) (simp_all add: passes_Suc)
    qed
  next
    case False
    then show ?thesis
      by (intro Suc.prems(1) [of 0]) (auto simp: passes_def split: option.splits)
  qed
qed

lemma offset_unique:
  assumes "(h + d) mod c = (h + d') mod (c :: nat)" and "d < c" and "d' < c"
  shows "d = d'"
proof -
  have "a = b" if "a \<le> b" "b < c" "(h + a) mod c = (h + b) mod c" for a b
  proof -
    have "c dvd (h + b) - (h + a)" using that mod_eq_dvd_iff_nat [of "h + a" "h + b" c] by simp
    with that show ?thesis by (auto dest: dvd_imp_le)
  qed
  with assms show ?thesis by (metis nle_le)
qed

lemma passes_update:
  "passes tab i d skip \<Longrightarrow> skip e \<Longrightarrow> p < length tab \<Longrightarrow> passes (tab[p := Some e]) i d skip"
  by (auto simp: passes_def nth_list_update)

lemma probe_ok_put:
  assumes ok: "probe_ok c key home tab" and k: "key e = k"
  shows "probe_ok c key home (probe_put tab (home k) n (\<lambda>x. key x = k) e)"
proof (cases rule: probe_put_cases [of n tab "home k" "\<lambda>x. key x = k" e])
  case (stored d)
  have c: "0 < c" "length tab = c" using ok by (auto simp: probe_ok_def)
  let ?p = "(home k + d) mod c"
  have tab': "probe_put tab (home k) n (\<lambda>x. key x = k) e = tab[?p := Some e]" using stored(4) c by simp
  have "\<exists>d' < c. (home (key x) + d') mod c = q \<and> passes (tab[?p := Some e]) (home (key x)) d' (\<lambda>_. True)"
    if q: "q < c" "tab[?p := Some e] ! q = Some x" for q x
  proof (cases "q = ?p")
    case True
    then have x: "x = e" using q c by simp
    have "passes tab (home k) (d mod c) (\<lambda>_. True)"
      using stored(2) by (auto simp: passes_def intro: order.strict_trans2 [OF _ mod_less_eq_dividend])
    then show ?thesis
      using c True x k by (intro exI [of _ "d mod c"]) (simp add: mod_add_right_eq passes_update)
  next
    case False
    then have "tab ! q = Some x" using q by simp
    with ok q obtain d' where "d' < c" "(home (key x) + d') mod c = q" "passes tab (home (key x)) d' (\<lambda>_. True)"
      by (auto simp: probe_ok_def)
    then show ?thesis using c by (intro exI [of _ d']) (simp add: passes_update)
  qed
  with c show ?thesis by (simp add: tab' probe_ok_def)
qed (use ok in simp)

lemma probe_get_put_same:
  assumes "key e = k" and "0 < length tab"
    and "probe_get (probe_put tab i n (\<lambda>x. key x = k) e) i n (\<lambda>x. key x = k) = Some x"
  shows "x = e"
proof (cases rule: probe_put_cases [of n tab i "\<lambda>x. key x = k" e])
  case (stored d)
  let ?p = "(i + d) mod length tab" and ?t = "tab[(i + d) mod length tab := Some e]"
  from assms(3) stored(4) obtain d' where d': "d' < n" "passes ?t i d' (\<lambda>x. key x \<noteq> k)"
    "?t ! ((i + d') mod length tab) = Some x" "key x = k"
    by (auto simp: probe_get_Some_iff)
  show ?thesis
  proof (cases "d' < d")
    case True
    then obtain y where "tab ! ((i + d') mod length tab) = Some y" "key y \<noteq> k"
      using stored(2) by (auto simp: passes_def)
    with d' assms(2) show ?thesis by (cases "(i + d') mod length tab = ?p") (auto simp: nth_list_update)
  next
    case False
    have "\<not> d < d'"
    proof
      assume "d < d'"
      then obtain y where "?t ! ?p = Some y" "key y \<noteq> k" using d'(2) by (auto simp: passes_def)
      then show False using assms by (simp add: mod_less_divisor)
    qed
    with False have "d' = d" by simp
    with d' assms(2) show ?thesis by simp
  qed
next
  case dropped
  with assms show ?thesis by (auto simp: probe_get_Some_iff passes_def)
qed

lemma probe_get_put_other:
  assumes ok: "probe_ok c key home tab" and k: "key e = k" and ne: "k' \<noteq> k" and n: "n' \<le> c"
  shows "probe_get (probe_put tab (home k) n (\<lambda>x. key x = k) e) (home k') n' (\<lambda>x. key x = k') =
         probe_get tab (home k') n' (\<lambda>x. key x = k')"
proof (cases rule: probe_put_cases [of n tab "home k" "\<lambda>x. key x = k" e])
  case (stored d)
  have c: "0 < c" "length tab = c" using ok by (auto simp: probe_ok_def)
  let ?p = "(home k + d) mod c" and ?t = "tab[(home k + d) mod c := Some e]"
  have tab': "probe_put tab (home k) n (\<lambda>x. key x = k) e = ?t" using stored(4) c by simp
  have p: "?p < length tab" using c by simp
  have old: "tab ! ?p = None \<or> (\<exists>x. tab ! ?p = Some x \<and> key x = k)"
    using stored(3) c by (auto split: option.splits)
  have "probe_get ?t (home k') n' (\<lambda>x. key x = k') = Some x \<longleftrightarrow>
        probe_get tab (home k') n' (\<lambda>x. key x = k') = Some x" for x
  proof
    assume "probe_get tab (home k') n' (\<lambda>x. key x = k') = Some x"
    then obtain d' where d': "d' < n'" "passes tab (home k') d' (\<lambda>x. key x \<noteq> k')"
      "tab ! ((home k' + d') mod c) = Some x" "key x = k'"
      using c by (auto simp: probe_get_Some_iff)
    have "(home k' + d') mod c \<noteq> ?p" using old d' ne by auto
    with d' k ne p c show "probe_get ?t (home k') n' (\<lambda>x. key x = k') = Some x"
      by (auto simp: probe_get_Some_iff intro!: exI [of _ d'] passes_update)
  next
    assume "probe_get ?t (home k') n' (\<lambda>x. key x = k') = Some x"
    then obtain d' where d': "d' < n'" "passes ?t (home k') d' (\<lambda>x. key x \<noteq> k')"
      "?t ! ((home k' + d') mod c) = Some x" "key x = k'"
      using c by (auto simp: probe_get_Some_iff)
    have q: "(home k' + d') mod c \<noteq> ?p" using d' k ne p by auto
    then have x: "tab ! ((home k' + d') mod c) = Some x" using d' by simp
    obtain d2 where d2: "d2 < c" "(home k' + d2) mod c = (home k' + d') mod c" "passes tab (home k') d2 (\<lambda>_. True)"
      using ok x c d'(4) unfolding probe_ok_def by (metis mod_less_divisor)
    have "d2 = d'" using offset_unique [OF d2(2,1)] d'(1) n by simp
    with d2(3) have used: "passes tab (home k') d' (\<lambda>_. True)" by simp
    have "passes tab (home k') d' (\<lambda>x. key x \<noteq> k')"
      unfolding passes_def
    proof (intro allI impI)
      fix j assume j: "j < d'"
      let ?q = "(home k' + j) mod length tab"
      obtain y where y: "tab ! ?q = Some y" using used j by (auto simp: passes_def)
      obtain z where z: "?t ! ?q = Some z" "key z \<noteq> k'" using d'(2) j c by (auto simp: passes_def)
      show "\<exists>x. tab ! ?q = Some x \<and> key x \<noteq> k'"
      proof (cases "?q = ?p")
        case True
        then show ?thesis using y old ne by auto
      next
        case False
        then show ?thesis using z by simp
      qed
    qed
    with d' x c show "probe_get tab (home k') n' (\<lambda>x. key x = k') = Some x"
      by (auto simp: probe_get_Some_iff)
  qed
  then show ?thesis unfolding tab' by (metis not_Some_eq)
qed simp

lemma strncpy_z_fits: "length s < n \<Longrightarrow> strncpy_z n s = s"
  by (simp add: strncpy_z_def)

lemma probe_ok_empty: "0 < c \<Longrightarrow> probe_ok c key home (replicate c None)"
  by (simp add: probe_ok_def)

lemma probe_get_empty: "probe_get (replicate c None) i n hit = None" if "0 < c"
  using that by (cases n) simp_all

section \<open>Both caches are memos\<close>

text \<open>An exec-name entry is found under its name and the fingerprint of \<^verbatim>\<open>PATH\<close>.\<close>

definition ec_key :: "sp_ecentry \<Rightarrow> cstr \<times> u64" where
  "ec_key e = (ec_name e, ec_pk e)"

lemma ec_key_hit: "(\<lambda>e. ec_pk e = pk \<and> ec_name e = nm) = (\<lambda>e. ec_key e = (nm, pk))"
  by (auto simp: ec_key_def)

interpretation xc: memo
  "probe_ok SP_XCACHE_CAP xe_g xslot" "replicate SP_XCACHE_CAP None" sp_xcache_get sp_xcache_put
  "\<lambda>g h. length g < SP_PATH_MAX \<and> length h < SP_PATH_MAX"
proof
  show "probe_ok SP_XCACHE_CAP xe_g xslot (replicate SP_XCACHE_CAP None)"
    by (simp add: probe_ok_empty SP_XCACHE_CAP_def)
  show "sp_xcache_get (replicate SP_XCACHE_CAP None) g = None" for g
    by (simp add: sp_xcache_get_def probe_get_empty SP_XCACHE_CAP_def)
next
  fix c :: xcache and g h :: cstr
  assume ok: "probe_ok SP_XCACHE_CAP xe_g xslot c" and f: "length g < SP_PATH_MAX \<and> length h < SP_PATH_MAX"
  let ?e = "\<lparr>xe_g = g, xe_h = h\<rparr>"
  have put: "sp_xcache_put c g h = probe_put c (xslot g) 8 (\<lambda>x. xe_g x = g) ?e"
    using f by (simp add: sp_xcache_put_def strncpy_z_fits)
  show "probe_ok SP_XCACHE_CAP xe_g xslot (sp_xcache_put c g h)"
    unfolding put using ok by (intro probe_ok_put) simp_all
  show "sp_xcache_get (sp_xcache_put c g h) g' = sp_xcache_get c g'" if "g' \<noteq> g" for g'
    unfolding put sp_xcache_get_def using probe_get_put_other [OF ok _ that, of ?e 8 8]
    by (simp add: SP_XCACHE_CAP_def)
  show "w = h" if "sp_xcache_get (sp_xcache_put c g h) g = Some w" for w
  proof -
    from that obtain x where "probe_get (sp_xcache_put c g h) (xslot g) 8 (\<lambda>x. xe_g x = g) = Some x" "w = xe_h x"
      by (auto simp: sp_xcache_get_def)
    moreover have "0 < length c" using ok by (simp add: probe_ok_def)
    ultimately show ?thesis
      using probe_get_put_same [of xe_g ?e g c "xslot g" 8 x] by (simp add: put)
  qed
qed

interpretation ec: memo
  "probe_ok SP_ECACHE_CAP ec_key (\<lambda>k. eslot (fst k))" "replicate SP_ECACHE_CAP None"
  "\<lambda>c k. sp_ecache_get c (fst k) (snd k)" "\<lambda>c k. sp_ecache_put c (fst k) (snd k)"
  "\<lambda>k cand. length (fst k) < 96 \<and> length cand < SP_PATH_MAX"
proof
  show "probe_ok SP_ECACHE_CAP ec_key (\<lambda>k. eslot (fst k)) (replicate SP_ECACHE_CAP None)"
    by (simp add: probe_ok_empty SP_ECACHE_CAP_def)
  show "sp_ecache_get (replicate SP_ECACHE_CAP None) (fst k) (snd k) = None" for k
    by (simp add: sp_ecache_get_def probe_get_empty SP_ECACHE_CAP_def)
next
  fix c :: ecache and k :: "cstr \<times> u64" and v :: cstr
  assume ok: "probe_ok SP_ECACHE_CAP ec_key (\<lambda>k. eslot (fst k)) c" and f: "length (fst k) < 96 \<and> length v < SP_PATH_MAX"
  let ?e = "\<lparr>ec_name = fst k, ec_cand = v, ec_pk = snd k\<rparr>"
  have key: "ec_key ?e = k" by (simp add: ec_key_def)
  have put: "sp_ecache_put c (fst k) (snd k) v = probe_put c (eslot (fst k)) 6 (\<lambda>x. ec_key x = k) ?e"
    using f by (simp add: sp_ecache_put_def strncpy_z_fits ec_key_hit)
  have get: "sp_ecache_get t (fst l) (snd l) = map_option ec_cand (probe_get t (eslot (fst l)) 6 (\<lambda>x. ec_key x = l))" for t l
    by (simp add: sp_ecache_get_def ec_key_hit)
  show "probe_ok SP_ECACHE_CAP ec_key (\<lambda>k. eslot (fst k)) (sp_ecache_put c (fst k) (snd k) v)"
    unfolding put using probe_ok_put [OF ok key, of 6] by simp
  show "sp_ecache_get (sp_ecache_put c (fst k) (snd k) v) (fst l) (snd l) = sp_ecache_get c (fst l) (snd l)" if "l \<noteq> k" for l
    unfolding put get using probe_get_put_other [OF ok key that, of 6 6] by (simp add: SP_ECACHE_CAP_def)
  show "w = v" if "sp_ecache_get (sp_ecache_put c (fst k) (snd k) v) (fst k) (snd k) = Some w" for w
  proof -
    from that obtain x where "probe_get (sp_ecache_put c (fst k) (snd k) v) (eslot (fst k)) 6 (\<lambda>x. ec_key x = k) = Some x"
      "w = ec_cand x" by (auto simp: get)
    moreover have "0 < length c" using ok by (simp add: probe_ok_def)
    ultimately show ?thesis using probe_get_put_same [of ec_key ?e k c "eslot (fst k)" 6 x] key by (simp add: put)
  qed
qed

lemma sp_xcache_clear_empty: "sp_xcache_clear c = replicate SP_XCACHE_CAP None"
  by (simp add: sp_xcache_clear_def)

text \<open>The first store into a cleared cache is found again.\<close>

lemma probe_first:
  assumes "0 < c" and "0 < n" and "hit e"
  shows "probe_get (probe_put (replicate c None) i n hit e) i n hit = Some e"
proof -
  obtain m where "n = Suc m" using assms(2) by (cases n) auto
  with assms show ?thesis by simp
qed

lemma sp_xcache_first:
  "length g < SP_PATH_MAX \<Longrightarrow> length h < SP_PATH_MAX \<Longrightarrow>
   sp_xcache_get (sp_xcache_put (sp_xcache_clear c) g h) g = Some h"
  by (simp add: sp_xcache_get_def sp_xcache_put_def sp_xcache_clear_def SP_XCACHE_CAP_def strncpy_z_fits probe_first)

lemma sp_ecache_first:
  "length nm < 96 \<Longrightarrow> length cand < SP_PATH_MAX \<Longrightarrow>
   sp_ecache_get (sp_ecache_put (snd (sp_exec_caches_clear cs)) nm pk cand) nm pk = Some cand"
  by (simp add: sp_ecache_get_def sp_ecache_put_def sp_exec_caches_clear_def SP_ECACHE_CAP_def strncpy_z_fits probe_first)

section \<open>Snapshot lemmas\<close>

lemma snapshot_loop_length: "length rows \<le> SP_SNAP_MAX_ROWS \<Longrightarrow> length (snapshot_loop rows env) \<le> SP_SNAP_MAX_ROWS"
  by (induction rows env rule: snapshot_loop.induct) (simp_all del: snapshot_loop.simps add: snapshot_loop.simps)

lemma sp_snap_get_eq_getenv: "sp_snap_get rows key = getenv rows key"
  by (induction rows) simp_all

section \<open>Properties\<close>

text \<open>
  C15: the translate cache never answers with anything but a value that was stored for that
  guest path: after any sequence of stores of values of a function, every hit is the
  function's value; the clear empties it.
\<close>

theorem sp_xcache_sound:
  assumes "\<forall>(g, h) \<in> set stores. length g < SP_PATH_MAX \<and> length h < SP_PATH_MAX \<and> f g = Some h"
    and "sp_xcache_get (foldl (\<lambda>c (g, h). sp_xcache_put c g h) (sp_xcache_clear c0) stores) g = Some h"
  shows "f g = Some h"
proof -
  have "xc.sound f (foldl (\<lambda>c (g, h). sp_xcache_put c g h) (sp_xcache_clear c0) stores)"
    using assms(1) xc.sound_empty unfolding sp_xcache_clear_empty by (intro xc.sound_puts) fastforce+
  then show ?thesis using assms(2) by (rule xc.sound_hit)
qed

theorem sp_xcache_sound_witness:
  "sp_xcache_get (foldl (\<lambda>c (g, h). sp_xcache_put c g h) (sp_xcache_clear []) [(''/b'', ''/r/b'')]) ''/b'' = Some ''/r/b'' \<and>
   map_of [(''/b'', ''/r/b'')] ''/b'' = Some ''/r/b''"
proof -
  have hit: "sp_xcache_get (foldl (\<lambda>c (g, h). sp_xcache_put c g h) (sp_xcache_clear []) [(''/b'', ''/r/b'')]) ''/b'' = Some ''/r/b''"
    using sp_xcache_first [of "''/b''" "''/r/b''" "[]"] by (simp add: sp_const)
  have "map_of [(''/b'', ''/r/b'')] ''/b'' = Some ''/r/b''"
    by (rule sp_xcache_sound [OF _ hit]) (simp add: sp_const)
  with hit show ?thesis by simp
qed

text \<open>
  the exec-name cache answers only for the same name under the same \<^verbatim>\<open>PATH\<close> fingerprint,
  and with a candidate that was stored for them.
\<close>

lemma sp_ecache_sound:
  assumes "\<forall>(k, cand) \<in> set stores. (length (fst k) < 96 \<and> length cand < SP_PATH_MAX) \<and> f k = Some cand"
    and "sp_ecache_get (foldl (\<lambda>c (k, cand). sp_ecache_put c (fst k) (snd k) cand) (snd (sp_exec_caches_clear cs)) stores) nm pk = Some cand"
  shows "f (nm, pk) = Some cand"
proof -
  have "ec.sound f (foldl (\<lambda>c (k, cand). sp_ecache_put c (fst k) (snd k) cand) (snd (sp_exec_caches_clear cs)) stores)"
    using assms(1) ec.sound_empty by (intro ec.sound_puts) (simp_all add: sp_exec_caches_clear_def)
  then show ?thesis using assms(2) ec.sound_hit [of f _ "(nm, pk)" cand] by simp
qed

lemma sp_ecache_sound_witness:
  "map_of [((''ls'', 7 :: u64), ''/bin/ls'')] (''ls'', 7) = Some ''/bin/ls''"
proof -
  let ?f = "map_of [((''ls'', 7 :: u64), ''/bin/ls'')]" and ?s = "[((''ls'', 7 :: u64), ''/bin/ls'')]"
  have a: "\<forall>(k, cand) \<in> set ?s. (length (fst k) < 96 \<and> length cand < SP_PATH_MAX) \<and> ?f k = Some cand"
    by (simp add: sp_const)
  have b: "sp_ecache_get (foldl (\<lambda>c (k, cand). sp_ecache_put c (fst k) (snd k) cand)
      (snd (sp_exec_caches_clear ([], []))) ?s) ''ls'' 7 = Some ''/bin/ls''"
    using sp_ecache_first [of "''ls''" "''/bin/ls''" "([], [])" 7] by (simp add: sp_const)
  show ?thesis by (rule sp_ecache_sound [OF a b])
qed

text \<open>
  A name of 96 bytes or more is stored cut: the entry then answers for the name that is its
  95-byte prefix, when that name has the same home slot.
\<close>

lemma ecache_truncates: "strncpy_z 96 nm = take 95 nm"
  by (simp add: strncpy_z_def)

end
