(* ===== verification/Sprout_Xlate.thy ===== *)
theory Sprout_Xlate
  imports Sprout_Translate Sprout_Shadow Sprout_Caches
begin

text \<open>
  The translation every wrapper calls, \<^verbatim>\<open>sp_translate_xf\<close>, with what it composes: the shadow
  table rewrite, the join of a relative path with the working directory, the translate
  cache, \<^verbatim>\<open>sp_translate_f\<close> with its two hooks and the chase of remaining links. The two
  hooks are modelled here as well: the answer for \<^verbatim>\<open>/proc/self/exe\<close> and the synthetic
  \<^verbatim>\<open>/proc\<close> files.
\<close>

section \<open>Printing numbers\<close>

text \<open>\<^verbatim>\<open>%llu\<close> and \<^verbatim>\<open>%lld\<close>.\<close>

definition digit :: "nat \<Rightarrow> char" where
  "digit d = char_of (48 + d mod 10)"

fun dec :: "nat \<Rightarrow> cstr" where
  "dec n = (if n < 10 then [digit n] else dec (n div 10) @ [digit n])"

declare dec.simps [simp del]

definition dec_u64 :: "u64 \<Rightarrow> cstr" where
  "dec_u64 w = dec (unat w)"

definition dec_int :: "int \<Rightarrow> cstr" where
  "dec_int i = (if i < 0 then CHR ''-'' # dec (nat (- i)) else dec (nat i))"

section \<open>The process's own image\<close>

definition proc_pid_file :: "nat \<Rightarrow> cstr \<Rightarrow> cstr" where
  "proc_pid_file pid f = snprintf_s 96 (''/proc/'' @ dec pid @ ''/'' @ f)"

definition names_self :: "nat \<Rightarrow> cstr \<Rightarrow> cstr \<Rightarrow> bool" where
  "names_self pid f path \<longleftrightarrow> path = ''/proc/self/'' @ f \<or> path = proc_pid_file pid f"

text \<open>\<^verbatim>\<open>sp_auxv_match\<close>: the descriptor to answer with; \<open>dup\<close> is the system call.\<close>

definition sp_auxv_match :: "int \<Rightarrow> (int \<Rightarrow> int) \<Rightarrow> nat \<Rightarrow> cptr \<Rightarrow> int" where
  "sp_auxv_match auxv_fd dup pid path0 =
     (case path0 of
        None \<Rightarrow> -1
      | Some path \<Rightarrow>
          if auxv_fd < 0 \<or> char_at path 0 \<noteq> slash then -1
          else if \<not> names_self pid ''auxv'' path then -1
          else dup auxv_fd)"

definition sp_self_exe_guest_path :: "env \<Rightarrow> nat \<Rightarrow> cptr \<Rightarrow> cptr" where
  "sp_self_exe_guest_path env pid path0 =
     (case path0 of
        None \<Rightarrow> None
      | Some path \<Rightarrow>
          if char_at path 0 \<noteq> slash then None
          else if \<not> names_self pid ''exe'' path then None
          else nonempty_or (getenv env ''SPROUT_EXE'') None)"

text \<open>\<^verbatim>\<open>sp_self_exe_answer\<close>: what is copied to the buffer; \<open>None\<close> is \<^verbatim>\<open>-1\<close>.\<close>

definition sp_self_exe_answer :: "env \<Rightarrow> nat \<Rightarrow> cptr \<Rightarrow> nat \<Rightarrow> cptr" where
  "sp_self_exe_answer e pid path bufsiz =
     (case path of
        None \<Rightarrow> None
      | Some p \<Rightarrow>
          if \<not> names_self pid ''exe'' p then None
          else map_option (take bufsiz) (nonempty_or (getenv e ''SPROUT_EXE'') None))"

section \<open>Synthetic files of /proc\<close>

text \<open>What the kernel says: clocks in whole seconds and the \<^verbatim>\<open>uname\<close> strings, if available.\<close>

record sysinfo =
  boot_secs :: "nat option"
  mono_secs :: u64
  epoch :: int
  uts :: "(cstr \<times> cstr) option"

definition nl :: cstr where
  "nl = [char_of (10 :: nat)]"

definition proc_version :: "sysinfo \<Rightarrow> cstr" where
  "proc_version si =
     (let (release, machine) = (case uts si of None \<Rightarrow> (''unknown'', ''aarch64'') | Some u \<Rightarrow> u)
      in ''Linux version '' @ release @ '' (sprout-build) (gcc (sprout)) #1 SMP PREEMPT '' @ machine @ nl)"

definition proc_stat :: "sysinfo \<Rightarrow> cstr" where
  "proc_stat si =
     (let tick = mono_secs si * 100 in
      ''cpu '' @ dec_u64 (tick div 50 + 37) @ '' 0 '' @ dec_u64 (tick div 34 + 51) @ '' '' @ dec_u64 tick @ '' 0 0 0 0 0 0'' @ nl @
      ''intr '' @ dec_u64 (tick * 4) @ nl @ ''ctxt '' @ dec_u64 (tick * 12) @ nl @
      ''btime '' @ dec_int (epoch si - uint (mono_secs si)) @ nl @
      ''processes '' @ dec_u64 (tick div 20 + 123) @ nl @ ''procs_running 1'' @ nl @
      ''procs_blocked 0'' @ nl @ ''softirq '' @ dec_u64 (tick * 8) @ '' 0 0 0 0 0 0 0 0 0 0'' @ nl)"

text \<open>\<^verbatim>\<open>sp_fakeproc_fill\<close>: the content before it is cut to the buffer, or \<open>None\<close> for \<^verbatim>\<open>-1\<close>.\<close>

definition sp_fakeproc_fill :: "sysinfo \<Rightarrow> cstr \<Rightarrow> cstr option" where
  "sp_fakeproc_fill si guest =
     (if guest = ''/proc/loadavg'' then Some (''0.00 0.00 0.00 1/512 12345'' @ nl)
      else if guest = ''/proc/sys/kernel/overflowuid'' \<or> guest = ''/proc/sys/kernel/overflowgid''
        then Some (''65534'' @ nl)
      else if guest = ''/proc/uptime''
        then let up = dec (case boot_secs si of None \<Rightarrow> 0 | Some b \<Rightarrow> b) @ ''.00''
             in Some (up @ '' '' @ up @ nl)
      else if guest = ''/proc/version'' then Some (proc_version si)
      else if guest = ''/proc/stat'' then Some (proc_stat si)
      else None)"

definition fakeproc_guests :: "cstr list" where
  "fakeproc_guests = [''/proc/stat'', ''/proc/loadavg'', ''/proc/sys/kernel/overflowuid'',
     ''/proc/sys/kernel/overflowgid'', ''/proc/version'', ''/proc/uptime'']"

definition sp_fakeproc_basenames :: "cstr list" where
  "sp_fakeproc_basenames = [''stat'', ''loadavg'', ''overflowuid'', ''overflowgid'', ''version'', ''uptime'']"

definition sp_fakeproc_id :: "cstr \<Rightarrow> nat option" where
  "sp_fakeproc_id guest =
     (if guest = ''/proc/stat'' then Some 0
      else if guest = ''/proc/loadavg'' then Some 1
      else if guest = ''/proc/sys/kernel/overflowuid'' then Some 2
      else if guest = ''/proc/sys/kernel/overflowgid'' then Some 3
      else if guest = ''/proc/version'' then Some 4
      else if guest = ''/proc/uptime'' then Some 5
      else None)"

text \<open>
  The per-process state: a slot that is not \<open>None\<close> is \<^verbatim>\<open>cache_ready\<close>, its path may be
  empty; and the descriptors of \<^verbatim>\<open>sp_fakeproc_open\<close>.
\<close>

record fakeproc =
  fp_cache :: "cstr option list"
  fp_fds :: "int list"

definition fakeproc_init :: fakeproc where
  "fakeproc_init = \<lparr>fp_cache = replicate 6 None, fp_fds = replicate 6 (-1)\<rparr>"

text \<open>
  The file system as \<^verbatim>\<open>sp_fakeproc_host_path\<close> uses it: whether a file is readable, and
  whether creating and writing it in full succeeds.
\<close>

record fakeproc_fs =
  readable :: "cstr \<Rightarrow> bool"
  can_write :: "cstr \<Rightarrow> cstr \<Rightarrow> bool"

definition fakeproc_dir :: "env \<Rightarrow> cstr option" where
  "fakeproc_dir env =
     (case nonempty_or (getenv env ''SPROUT_CACHE_DIR'') None of
        Some base \<Rightarrow> Some (snprintf_s SP_PATH_MAX (base @ ''/fakeproc''))
      | None \<Rightarrow>
          (case nonempty_or (getenv env ''SPROUT_LOADER'') None of
             None \<Rightarrow> None
           | Some loader \<Rightarrow>
               (let dir = snprintf_s SP_PATH_MAX loader in
                case strrchr dir slash of
                  None \<Rightarrow> None
                | Some i \<Rightarrow> Some (take i dir @ snprintf_s (SP_PATH_MAX - i) ''/fakeproc''))))"

definition fakeproc_materialise :: "env \<Rightarrow> sysinfo \<Rightarrow> fakeproc_fs \<Rightarrow> nat \<Rightarrow> cstr \<Rightarrow> cptr" where
  "fakeproc_materialise env si fs i guest =
     (case fakeproc_dir env of
        None \<Rightarrow> None
      | Some dir \<Rightarrow>
          (let dst = snprintf_s SP_PATH_MAX (dir @ ''/'' @ sp_fakeproc_basenames ! i) in
           if readable fs dst then Some dst
           else case sp_fakeproc_fill si guest of
                  None \<Rightarrow> None
                | Some content \<Rightarrow> if can_write fs dst content then Some dst else None))"

definition sp_fakeproc_host_path :: "env \<Rightarrow> sysinfo \<Rightarrow> fakeproc_fs \<Rightarrow> fakeproc \<Rightarrow> cstr \<Rightarrow> cptr \<times> fakeproc" where
  "sp_fakeproc_host_path env si fs st guest =
     (case sp_fakeproc_id guest of
        None \<Rightarrow> (None, st)
      | Some i \<Rightarrow>
          (case fp_cache st ! i of
             Some p \<Rightarrow> (if p \<noteq> [] then Some p else None, st)
           | None \<Rightarrow>
               (let r = fakeproc_materialise env si fs i guest
                in (r, st\<lparr>fp_cache := (fp_cache st)[i := Some (case r of None \<Rightarrow> [] | Some p \<Rightarrow> p)]\<rparr>))))"

text \<open>
  \<^verbatim>\<open>sp_fakeproc_open\<close>: \<open>memfd content\<close> is the descriptor of a memory file filled with the
  content and rewound, negative on any failure.
\<close>

definition sp_fakeproc_open :: "sysinfo \<Rightarrow> (cstr \<Rightarrow> int) \<Rightarrow> fakeproc \<Rightarrow> cstr \<Rightarrow> int \<times> fakeproc" where
  "sp_fakeproc_open si memfd st guest =
     (case sp_fakeproc_id guest of
        None \<Rightarrow> (-1, st)
      | Some i \<Rightarrow>
          if fp_fds st ! i \<ge> 0 then (fp_fds st ! i, st)
          else case sp_fakeproc_fill si guest of
                 None \<Rightarrow> (-1, st)
               | Some content \<Rightarrow>
                   (let f = memfd content in
                    if f < 0 then (-1, st) else (f, st\<lparr>fp_fds := (fp_fds st)[i := f]\<rparr>)))"

text \<open>\<^verbatim>\<open>sp_fakeproc_access\<close>: \<^verbatim>\<open>-1\<close> not ours, 0 granted, 1 denied with \<^verbatim>\<open>EACCES\<close>; \<^verbatim>\<open>R_OK\<close> is 4.\<close>

definition sp_fakeproc_access :: "cstr \<Rightarrow> u32 \<Rightarrow> int \<times> errno option" where
  "sp_fakeproc_access guest mode =
     (case sp_fakeproc_id guest of
        None \<Rightarrow> (-1, None)
      | Some _ \<Rightarrow> if mode = 0 \<or> and mode (not 4) = 0 then (0, None) else (1, Some EACCES))"

section \<open>The cached translation\<close>

text \<open>
  The context of a call; \<open>x_cwd\<close> is the target of \<^verbatim>\<open>/proc/self/cwd\<close>, \<open>x_shadow\<close> the
  rewrite of the shadow table.
\<close>

record xctx =
  x_cfg :: sp_config
  x_lst :: lstat
  x_self :: "cstr \<Rightarrow> cptr"
  x_fake :: "cstr \<Rightarrow> cptr"
  x_shadow :: "cstr \<Rightarrow> lookup"
  x_cwd :: cptr
  x_l2s_off :: bool

text \<open>
  Where the returned pointer points: the caller's string, the caller's buffer, or an array in
  the frame of \<^verbatim>\<open>sp_translate_xf\<close> itself, which is dead on return.
\<close>

datatype xres = XErr errno | Caller cstr | Buf cstr | Frame cstr

definition x_translate :: "xctx \<Rightarrow> cstr \<Rightarrow> bool \<Rightarrow> cstr option" where
  "x_translate x p follow = sp_translate_f (x_self x) (x_fake x) (x_cfg x) (x_lst x) (Some p) follow"

text \<open>The join with the working directory; the rootfs is stripped by its bytes alone.\<close>

definition xf_join :: "xctx \<Rightarrow> cstr \<Rightarrow> cstr option" where
  "xf_join x path =
     (case x_cwd x of
        None \<Rightarrow> None
      | Some t \<Rightarrow>
          (let cw = take (SP_PATH_MAX - 1) t; root = rootfs (x_cfg x) in
           if cw = [] then None
           else if root \<noteq> [] \<and> strncmp_eq cw root (length root) then
             (let j = drop (length root) cw @ slash # path in if length j < SP_PATH_MAX then Some j else None)
           else None))"

text \<open>One hop of the last chase; \<open>Return\<close> is \<^verbatim>\<open>break\<close>. \<^verbatim>\<open>sizeof(lnk) - 1\<close> is 7: \<^verbatim>\<open>lnk\<close> is a pointer.\<close>

definition l2s_step :: "xctx \<Rightarrow> cstr \<Rightarrow> (cstr, cstr) hop" where
  "l2s_step x buf =
     (case x_lst x buf of
        Link t \<Rightarrow>
          (let lnk = take 7 t in
           if t = [] then Return buf
           else if char_at lnk 0 = slash then
             (case x_translate x lnk True of
                None \<Rightarrow> Return buf
              | Some back \<Rightarrow> Continue (snprintf_s SP_PATH_MAX back))
           else
             (case strrchr buf slash of
                None \<Rightarrow> Return buf
              | Some i \<Rightarrow>
                  (let tmp = take i buf @ slash # lnk
                   in if length tmp \<ge> SP_PATH_MAX then Return buf else Continue tmp)))
      | _ \<Rightarrow> Return buf)"

definition l2s_loop :: "xctx \<Rightarrow> cstr \<Rightarrow> cstr" where
  "l2s_loop x buf = (case hop_loop (l2s_step x) 8 buf of Return b \<Rightarrow> b | Continue b \<Rightarrow> b)"

text \<open>What follows the cache miss: \<open>joined\<close> and \<open>shadowed\<close> tell where \<open>path\<close> points.\<close>

definition xf_miss :: "xctx \<Rightarrow> xcache \<Rightarrow> cstr \<Rightarrow> bool \<Rightarrow> bool \<Rightarrow> bool \<Rightarrow> xres \<times> xcache" where
  "xf_miss x c path joined shadowed follow =
     (let finish = (\<lambda>buf.
        if \<not> follow \<or> x_l2s_off x then (Buf buf, c)
        else (Buf (l2s_loop x buf),
              case l2s_step x buf of Return b \<Rightarrow> sp_xcache_put c path b | Continue _ \<Rightarrow> c))
      in case x_translate x path follow of
           Some buf \<Rightarrow> finish buf
         | None \<Rightarrow>
             if joined then (if length path \<ge> SP_PATH_MAX then (XErr ENAMETOOLONG, c) else finish path)
             else (if shadowed then Frame path else Caller path, c))"

definition xf_resolve :: "xctx \<Rightarrow> cstr \<Rightarrow> cstr \<times> bool \<times> bool" where
  "xf_resolve x p0 =
     (let (p1, shadowed) = (if char_at p0 0 = slash
                            then (case x_shadow x p0 of Rewritten q \<Rightarrow> (q, True) | _ \<Rightarrow> (p0, False))
                            else (p0, False))
      in if char_at p1 0 \<noteq> slash
         then (case xf_join x p1 of Some j \<Rightarrow> (j, True, False) | None \<Rightarrow> (p1, False, shadowed))
         else (p1, False, shadowed))"

definition sp_translate_xf :: "xctx \<Rightarrow> xcache \<Rightarrow> cptr \<Rightarrow> bool \<Rightarrow> xres \<times> xcache" where
  "sp_translate_xf x c path0 follow =
     (case path0 of
        None \<Rightarrow> (XErr EFAULT, c)
      | Some p0 \<Rightarrow>
          (let (p, joined, shadowed) = xf_resolve x p0 in
           case (if follow then sp_xcache_get c p else None) of
             Some h \<Rightarrow> (Buf h, c)
           | None \<Rightarrow> xf_miss x c p joined shadowed follow))"

definition sp_translate_x :: "xctx \<Rightarrow> xcache \<Rightarrow> cptr \<Rightarrow> xres \<times> xcache" where
  "sp_translate_x x c path = sp_translate_xf x c path True"

definition sp_translate_l :: "xctx \<Rightarrow> xcache \<Rightarrow> cptr \<Rightarrow> xres \<times> xcache" where
  "sp_translate_l x c path = sp_translate_xf x c path False"

section \<open>Notions for the properties\<close>

text \<open>The string a result denotes.\<close>

fun content :: "xres \<Rightarrow> errno + cstr" where
  "content (XErr e) = Inl e"
| "content (Caller p) = Inr p"
| "content (Buf p) = Inr p"
| "content (Frame p) = Inr p"

definition x_empty :: xcache where
  "x_empty = replicate SP_XCACHE_CAP None"

text \<open>The value a cache entry must have: the translation of a path that needs no chase.\<close>

definition x_value :: "xctx \<Rightarrow> cstr \<Rightarrow> cstr option" where
  "x_value x p =
     (let b = (case x_translate x p True of None \<Rightarrow> p | Some b \<Rightarrow> b)
      in if x_l2s_off x then None else case l2s_step x b of Return r \<Rightarrow> Some r | Continue _ \<Rightarrow> None)"

definition in_buffers :: "xctx \<Rightarrow> bool" where
  "in_buffers x \<longleftrightarrow>
     (\<forall>p b. x_translate x p True = Some b \<longrightarrow> length b < SP_PATH_MAX) \<and>
     (\<forall>p q. x_shadow x p = Rewritten q \<longrightarrow> length q < SP_PATH_MAX)"

definition demo_x :: xctx where
  "demo_x = \<lparr>x_cfg = escape_cfg, x_lst = escape_lst, x_self = no_hook, x_fake = no_hook,
     x_shadow = (\<lambda>_. NoMatch), x_cwd = None, x_l2s_off = False\<rparr>"

section \<open>Lemmas\<close>

lemma l2s_step_Return: "l2s_step x b = Return r \<Longrightarrow> r = b"
  by (auto simp: l2s_step_def Let_def split: node.splits if_splits option.splits)

lemma l2s_loop_stop: "l2s_step x b = Return r \<Longrightarrow> l2s_loop x b = b"
  using l2s_step_Return [of x b r] by (simp add: l2s_loop_def numeral_eq_Suc)

lemma x_value_hit: "x_value x p = Some h \<Longrightarrow>
  \<not> x_l2s_off x \<and> h = (case x_translate x p True of None \<Rightarrow> p | Some b \<Rightarrow> b) \<and> l2s_step x h = Return h"
  by (auto simp: x_value_def Let_def dest: l2s_step_Return split: if_splits hop.splits)

text \<open>Without the cache, a path that has a cache value is translated to it.\<close>

lemma xf_miss_value:
  assumes "x_value x p = Some h" and "joined \<longrightarrow> length p < SP_PATH_MAX"
  shows "content (fst (xf_miss x c p joined shadowed True)) = Inr h"
  using x_value_hit [OF assms(1)] assms(2) l2s_loop_stop [of x h h]
  by (auto simp: xf_miss_def Let_def split: option.splits)

lemma xf_miss_cache_irrelevant:
  "fst (xf_miss x c p joined shadowed follow) = fst (xf_miss x c' p joined shadowed follow)"
  by (auto simp: xf_miss_def Let_def split: option.split)

lemma xf_miss_sound:
  assumes s: "xc.sound (x_value x) c" and b: "in_buffers x" and p: "length p < SP_PATH_MAX"
  shows "xc.sound (x_value x) (snd (xf_miss x c p joined shadowed follow))"
proof -
  let ?b = "case x_translate x p True of None \<Rightarrow> p | Some b \<Rightarrow> b"
  have len: "length ?b < SP_PATH_MAX" using b p by (auto simp: in_buffers_def split: option.split)
  have put: "xc.sound (x_value x) (sp_xcache_put c p r)" if "\<not> x_l2s_off x" "l2s_step x ?b = Return r" for r
  proof (rule xc.sound_put [OF s])
    show "length p < SP_PATH_MAX \<and> length r < SP_PATH_MAX" using p len l2s_step_Return [OF that(2)] by simp
    show "x_value x p = Some r" using that by (simp add: x_value_def Let_def)
  qed
  show ?thesis
  proof (cases "follow \<and> \<not> x_l2s_off x")
    case True
    then show ?thesis
      using s put by (auto simp: xf_miss_def Let_def split: option.splits hop.splits)
  next
    case False
    then show ?thesis using s by (auto simp: xf_miss_def Let_def split: option.splits)
  qed
qed

lemma xf_resolve_fits:
  assumes "in_buffers x" and "length p0 < SP_PATH_MAX" and "xf_resolve x p0 = (p, joined, shadowed)"
  shows "length p < SP_PATH_MAX"
proof -
  have j: "length j < SP_PATH_MAX" if "xf_join x q = Some j" for q j
    using that by (auto simp: xf_join_def Let_def split: option.splits if_splits)
  show ?thesis
    using assms j by (auto simp: xf_resolve_def in_buffers_def split: if_splits option.splits lookup.splits)
qed

lemma sp_fakeproc_id_less: "sp_fakeproc_id g = Some i \<Longrightarrow> i < 6"
  by (auto simp: sp_fakeproc_id_def split: if_splits)

lemma sp_fakeproc_fill_id: "sp_fakeproc_fill si g = None \<longleftrightarrow> sp_fakeproc_id g = None"
  by (simp add: sp_fakeproc_fill_def sp_fakeproc_id_def Let_def)

lemma demo_in_buffers: "in_buffers demo_x"
proof -
  have "length b < SP_PATH_MAX" if "x_translate demo_x p True = Some b" for p b
  proof -
    have t: "sp_translate_f no_hook no_hook escape_cfg escape_lst (Some p) True = Some b"
      using that by (simp add: x_translate_def demo_x_def)
    have "translate_rootfs escape_cfg escape_lst p True = Some b" "char_at p 0 = slash"
      using translate_no_bind [OF _ t] by (auto simp: escape_cfg_def)
    moreover have "rooted escape_cfg" using rooted_wf [OF escape_wf] by (simp add: escape_cfg_def)
    ultimately show ?thesis using translate_rootfs_safe [OF _ escape_kernel_ok(1)] escape_kernel_ok(2) by (auto simp: contained_def)
  qed
  then show ?thesis by (auto simp: in_buffers_def demo_x_def)
qed

lemma demo_cache_sound: "xc.sound (x_value demo_x) (sp_xcache_put x_empty ''/b'' ''/r/b'')"
proof (rule xc.sound_put)
  show "xc.sound (x_value demo_x) x_empty" unfolding x_empty_def by (rule xc.sound_empty)
  show "length ''/b'' < SP_PATH_MAX \<and> length ''/r/b'' < SP_PATH_MAX" by (simp add: sp_const)
  show "x_value demo_x ''/b'' = Some ''/r/b''" by code_simp
qed

lemma xf_transparent:
  assumes "xc.sound (x_value x) c" and "in_buffers x" and "length p0 < SP_PATH_MAX"
  shows "content (fst (sp_translate_xf x c (Some p0) follow)) =
           content (fst (sp_translate_xf x x_empty (Some p0) follow)) \<and>
         xc.sound (x_value x) (snd (sp_translate_xf x c (Some p0) follow))"
proof -
  obtain p joined shadowed where r: "xf_resolve x p0 = (p, joined, shadowed)" by (cases "xf_resolve x p0")
  have len: "length p < SP_PATH_MAX" by (rule xf_resolve_fits [OF assms(2,3) r])
  have e: "sp_xcache_get x_empty p = None" unfolding x_empty_def by (rule xc.get_empty)
  have empty: "fst (sp_translate_xf x x_empty (Some p0) follow) = fst (xf_miss x x_empty p joined shadowed follow)"
    using e by (simp add: sp_translate_xf_def r)
  show ?thesis
  proof (cases "if follow then sp_xcache_get c p else None")
    case None
    then show ?thesis
      using xf_miss_sound [OF assms(1,2) len] xf_miss_cache_irrelevant [of x c p joined shadowed follow x_empty]
      by (simp add: empty) (simp add: sp_translate_xf_def r)
  next
    case (Some h)
    then have f: "follow" and v: "x_value x p = Some h"
      using xc.sound_hit [OF assms(1), of p h] by (auto split: if_splits)
    then show ?thesis
      using Some assms(1) xf_miss_value [OF v, of joined x_empty shadowed] len
      by (simp add: sp_translate_xf_def r e)
  qed
qed

section \<open>Properties\<close>

text \<open>
  C4: the cache is transparent: while the file system and the configuration stay as they
  are, a call answers with the same string as a call with an empty cache, and the cache it
  leaves behind is again sound.
\<close>

theorem sp_translate_xf_transparent:
  assumes "xc.sound (x_value x) c" and "in_buffers x" and "length p0 < SP_PATH_MAX"
  shows "content (fst (sp_translate_xf x c (Some p0) follow)) =
           content (fst (sp_translate_xf x x_empty (Some p0) follow)) \<and>
         xc.sound (x_value x) (snd (sp_translate_xf x c (Some p0) follow))"
  by (rule xf_transparent [OF assms])

theorem sp_translate_xf_transparent_witness:
  "content (fst (sp_translate_xf demo_x (sp_xcache_put x_empty ''/b'' ''/r/b'') (Some ''/b'') True)) =
     content (fst (sp_translate_xf demo_x x_empty (Some ''/b'') True)) \<and>
   xc.sound (x_value demo_x) (snd (sp_translate_xf demo_x (sp_xcache_put x_empty ''/b'' ''/r/b'') (Some ''/b'') True))"
  by (rule sp_translate_xf_transparent [OF demo_cache_sound demo_in_buffers]) (simp add: sp_const)

text \<open>
  the answer for a synthetic \<^verbatim>\<open>/proc\<close> file does not change within a process: whatever the
  first call decided, later calls give, whatever happened to the disk in between.
\<close>

lemma sp_fakeproc_host_path_stable:
  assumes "length (fp_cache st) = 6" and "sp_fakeproc_host_path env si fs st g = (r, st')"
    and "r \<noteq> Some []"
  shows "fst (sp_fakeproc_host_path env' si' fs' st' g) = r"
proof (cases "sp_fakeproc_id g")
  case None
  with assms show ?thesis by (simp add: sp_fakeproc_host_path_def)
next
  case (Some i)
  with assms sp_fakeproc_id_less [OF Some] show ?thesis
    by (auto simp: sp_fakeproc_host_path_def Let_def split: option.splits if_splits)
qed

lemma sp_fakeproc_host_path_stable_witness:
  "fst (sp_fakeproc_host_path [''SPROUT_CACHE_DIR=/c''] \<lparr>boot_secs = None, mono_secs = 5, epoch = 9, uts = None\<rparr>
     \<lparr>readable = (\<lambda>_. False), can_write = (\<lambda>_ _. True)\<rparr> fakeproc_init ''/proc/version'') = Some ''/c/fakeproc/version'' \<and>
   fst (sp_fakeproc_host_path [] \<lparr>boot_secs = None, mono_secs = 6, epoch = 10, uts = None\<rparr>
     \<lparr>readable = (\<lambda>_. False), can_write = (\<lambda>_ _. False)\<rparr>
     (fakeproc_init\<lparr>fp_cache := [None, None, None, None, Some ''/c/fakeproc/version'', None]\<rparr>) ''/proc/version'') =
     Some ''/c/fakeproc/version''"
proof -
  let ?si = "\<lparr>boot_secs = None, mono_secs = 5, epoch = 9, uts = None\<rparr>"
  let ?fs = "\<lparr>readable = (\<lambda>_. False), can_write = (\<lambda>_ _. True)\<rparr>"
  have a: "sp_fakeproc_host_path [''SPROUT_CACHE_DIR=/c''] ?si ?fs fakeproc_init ''/proc/version'' =
      (Some ''/c/fakeproc/version'', fakeproc_init\<lparr>fp_cache := [None, None, None, None, Some ''/c/fakeproc/version'', None]\<rparr>)"
    by code_simp
  have l: "length (fp_cache fakeproc_init) = 6" by (simp add: fakeproc_init_def)
  show ?thesis
    using sp_fakeproc_host_path_stable [OF l a] a by simp
qed

text \<open>
  The working directory is matched by bytes: a sibling of the rootfs whose name merely starts
  like it is stripped in the middle of the name.
\<close>

lemma xf_join_sibling:
  "xf_join (demo_x\<lparr>x_cwd := Some ''/rother/d''\<rparr>) ''f'' = Some ''other/d/f''"
  by code_simp

text \<open>A shadowed path that \<^verbatim>\<open>sp_translate_f\<close> declines is returned in a dead frame.\<close>

lemma xf_dead_frame:
  "fst (sp_translate_xf (demo_x\<lparr>x_shadow := (\<lambda>_. Rewritten ''/dev/x'')\<rparr>) x_empty (Some ''/m/x'') False) = Frame ''/dev/x''"
  by code_simp

text \<open>Only seven bytes of a link are read in the last chase.\<close>

lemma l2s_cuts_links:
  "l2s_step (demo_x\<lparr>x_lst := (\<lambda>p. Link ''longer-name'')\<rparr>) ''/r/l'' = Continue ''/r/longer-''"
  by code_simp

end
