(* ===== verification/Sprout_Arena.thy ===== *)
theory Sprout_Arena
  imports Sprout_Prelude
begin

text \<open>
  The memory side of the emulator lane (\<^verbatim>\<open>sprout_preload.c\<close>, from \<^verbatim>\<open>sp_release_res\<close> to the end of
  the file): the release of address-space reservations that an explicit \<^verbatim>\<open>mmap\<close> overlaps, the
  \<^verbatim>\<open>mmap\<close> that retries below 4 GB, and the allocator that replaces \<^verbatim>\<open>malloc\<close> with blocks from
  low pools. Addresses and sizes are 64-bit words with C's wrap-around; the block headers are an
  explicit store from addresses to headers, and the free lists are the chains that the headers'
  \<^verbatim>\<open>next\<close> pointers form in it.

  The kernel's \<^verbatim>\<open>mmap\<close> and \<^verbatim>\<open>munmap\<close> and the C library's own allocator are parameters. What the
  lemmas rely on of the kernel is \<open>mm_ok\<close>: an anonymous mapping without MAP_FIXED is page aligned
  and disjoint from everything mapped, and \<^verbatim>\<open>munmap\<close> of an unaligned address changes nothing.
\<close>

unbundle bit_operations_syntax

section \<open>Address-space reservations\<close>

type_synonym span = "u64 \<times> u64"

definition RES_MAX :: nat where
  "RES_MAX = 64"

text \<open>
  The loop of \<^verbatim>\<open>sp_release_res\<close> over \<^verbatim>\<open>g_res_a\<close>, \<^verbatim>\<open>g_res_b\<close> (the first \<^verbatim>\<open>g_res_n\<close> entries, here the
  list \<open>rs\<close>): the overlap of entry \<open>i\<close> with \<open>[a, b)\<close> is unmapped (recorded in \<open>um\<close> as the arguments
  of \<^verbatim>\<open>munmap\<close>), and what is left of the entry replaces it.
\<close>

definition sp_overlap :: "u64 \<Rightarrow> u64 \<Rightarrow> span \<Rightarrow> span" where
  "sp_overlap a b e = (if fst e < a then a else fst e, if b < snd e then b else snd e)"

definition overlapping :: "u64 \<Rightarrow> u64 \<Rightarrow> span \<Rightarrow> bool" where
  "overlapping a b e \<longleftrightarrow> fst (sp_overlap a b e) < snd (sp_overlap a b e)"

definition sp_release_entry ::
  "u64 \<Rightarrow> u64 \<Rightarrow> nat \<Rightarrow> span list \<Rightarrow> nat \<times> span list" where
  "sp_release_entry a b i rs =
     (let (ea, eb) = rs ! i;
          (lo, hi) = sp_overlap a b (rs ! i);
          keep1 = (ea < lo);
          keep2 = (hi < eb) in
      if keep1 \<and> keep2 then
        (if length rs < RES_MAX then (Suc i, rs[i := (ea, lo)] @ [(hi, eb)])
         else if eb - hi \<le> lo - ea then (Suc i, rs[i := (ea, lo)])
         else (Suc i, rs[i := (hi, eb)]))
      else if keep1 then (Suc i, rs[i := (ea, lo)])
      else if keep2 then (Suc i, rs[i := (hi, eb)])
      else (i, butlast (rs[i := last rs])))"

text \<open>
  The split of an entry appends to the list being scanned, so the loop is bounded by the number
  of entries still to scan together with the number of those that overlap.
\<close>

definition release_measure :: "u64 \<Rightarrow> u64 \<Rightarrow> nat \<Rightarrow> span list \<Rightarrow> nat" where
  "release_measure a b i rs = length (filter (overlapping a b) (drop i rs)) + (length rs - i)"

lemma split_rest_clear:
  "hi < eb \<Longrightarrow> (lo, hi) = sp_overlap a b (ea, eb) \<Longrightarrow> \<not> overlapping a b (hi, eb)"
  by (auto simp: sp_overlap_def overlapping_def split: if_splits)

lemma split_head_clear:
  "ea < lo \<Longrightarrow> (lo, hi) = sp_overlap a b (ea, eb) \<Longrightarrow> \<not> overlapping a b (ea, lo)"
  by (auto simp: sp_overlap_def overlapping_def split: if_splits)

text \<open>Dropping entry \<open>i\<close> by moving the last entry into its place.\<close>

abbreviation last_first :: "'a list \<Rightarrow> 'a list" where
  "last_first w \<equiv> (if w = [] then [] else last w # butlast w)"

lemma swap_last:
  "butlast ((v @ x # w)[length v := last (v @ x # w)]) = v @ last_first w"
  by (cases w rule: rev_cases) (auto simp: butlast_append)

lemma swap_last_filter:
  "length (filter P (last_first w)) = length (filter P w)"
  by (cases w rule: rev_cases) auto

lemma swap_last_set: "set (last_first w) = set w"
  by (cases w rule: rev_cases) auto

lemma sp_release_entry_append:
  assumes "sp_overlap a b (ea, eb) = (lo, hi)"
  shows "sp_release_entry a b (length v) (v @ (ea, eb) # w) =
     (if ea < lo \<and> hi < eb then
        (if length (v @ w) < RES_MAX - 1 then (Suc (length v), v @ (ea, lo) # w @ [(hi, eb)])
         else if eb - hi \<le> lo - ea then (Suc (length v), v @ (ea, lo) # w)
         else (Suc (length v), v @ (hi, eb) # w))
      else if ea < lo then (Suc (length v), v @ (ea, lo) # w)
      else if hi < eb then (Suc (length v), v @ (hi, eb) # w)
      else (length v, v @ last_first w))"
proof -
  have n: "(length (v @ (ea, eb) # w) < RES_MAX) = (length (v @ w) < RES_MAX - 1)"
    by (auto simp: RES_MAX_def)
  show ?thesis
    unfolding sp_release_entry_def n swap_last nth_append_length assms
    by (simp add: Let_def)
qed

lemma split_at_index:
  assumes "i < length rs"
  obtains v w where "rs = v @ rs ! i # w" and "length v = i"
  using id_take_nth_drop [OF assms] assms by (metis length_take min.absorb4)

lemma sp_release_entry_decreases:
  assumes i: "i < length rs" and o: "overlapping a b (rs ! i)" and e: "sp_release_entry a b i rs = (i', rs')"
  shows "release_measure a b i' rs' < release_measure a b i rs"
proof -
  obtain v w where rs: "rs = v @ rs ! i # w" and v: "length v = i" using split_at_index [OF i] .
  obtain ea eb where r: "rs ! i = (ea, eb)" by (cases "rs ! i")
  obtain lo hi where ov: "sp_overlap a b (ea, eb) = (lo, hi)" by (cases "sp_overlap a b (ea, eb)")
  have rest: "hi < eb \<Longrightarrow> \<not> overlapping a b (hi, eb)" using split_rest_clear ov by metis
  have o': "overlapping a b (ea, eb)" using o r by simp
  have rs': "rs = v @ (ea, eb) # w" using rs r by simp
  have e': "(i', rs') = sp_release_entry a b (length v) (v @ (ea, eb) # w)" using e v rs' by simp
  show ?thesis
    unfolding rs' v [symmetric] using e' o' rest
    by (auto simp: sp_release_entry_append [OF ov] release_measure_def swap_last_filter split: if_splits)
qed

function sp_release_loop ::
  "u64 \<Rightarrow> u64 \<Rightarrow> nat \<Rightarrow> span list \<Rightarrow> span list \<Rightarrow> span list \<times> span list" where
  "sp_release_loop a b i rs um =
     (if length rs \<le> i then (rs, um)
      else if \<not> overlapping a b (rs ! i) then sp_release_loop a b (Suc i) rs um
      else
        (let (lo, hi) = sp_overlap a b (rs ! i);
             (i', rs') = sp_release_entry a b i rs in
         sp_release_loop a b i' rs' (um @ [(lo, hi - lo)])))"
  by pat_completeness auto

termination sp_release_loop
proof (relation "measure (\<lambda>(a, b, i, rs, um). release_measure a b i rs)", goal_cases)
  case 1
  show ?case by simp
next
  case (2 a b i rs um)
  then show ?case by (simp add: release_measure_def Cons_nth_drop_Suc [symmetric])
next
  case (3 a b i rs um x lo hi y i' rs')
  then show ?case using sp_release_entry_decreases [of i rs a b i' rs'] by simp
qed

declare sp_release_loop.simps [simp del]

definition sp_release_res :: "u64 \<Rightarrow> u64 \<Rightarrow> span list \<Rightarrow> span list \<times> span list" where
  "sp_release_res a b rs = (if rs = [] then (rs, []) else sp_release_loop a b 0 rs [])"

text \<open>The addresses a list of entries covers, and those a list of \<^verbatim>\<open>munmap\<close> arguments gives back.\<close>

definition covers :: "span list \<Rightarrow> u64 set" where
  "covers rs = (\<Union>e\<in>set rs. {fst e..<snd e})"

definition unmaps :: "span list \<Rightarrow> u64 set" where
  "unmaps um = (\<Union>(p, n)\<in>set um. {p..<p + n})"

lemma covers_simps [simp]:
  "covers [] = {}" "covers (e # rs) = {fst e..<snd e} \<union> covers rs" "covers (rs @ rs') = covers rs \<union> covers rs'"
  by (auto simp: covers_def)

lemma unmaps_simps [simp]:
  "unmaps [] = {}" "unmaps (um @ [(lo, hi - lo)]) = unmaps um \<union> {lo..<hi}"
  by (auto simp: unmaps_def)

lemma covers_last_first [simp]: "covers (last_first w) = covers w"
  unfolding covers_def swap_last_set by simp

lemma sp_overlap_interval:
  "sp_overlap a b (ea, eb) = (lo, hi) \<Longrightarrow> {lo..<hi} = {ea..<eb} \<inter> {a..<b}"
  by (auto simp: sp_overlap_def split: if_splits)

lemma not_overlapping_disjoint: "\<not> overlapping a b e \<longleftrightarrow> {fst e..<snd e} \<inter> {a..<b} = {}"
  by (auto simp: overlapping_def sp_overlap_def disjoint_iff not_less split: if_splits)

lemma sp_overlap_parts:
  assumes "sp_overlap a b (ea, eb) = (lo, hi)" "overlapping a b (ea, eb)"
  shows "{ea..<lo} \<union> {hi..<eb} = {ea..<eb} - {a..<b}"
  using assms by (auto simp: overlapping_def sp_overlap_def split: if_splits)

lemma sp_release_entry_covers:
  assumes i: "i < length rs" and o: "overlapping a b (rs ! i)" and e: "sp_release_entry a b i rs = (i', rs')"
    and c: "\<forall>e \<in> set (take i rs). \<not> overlapping a b e"
  shows "\<forall>e \<in> set (take i' rs'). \<not> overlapping a b e"
    and "covers rs' \<subseteq> covers rs"
    and "covers rs \<inter> {a..<b} = (covers rs' \<inter> {a..<b}) \<union> {fst (sp_overlap a b (rs ! i))..<snd (sp_overlap a b (rs ! i))}"
    and "length rs < RES_MAX \<Longrightarrow> covers rs - {a..<b} \<subseteq> covers rs'"
    and "length rs \<le> RES_MAX \<Longrightarrow> length rs' \<le> RES_MAX"
    and "length rs + length (filter (overlapping a b) (drop i rs)) \<le> RES_MAX \<Longrightarrow>
      length rs' + length (filter (overlapping a b) (drop i' rs')) \<le> RES_MAX"
proof -
  obtain v w where rs: "rs = v @ rs ! i # w" and v: "length v = i" using split_at_index [OF i] .
  obtain ea eb where r: "rs ! i = (ea, eb)" by (cases "rs ! i")
  obtain lo hi where ov: "sp_overlap a b (ea, eb) = (lo, hi)" by (cases "sp_overlap a b (ea, eb)")
  have o': "overlapping a b (ea, eb)" using o r by simp
  have rs1: "rs = v @ (ea, eb) # w" using rs r by simp
  have e': "(i', rs') = sp_release_entry a b (length v) (v @ (ea, eb) # w)" using e v rs1 by simp
  have rest: "hi < eb \<Longrightarrow> \<not> overlapping a b (hi, eb)" using split_rest_clear ov by metis
  have head: "ea < lo \<Longrightarrow> \<not> overlapping a b (ea, lo)" using split_head_clear ov by metis
  have c': "\<forall>e \<in> set v. \<not> overlapping a b e" using c rs1 v by auto
  note parts = sp_overlap_parts [OF ov o'] and int = sp_overlap_interval [OF ov]
  show "\<forall>e \<in> set (take i' rs'). \<not> overlapping a b e"
    using e' c' rest head by (auto simp: sp_release_entry_append [OF ov] split: if_splits)
  show "covers rs' \<subseteq> covers rs"
    unfolding rs1 using e' parts by (auto simp: sp_release_entry_append [OF ov] split: if_splits)
  show "length rs \<le> RES_MAX \<Longrightarrow> length rs' \<le> RES_MAX"
    unfolding rs1 using e' by (auto simp: sp_release_entry_append [OF ov] split: if_splits)
  show "length rs + length (filter (overlapping a b) (drop i rs)) \<le> RES_MAX \<Longrightarrow>
      length rs' + length (filter (overlapping a b) (drop i' rs')) \<le> RES_MAX"
    unfolding rs1 v [symmetric] using e' o' rest
    by (auto simp: sp_release_entry_append [OF ov] swap_last_filter split: if_splits)
  show "covers rs \<inter> {a..<b} = (covers rs' \<inter> {a..<b}) \<union> {fst (sp_overlap a b (rs ! i))..<snd (sp_overlap a b (rs ! i))}"
  proof -
    have "covers rs' \<inter> {a..<b} = covers (v @ w) \<inter> {a..<b}"
      using e' parts by (auto simp: sp_release_entry_append [OF ov] split: if_splits)
    then show ?thesis unfolding rs1 v [symmetric] using int by (auto simp: ov)
  qed
  show "length rs < RES_MAX \<Longrightarrow> covers rs - {a..<b} \<subseteq> covers rs'"
    unfolding rs1 using e' parts by (auto simp: sp_release_entry_append [OF ov] split: if_splits)
qed

lemma sp_release_loop_correct:
  assumes "sp_release_loop a b i rs um = (rs', um')"
    and "\<forall>e \<in> set (take i rs). \<not> overlapping a b e"
  shows "(\<forall>e \<in> set rs'. \<not> overlapping a b e) \<and> covers rs' \<subseteq> covers rs
    \<and> unmaps um' = unmaps um \<union> (covers rs \<inter> {a..<b})
    \<and> (length rs \<le> RES_MAX \<longrightarrow> length rs' \<le> RES_MAX)
    \<and> (length rs + length (filter (overlapping a b) (drop i rs)) \<le> RES_MAX \<longrightarrow> covers rs - {a..<b} \<subseteq> covers rs')"
  using assms
proof (induction a b i rs um arbitrary: rs' um' rule: sp_release_loop.induct)
  case (1 a b i rs um)
  consider (stop) "length rs \<le> i" | (skip) "i < length rs" "\<not> overlapping a b (rs ! i)"
    | (cut) "i < length rs" "overlapping a b (rs ! i)" by linarith
  then show ?case
  proof cases
    case stop
    with "1.prems" have "rs' = rs" "um' = um" by (simp_all add: sp_release_loop.simps [of a b i])
    moreover have "\<forall>e \<in> set rs. {fst e..<snd e} \<inter> {a..<b} = {}"
      using "1.prems"(2) take_all [OF stop] not_overlapping_disjoint by metis
    then have "covers rs \<inter> {a..<b} = {}" unfolding covers_def by blast
    ultimately show ?thesis using "1.prems"(2) stop by auto
  next
    case skip
    have "sp_release_loop a b (Suc i) rs um = (rs', um')"
      using "1.prems"(1) skip by (simp add: sp_release_loop.simps [of a b i])
    moreover have "\<forall>e \<in> set (take (Suc i) rs). \<not> overlapping a b e"
      using "1.prems"(2) skip by (simp add: take_Suc_conv_app_nth)
    moreover have "filter (overlapping a b) (drop i rs) = filter (overlapping a b) (drop (Suc i) rs)"
      using skip by (simp add: Cons_nth_drop_Suc [symmetric])
    ultimately show ?thesis using "1.IH"(1) skip by simp
  next
    case cut
    obtain lo hi where ov: "sp_overlap a b (rs ! i) = (lo, hi)" by (cases "sp_overlap a b (rs ! i)")
    obtain i' rs1 where e: "sp_release_entry a b i rs = (i', rs1)" by (cases "sp_release_entry a b i rs")
    note c = sp_release_entry_covers [OF cut e "1.prems"(2)]
    have l: "sp_release_loop a b i' rs1 (um @ [(lo, hi - lo)]) = (rs', um')"
      using "1.prems"(1) cut ov e by (simp add: sp_release_loop.simps [of a b i])
    have "\<not> length rs \<le> i" "\<not> \<not> overlapping a b (rs ! i)" using cut by simp_all
    note ih = "1.IH"(2) [OF this ov [symmetric] refl e [symmetric] refl l c(1)]
    have lt: "length rs + length (filter (overlapping a b) (drop i rs)) \<le> RES_MAX \<Longrightarrow> length rs < RES_MAX"
      using cut by (simp add: Cons_nth_drop_Suc [symmetric])
    have trans: "covers rs - {a..<b} \<subseteq> covers rs1 \<Longrightarrow> covers rs1 - {a..<b} \<subseteq> covers rs' \<Longrightarrow> covers rs - {a..<b} \<subseteq> covers rs'"
      by blast
    have "unmaps um' = unmaps um \<union> (covers rs \<inter> {a..<b})" using ih c(3) ov by auto
    moreover have "covers rs' \<subseteq> covers rs" using ih c(2) by blast
    ultimately show ?thesis using ih c(4-6) lt trans by simp
  qed
qed

section \<open>mmap below 4 GB\<close>

record mreq =
  m_addr :: u64
  m_len :: u64
  m_prot :: u32
  m_flags :: u32
  m_fd :: u32
  m_off :: u64

text \<open>The kernel's \<^verbatim>\<open>mmap\<close> and \<^verbatim>\<open>munmap\<close>, threading whatever state \<open>'k\<close> it has.\<close>

record 'k mm =
  mm_map :: "'k \<Rightarrow> mreq \<Rightarrow> u64 \<times> 'k"
  mm_unmap :: "'k \<Rightarrow> u64 \<Rightarrow> u64 \<Rightarrow> 'k"

definition MAP_FAILED :: u64 where
  "MAP_FAILED = - 1"

definition MAP_FIXED_ANY :: u32 where
  "MAP_FIXED_ANY = 0x10 OR 0x100000"

abbreviation LOW_LIMIT :: u64 where
  "LOW_LIMIT \<equiv> 0x100000000"

definition mmap_hints :: "u64 list" where
  "mmap_hints = [0x10000000, 0x20000000, 0x40000000, 0x60000000,
                 0x80000000, 0xA0000000, 0xC0000000, 0xE0000000]"

fun mmap_retry :: "'k mm \<Rightarrow> mreq \<Rightarrow> u64 list \<Rightarrow> 'k \<Rightarrow> u64 option \<times> 'k" where
  "mmap_retry mm rq [] k = (None, k)"
| "mmap_retry mm rq (h # hs) k =
     (let (p, k1) = mm_map mm k (rq\<lparr>m_addr := h\<rparr>) in
      if p \<noteq> MAP_FAILED \<and> p < LOW_LIMIT then (Some p, k1)
      else if p \<noteq> MAP_FAILED then mmap_retry mm rq hs (mm_unmap mm k1 p (m_len rq))
      else mmap_retry mm rq hs k1)"

definition is_fixed :: "mreq \<Rightarrow> bool" where
  "is_fixed rq \<longleftrightarrow> m_flags rq AND MAP_FIXED_ANY \<noteq> 0"

definition mmap_release :: "'k mm \<Rightarrow> mreq \<Rightarrow> span list \<Rightarrow> 'k \<Rightarrow> span list \<times> 'k" where
  "mmap_release mm rq rs k =
     (if rs \<noteq> [] \<and> m_addr rq \<noteq> 0 \<and> m_addr rq \<noteq> MAP_FAILED \<and> is_fixed rq
      then (let (rs', um) = sp_release_res (m_addr rq) (m_addr rq + m_len rq) rs in
            (rs', fold (\<lambda>(p, n) k. mm_unmap mm k p n) um k))
      else (rs, k))"

definition sp_mmap :: "'k mm \<Rightarrow> bool \<Rightarrow> mreq \<Rightarrow> span list \<Rightarrow> 'k \<Rightarrow> u64 \<times> span list \<times> 'k" where
  "sp_mmap mm emu32_low rq rs k =
     (let (rs1, k1) = mmap_release mm rq rs k;
          (r, k2) = mm_map mm k1 rq in
      if \<not> emu32_low \<or> r = MAP_FAILED then (r, rs1, k2)
      else if r < LOW_LIMIT then (r, rs1, k2)
      else if is_fixed rq then (r, rs1, k2)
      else
        (case mmap_retry mm rq mmap_hints (mm_unmap mm k2 r (m_len rq)) of
           (Some h, k3) \<Rightarrow> (h, rs1, k3)
         | (None, k3) \<Rightarrow> (let (r', k4) = mm_map mm k3 rq in (r', rs1, k4))))"

section \<open>The block headers and the pools\<close>

record sp_blk =
  magic :: u32
  cls :: u32
  bsize :: u32
  nextp :: u64

record arena =
  hdrs :: "u64 \<Rightarrow> sp_blk"
  g_free :: "u64 list"
  g_bump :: u64
  g_bump_left :: u64

definition SP_ARENA_MAGIC :: u32 where
  "SP_ARENA_MAGIC = 0x53504131"

definition SP_BOOT_MAGIC :: u32 where
  "SP_BOOT_MAGIC = 0x53504133"

text \<open>\<^verbatim>\<open>sizeof(sp_blk)\<close>: four 32-bit fields and a pointer.\<close>

abbreviation HDR :: u64 where
  "HDR \<equiv> 24"

definition sp_in_pool :: "u64 \<Rightarrow> bool" where
  "sp_in_pool q \<longleftrightarrow> 0x10000000 \<le> q \<and> q < LOW_LIMIT"

text \<open>
  \<^verbatim>\<open>size_t c = 32; cls = 4; while (c < sz) { c <<= 1; cls++; }\<close>: entered with \<open>sz \<le> 2 ^ 20\<close>, it
  makes at most 15 iterations, so 16 steps let it return.
\<close>

definition class_step :: "u64 \<Rightarrow> u64 \<times> u32 \<Rightarrow> (u64 \<times> u32, u64 \<times> u32) hop" where
  "class_step sz s = (case s of (c, n) \<Rightarrow> if c < sz then Continue (push_bit 1 c, n + 1) else Return (c, n))"

definition size_class :: "u64 \<Rightarrow> u64 \<times> u32" where
  "size_class sz = (case hop_loop (class_step sz) 16 (32, 4) of Return r \<Rightarrow> r | Continue s \<Rightarrow> s)"

definition round16 :: "u64 \<Rightarrow> u64" where
  "round16 n = (n + 15) AND NOT 15"

definition block_size :: "u64 \<Rightarrow> u64 \<times> u32" where
  "block_size need = (let sz = round16 need in if sz \<le> 0x100000 then size_class sz else (sz, 0))"

text \<open>The length of a new pool, and the request that maps it.\<close>

definition pool_len :: "u64 \<Rightarrow> u64 \<Rightarrow> u64" where
  "pool_len sz align = (sz + HDR + align + 0x400000) AND NOT 0xfff"

definition pool_req :: "u64 \<Rightarrow> mreq" where
  "pool_req len = \<lparr>m_addr = 0x20000000, m_len = len, m_prot = 3, m_flags = 0x22, m_fd = - 1, m_off = 0\<rparr>"

definition arena_refill :: "'k mm \<Rightarrow> u64 \<Rightarrow> u64 \<Rightarrow> arena \<Rightarrow> 'k \<Rightarrow> arena option \<times> 'k" where
  "arena_refill mm sz align st k =
     (if g_bump st = 0 \<or> g_bump_left st < sz + HDR + align then
        (let pool = pool_len sz align;
             (p, k1) = mm_map mm k (pool_req pool) in
         if p = MAP_FAILED then (None, k1)
         else if \<not> sp_in_pool p then (None, mm_unmap mm k1 p pool)
         else (Some (st\<lparr>g_bump := p, g_bump_left := pool\<rparr>), k1))
      else (Some st, k))"

definition arena_carve :: "u64 \<Rightarrow> u64 \<Rightarrow> arena \<Rightarrow> u64 \<times> arena" where
  "arena_carve sz align st =
     (let base = (g_bump st + HDR + (align - 1)) AND NOT (align - 1);
          used = base + sz - g_bump st in
      (base - HDR, st\<lparr>g_bump := g_bump st + used, g_bump_left := g_bump_left st - used\<rparr>))"

definition arena_stamp :: "u64 \<Rightarrow> u64 \<Rightarrow> u32 \<Rightarrow> arena \<Rightarrow> arena" where
  "arena_stamp b sz c st =
     st\<lparr>hdrs := (hdrs st)(b := \<lparr>magic = SP_ARENA_MAGIC, cls = c, bsize = ucast sz, nextp = 0\<rparr>)\<rparr>"

definition sp_arena_alloc :: "'k mm \<Rightarrow> u64 \<Rightarrow> u64 \<Rightarrow> arena \<Rightarrow> 'k \<Rightarrow> u64 \<times> arena \<times> 'k" where
  "sp_arena_alloc mm need align0 st k =
     (let align = (if align0 < 16 then 16 else align0);
          (sz, c) = block_size need in
      if c \<noteq> 0 \<and> g_free st ! unat c \<noteq> 0 then
        (let b = g_free st ! unat c;
             st1 = st\<lparr>g_free := (g_free st)[unat c := nextp (hdrs st b)]\<rparr> in
         (b + HDR, arena_stamp b sz c st1, k))
      else
        (case arena_refill mm sz align st k of
           (None, k1) \<Rightarrow> (0, st, k1)
         | (Some st1, k1) \<Rightarrow>
             (let (b, st2) = arena_carve sz align st1 in
              (b + HDR, arena_stamp b sz c st2, k1))))"

text \<open>The branch of \<^verbatim>\<open>free\<close> for a block of the arena.\<close>

definition arena_free :: "'k mm \<Rightarrow> u64 \<Rightarrow> arena \<Rightarrow> 'k \<Rightarrow> arena \<times> 'k" where
  "arena_free mm q st k =
     (let b = q - HDR;
          c = cls (hdrs st b) in
      if c \<noteq> 0 \<and> c < 20 then
        (st\<lparr>hdrs := (hdrs st)(b := (hdrs st b)\<lparr>nextp := g_free st ! unat c\<rparr>),
            g_free := (g_free st)[unat c := b]\<rparr>, k)
      else (st, mm_unmap mm k b (ucast (bsize (hdrs st b)) + HDR)))"

section \<open>The malloc family\<close>

text \<open>
  The wrappers around the arena. \<open>dl_malloc\<close> and the like are what \<^verbatim>\<open>dlsym\<close> finds (the C library's
  functions, from arguments to the returned pointer, 0 being NULL) and \<open>h_malloc\<close> the pointer cached by an
  earlier call; \<open>bytes\<close> is the memory that \<^verbatim>\<open>memset\<close> and \<^verbatim>\<open>memcpy\<close> write, and \<open>real_frees\<close> lists the
  pointers handed to the library's \<^verbatim>\<open>free\<close>. Before \<^verbatim>\<open>malloc\<close> can be resolved, blocks come from the
  static buffer \<^verbatim>\<open>g_boot\<close> at \<open>boot_base\<close>.
\<close>

record hcfg =
  emu32_low :: bool
  boot_base :: u64
  dl_malloc :: "(u64 \<Rightarrow> u64) option"
  dl_calloc :: "(u64 \<Rightarrow> u64 \<Rightarrow> u64) option"
  dl_realloc :: "(u64 \<Rightarrow> u64 \<Rightarrow> u64) option"
  dl_free :: bool
  dl_posix_memalign :: "(u64 \<Rightarrow> u64 \<Rightarrow> errno option \<times> u64) option"
  dl_memalign :: "(u64 \<Rightarrow> u64 \<Rightarrow> u64) option"
  dl_aligned_alloc :: "(u64 \<Rightarrow> u64 \<Rightarrow> u64) option"

record heap =
  ar :: arena
  boot_off :: u64
  bytes :: "u64 \<Rightarrow> u8"
  h_malloc :: "(u64 \<Rightarrow> u64) option"
  real_frees :: "u64 list"

definition BOOT_SIZE :: u64 where
  "BOOT_SIZE = 0x10000"

definition boot_alloc :: "hcfg \<Rightarrow> u64 \<Rightarrow> heap \<Rightarrow> u64 \<times> heap" where
  "boot_alloc cf n h =
     (let need = round16 n + HDR in
      if BOOT_SIZE < boot_off h + need then (0, h)
      else
        (let b = boot_base cf + boot_off h;
             hd = \<lparr>magic = SP_BOOT_MAGIC, cls = 0, bsize = ucast n, nextp = 0\<rparr> in
         (b + HDR, h\<lparr>boot_off := boot_off h + need, ar := (ar h)\<lparr>hdrs := (hdrs (ar h))(b := hd)\<rparr>\<rparr>)))"

definition sp_malloc :: "hcfg \<Rightarrow> 'k mm \<Rightarrow> u64 \<Rightarrow> heap \<Rightarrow> 'k \<Rightarrow> u64 \<times> heap \<times> 'k" where
  "sp_malloc cf mm n h k =
     (if \<not> emu32_low cf then
        (let h1 = (if h_malloc h = None then h\<lparr>h_malloc := dl_malloc cf\<rparr> else h) in
         case h_malloc h1 of
           Some f \<Rightarrow> (f n, h1, k)
         | None \<Rightarrow> (let (r, h2) = boot_alloc cf n h1 in (r, h2, k)))
      else
        (let (r, a, k1) = sp_arena_alloc mm n 16 (ar h) k;
             h1 = h\<lparr>ar := a\<rparr> in
         (if r \<noteq> 0 then r else (case h_malloc h of Some f \<Rightarrow> f n | None \<Rightarrow> 0), h1, k1)))"

definition mem_zero :: "u64 \<Rightarrow> u64 \<Rightarrow> (u64 \<Rightarrow> u8) \<Rightarrow> u64 \<Rightarrow> u8" where
  "mem_zero r n m x = (if x - r < n then 0 else m x)"

definition mem_copy :: "u64 \<Rightarrow> u64 \<Rightarrow> u64 \<Rightarrow> (u64 \<Rightarrow> u8) \<Rightarrow> u64 \<Rightarrow> u8" where
  "mem_copy r q n m x = (if x - r < n then m (q + (x - r)) else m x)"

definition sp_calloc :: "hcfg \<Rightarrow> 'k mm \<Rightarrow> u64 \<Rightarrow> u64 \<Rightarrow> heap \<Rightarrow> 'k \<Rightarrow> u64 \<times> heap \<times> 'k" where
  "sp_calloc cf mm a b h k =
     (let n = a * b in
      if b \<noteq> 0 \<and> n div b \<noteq> a then (0, h, k)
      else if \<not> emu32_low cf then
        (case dl_calloc cf of
           Some f \<Rightarrow> (f a b, h, k)
         | None \<Rightarrow>
             (let (r, h1, k1) = sp_malloc cf mm n h k in
              (r, if r \<noteq> 0 then h1\<lparr>bytes := mem_zero r n (bytes h1)\<rparr> else h1, k1)))
      else
        (let (r, a1, k1) = sp_arena_alloc mm (if n \<noteq> 0 then n else 1) 16 (ar h) k;
             h1 = h\<lparr>ar := a1\<rparr> in
         if r = 0 then (0, h1, k1)
         else (r, h1\<lparr>bytes := mem_zero r n (bytes h1)\<rparr>, k1)))"

definition in_boot :: "hcfg \<Rightarrow> u64 \<Rightarrow> bool" where
  "in_boot cf q \<longleftrightarrow> boot_base cf < q \<and> q < boot_base cf + BOOT_SIZE"

definition arena_owned :: "hcfg \<Rightarrow> heap \<Rightarrow> u64 \<Rightarrow> bool" where
  "arena_owned cf h b \<longleftrightarrow> emu32_low cf \<and> sp_in_pool b \<and> magic (hdrs (ar h) b) = SP_ARENA_MAGIC"

definition sp_free :: "hcfg \<Rightarrow> 'k mm \<Rightarrow> u64 \<Rightarrow> heap \<Rightarrow> 'k \<Rightarrow> heap \<times> 'k" where
  "sp_free cf mm q h k =
     (let b = q - HDR in
      if q = 0 then (h, k)
      else if in_boot cf q then (h, k)
      else if sp_in_pool b \<and> magic (hdrs (ar h) b) = SP_BOOT_MAGIC then (h, k)
      else if arena_owned cf h b then
        (let (a, k1) = arena_free mm q (ar h) k in (h\<lparr>ar := a\<rparr>, k1))
      else (if dl_free cf then h\<lparr>real_frees := real_frees h @ [q]\<rparr> else h, k))"

definition sp_realloc :: "hcfg \<Rightarrow> 'k mm \<Rightarrow> u64 \<Rightarrow> u64 \<Rightarrow> heap \<Rightarrow> 'k \<Rightarrow> u64 \<times> heap \<times> 'k" where
  "sp_realloc cf mm q n h k =
     (let b = q - HDR;
          bs = ucast (bsize (hdrs (ar h) b)) in
      if q = 0 then sp_malloc cf mm n h k
      else if n = 0 then (let (h1, k1) = sp_free cf mm q h k in (0, h1, k1))
      else if \<not> arena_owned cf h b then
        ((case dl_realloc cf of Some f \<Rightarrow> f q n | None \<Rightarrow> 0), h, k)
      else if n \<le> bs then (q, h, k)
      else
        (let (r, h1, k1) = sp_malloc cf mm n h k;
             h2 = (if r \<noteq> 0 then h1\<lparr>bytes := mem_copy r q bs (bytes h1)\<rparr> else h1);
             (h3, k2) = sp_free cf mm q h2 k1 in
         (r, h3, k2)))"

definition sp_posix_memalign ::
  "hcfg \<Rightarrow> 'k mm \<Rightarrow> u64 option \<Rightarrow> u64 \<Rightarrow> u64 \<Rightarrow> heap \<Rightarrow> 'k \<Rightarrow> errno option \<times> u64 option \<times> heap \<times> 'k" where
  "sp_posix_memalign cf mm out align n h k =
     (case out of
        None \<Rightarrow> (Some EINVAL, out, h, k)
      | Some _ \<Rightarrow>
          if align < 8 \<or> align AND (align - 1) \<noteq> 0 then (Some EINVAL, out, h, k)
          else if \<not> emu32_low cf then
            (case dl_posix_memalign cf of
               Some f \<Rightarrow> (let (e, p) = f align n in (e, if e = None then Some p else out, h, k))
             | None \<Rightarrow> (Some ENOMEM, out, h, k))
          else
            (let (r, a, k1) = sp_arena_alloc mm n (if 16 < align then align else 16) (ar h) k;
                 h1 = h\<lparr>ar := a\<rparr> in
             if r = 0 then (Some ENOMEM, out, h1, k1) else (None, Some r, h1, k1)))"

definition sp_memalign_via ::
  "(u64 \<Rightarrow> u64 \<Rightarrow> u64) option \<Rightarrow> hcfg \<Rightarrow> 'k mm \<Rightarrow> u64 \<Rightarrow> u64 \<Rightarrow> heap \<Rightarrow> 'k \<Rightarrow> u64 \<times> heap \<times> 'k" where
  "sp_memalign_via dl cf mm align0 n h k =
     (let align = (if align0 = 0 then 16 else align0) in
      if \<not> emu32_low cf then ((case dl of Some f \<Rightarrow> f align n | None \<Rightarrow> 0), h, k)
      else
        (let (r, a, k1) = sp_arena_alloc mm n (if 16 < align then align else 16) (ar h) k in
         (r, h\<lparr>ar := a\<rparr>, k1)))"

definition sp_memalign :: "hcfg \<Rightarrow> 'k mm \<Rightarrow> u64 \<Rightarrow> u64 \<Rightarrow> heap \<Rightarrow> 'k \<Rightarrow> u64 \<times> heap \<times> 'k" where
  "sp_memalign cf = sp_memalign_via (dl_memalign cf) cf"

definition sp_aligned_alloc :: "hcfg \<Rightarrow> 'k mm \<Rightarrow> u64 \<Rightarrow> u64 \<Rightarrow> heap \<Rightarrow> 'k \<Rightarrow> u64 \<times> heap \<times> 'k" where
  "sp_aligned_alloc cf = sp_memalign_via (dl_aligned_alloc cf) cf"

section \<open>Lemmas: release and retry\<close>

text \<open>
  What the kernel promises: \<open>mapped k\<close> is the set of mapped addresses. A mapping without MAP_FIXED
  is page aligned, ends below the top of the address space and overlaps nothing mapped; a failed
  one changes nothing; \<^verbatim>\<open>munmap\<close> takes whole pages away and refuses an unaligned address.
\<close>

definition pages :: "u64 \<Rightarrow> u64 \<Rightarrow> nat set" where
  "pages p n = {unat p..<unat p + (unat n + 4095) div 4096 * 4096}"

definition mm_ok :: "'k mm \<Rightarrow> ('k \<Rightarrow> nat set) \<Rightarrow> bool" where
  "mm_ok mm mapped \<longleftrightarrow>
     (\<forall>k rq p k'. mm_map mm k rq = (p, k') \<longrightarrow> \<not> is_fixed rq \<longrightarrow>
        (if p = MAP_FAILED then mapped k' = mapped k
         else 4096 dvd unat p \<and> unat p + unat (m_len rq) < 2 ^ 64
              \<and> pages p (m_len rq) \<inter> mapped k = {} \<and> mapped k' = mapped k \<union> pages p (m_len rq))) \<and>
     (\<forall>k p n. mapped (mm_unmap mm k p n) = (if 4096 dvd unat p then mapped k - pages p n else mapped k))"

lemma mm_ok_map:
  assumes "mm_ok mm mapped" "mm_map mm k rq = (p, k')" "\<not> is_fixed rq"
  shows "p = MAP_FAILED \<Longrightarrow> mapped k' = mapped k"
    and "p \<noteq> MAP_FAILED \<Longrightarrow> 4096 dvd unat p \<and> unat p + unat (m_len rq) < 2 ^ 64
      \<and> pages p (m_len rq) \<inter> mapped k = {} \<and> mapped k' = mapped k \<union> pages p (m_len rq)"
  using assms unfolding mm_ok_def by (auto split: if_splits)

lemma mm_ok_unmap:
  "mm_ok mm mapped \<Longrightarrow> mapped (mm_unmap mm k p n) = (if 4096 dvd unat p then mapped k - pages p n else mapped k)"
  unfolding mm_ok_def by blast

lemma mm_ok_map_unmap:
  assumes "mm_ok mm mapped" "mm_map mm k rq = (p, k')" "\<not> is_fixed rq" "p \<noteq> MAP_FAILED"
  shows "mapped (mm_unmap mm k' p (m_len rq)) = mapped k"
proof -
  note m = mm_ok_map(2) [OF assms]
  then have "mapped k' - pages p (m_len rq) = mapped k" by blast
  with m show ?thesis by (simp add: mm_ok_unmap [OF assms(1)])
qed

lemma is_fixed_addr [simp]: "is_fixed (rq\<lparr>m_addr := h\<rparr>) = is_fixed rq"
  by (simp add: is_fixed_def)

lemma mmap_retry_mapped:
  assumes "mm_ok mm mapped" "\<not> is_fixed rq" "mmap_retry mm rq hs k = (r, k')"
  shows "case r of None \<Rightarrow> mapped k' = mapped k
    | Some p \<Rightarrow> p < LOW_LIMIT \<and> p \<noteq> MAP_FAILED \<and> pages p (m_len rq) \<inter> mapped k = {} \<and> mapped k' = mapped k \<union> pages p (m_len rq)"
  using assms(3)
proof (induction hs arbitrary: k)
  case Nil
  then show ?case by auto
next
  case (Cons h hs)
  obtain p k1 where m: "mm_map mm k (rq\<lparr>m_addr := h\<rparr>) = (p, k1)" by (cases "mm_map mm k (rq\<lparr>m_addr := h\<rparr>)")
  have nf: "\<not> is_fixed (rq\<lparr>m_addr := h\<rparr>)" using assms(2) by simp
  consider (hit) "p \<noteq> MAP_FAILED" "p < LOW_LIMIT" | (high) "p \<noteq> MAP_FAILED" "\<not> p < LOW_LIMIT" | (fail) "p = MAP_FAILED"
    by blast
  then show ?case
  proof cases
    case hit
    with Cons.prems m have "r = Some p" "k' = k1" by auto
    then show ?thesis using mm_ok_map(2) [OF assms(1) m nf hit(1)] hit by simp
  next
    case high
    with Cons.prems m have "mmap_retry mm rq hs (mm_unmap mm k1 p (m_len rq)) = (r, k')" by (simp add: Let_def)
    from Cons.IH [OF this] show ?thesis
      using mm_ok_map_unmap [OF assms(1) m nf high(1)] by (cases r) simp_all
  next
    case fail
    with Cons.prems m have "mmap_retry mm rq hs k1 = (r, k')" by (simp add: Let_def)
    from Cons.IH [OF this] show ?thesis using mm_ok_map(1) [OF assms(1) m nf fail] by (cases r) simp_all
  qed
qed

section \<open>Lemmas: block sizes and placement\<close>

lemma class_loop_bounds:
  assumes "n + m = 20" "m \<noteq> 0" "unat sz \<le> 2 ^ 20"
  shows "\<exists>n' \<ge> n. n' < 20 \<and> unat sz \<le> 2 ^ (n' + 1) \<and>
    hop_loop (class_step sz) m (word_of_nat (2 ^ (n + 1)), word_of_nat n) =
      Return (word_of_nat (2 ^ (n' + 1)), word_of_nat n')"
  using assms(1,2)
proof (induction m arbitrary: n)
  case 0
  then show ?case by simp
next
  case (Suc m)
  have n: "n < 20" using Suc.prems by simp
  have "(2 :: nat) ^ (n + 1) < 2 ^ 64" by (rule power_strict_increasing) (use n in auto)
  then have lt: "word_of_nat (2 ^ (n + 1)) < sz \<longleftrightarrow> 2 ^ (n + 1) < unat sz"
    by (simp only: word_less_nat_alt) (subst unat_of_nat_small, auto)
  have push: "push_bit 1 (word_of_nat (2 ^ (n + 1)) :: u64) = word_of_nat (2 ^ (Suc n + 1))"
    by (simp add: push_bit_eq_mult mult.commute)
  have inc: "(word_of_nat n :: u32) + 1 = word_of_nat (Suc n)" by simp
  show ?case
  proof (cases "2 ^ (n + 1) < unat sz")
    case True
    have "m \<noteq> 0"
    proof
      assume "m = 0"
      with Suc.prems have "n = 19" by simp
      with True assms(3) show False by simp
    qed
    then have "\<exists>n' \<ge> Suc n. n' < 20 \<and> unat sz \<le> 2 ^ (n' + 1) \<and>
      hop_loop (class_step sz) m (word_of_nat (2 ^ (Suc n + 1)), word_of_nat (Suc n)) =
        Return (word_of_nat (2 ^ (n' + 1)), word_of_nat n')"
      using Suc.IH [of "Suc n"] Suc.prems by simp
    moreover have "hop_loop (class_step sz) (Suc m) (word_of_nat (2 ^ (n + 1)), word_of_nat n) =
        hop_loop (class_step sz) m (word_of_nat (2 ^ (Suc n + 1)), word_of_nat (Suc n))"
      using True lt push inc by (simp only: hop_loop.simps class_step_def prod.case if_True hop.case)
    ultimately show ?thesis by (auto simp del: hop_loop.simps dest: Suc_leD)
  next
    case False
    then have "hop_loop (class_step sz) (Suc m) (word_of_nat (2 ^ (n + 1)), word_of_nat n) =
        Return (word_of_nat (2 ^ (n + 1)), word_of_nat n)"
      using lt by (simp only: hop_loop.simps class_step_def prod.case if_False hop.case)
    then show ?thesis using False n by (intro exI [of _ n]) (simp del: hop_loop.simps)
  qed
qed

lemma size_class_bounds:
  assumes "sz \<le> 0x100000"
  shows "\<exists>n. size_class sz = (word_of_nat (2 ^ (n + 1)), word_of_nat n) \<and> 4 \<le> n \<and> n < 20
    \<and> unat sz \<le> 2 ^ (n + 1) \<and> hop_loop (class_step sz) 16 (32, 4) = Return (size_class sz)"
proof -
  have "unat sz \<le> 2 ^ 20" using assms by (simp add: word_le_nat_alt)
  then obtain n' where n': "4 \<le> n'" "n' < 20" "unat sz \<le> 2 ^ (n' + 1)"
    "hop_loop (class_step sz) 16 (word_of_nat (2 ^ (4 + 1)), word_of_nat 4) = Return (word_of_nat (2 ^ (n' + 1)), word_of_nat n')"
    using class_loop_bounds [of 4 16 sz] by auto
  have "(word_of_nat (2 ^ (4 + 1)), word_of_nat 4) = (32 :: u64, 4 :: u32)" by simp
  with n' show ?thesis by (intro exI [of _ n']) (simp add: size_class_def del: hop_loop.simps)
qed

lemma not_15: "NOT (15 :: u64) = NOT (mask 4)"
  by (simp add: mask_eq_exp_minus_1)

lemma round16_bounds:
  assumes "unat n \<le> 2 ^ 31"
  shows "unat n \<le> unat (round16 n)" "16 dvd unat (round16 n)" "unat (round16 n) \<le> 2 ^ 31 + 15"
proof -
  have a: "unat (n + 15) = unat n + 15" using assms by (subst unat_add_small) auto
  have r: "unat (round16 n) = (unat n + 15) div 16 * 16"
    unfolding round16_def not_15 unat_and_not_mask a by simp
  show "unat n \<le> unat (round16 n)" "16 dvd unat (round16 n)" "unat (round16 n) \<le> 2 ^ 31 + 15"
    unfolding r using assms by auto
qed

lemma block_size_bounds:
  assumes "unat need \<le> 2 ^ 31" "block_size need = (sz, c)"
  shows "unat need \<le> unat sz" "16 dvd unat sz" "unat sz \<le> 2 ^ 31 + 15"
    and "c = 0 \<or> 4 \<le> unat c \<and> unat c < 20 \<and> unat sz = 2 ^ (unat c + 1)"
proof -
  note r = round16_bounds [OF assms(1)]
  have "unat need \<le> unat sz \<and> 16 dvd unat sz \<and> unat sz \<le> 2 ^ 31 + 15
    \<and> (c = 0 \<or> 4 \<le> unat c \<and> unat c < 20 \<and> unat sz = 2 ^ (unat c + 1))"
  proof (cases "round16 need \<le> 0x100000")
    case True
    from size_class_bounds [OF this] obtain n where n: "4 \<le> n" "n < 20" "unat (round16 need) \<le> 2 ^ (n + 1)"
      "size_class (round16 need) = (word_of_nat (2 ^ (n + 1)), word_of_nat n)" by blast
    have e: "sz = word_of_nat (2 ^ (n + 1))" "c = word_of_nat n"
      using assms(2) True n(4) by (simp_all add: block_size_def)
    have le: "(2 :: nat) ^ (n + 1) \<le> 2 ^ 20" by (rule power_increasing) (use n in auto)
    have s: "unat sz = 2 ^ (n + 1)" unfolding e(1) by (rule unat_of_nat_small) (use le in simp)
    have c: "unat c = n" unfolding e(2) by (rule unat_of_nat_small) (use n in simp)
    have "(2 :: nat) ^ 4 dvd 2 ^ (n + 1)" by (rule le_imp_power_dvd) (use n in simp)
    then show ?thesis using s c n r le by simp
  next
    case False
    then have "sz = round16 need" "c = 0" using assms(2) by (simp_all add: block_size_def)
    then show ?thesis using r by simp
  qed
  then show "unat need \<le> unat sz" "16 dvd unat sz" "unat sz \<le> 2 ^ 31 + 15"
    "c = 0 \<or> 4 \<le> unat c \<and> unat c < 20 \<and> unat sz = 2 ^ (unat c + 1)" by auto
qed

lemma round_up_nat:
  assumes "(0 :: nat) < m"
  shows "x \<le> (x + (m - 1)) div m * m" "(x + (m - 1)) div m * m \<le> x + (m - 1)"
proof -
  have "x + (m - 1) = (x + (m - 1)) div m * m + (x + (m - 1)) mod m" by simp
  moreover have "(x + (m - 1)) mod m \<le> m - 1" using assms by (simp add: Suc_leI less_Suc_eq_le [symmetric])
  ultimately show "x \<le> (x + (m - 1)) div m * m" by linarith
  show "(x + (m - 1)) div m * m \<le> x + (m - 1)" by simp
qed

lemma carve_bounds:
  assumes b: "unat (g_bump st) + unat (g_bump_left st) < 2 ^ 64"
    and a: "4 \<le> a" "a \<le> 31" and sz: "unat sz \<le> 2 ^ 31 + 15"
    and room: "unat sz + 24 + 2 ^ a \<le> unat (g_bump_left st)"
    and c: "arena_carve sz (2 ^ a) st = (blk, st')"
  shows "unat (g_bump st) \<le> unat blk" and "2 ^ a dvd unat blk + 24"
    and "unat (blk + HDR) = unat blk + 24"
    and "unat (g_bump st') = unat blk + 24 + unat sz"
    and "unat (g_bump st') + unat (g_bump_left st') = unat (g_bump st) + unat (g_bump_left st)"
    and "hdrs st' = hdrs st" "g_free st' = g_free st"
proof -
  let ?B = "unat (g_bump st)" and ?m = "(2 :: nat) ^ a"
  have am: "(2 :: nat) ^ a \<le> 2 ^ 31" by (rule power_increasing) (use a in auto)
  have m1: "(2 ^ a - 1 :: u64) = mask a" by (simp add: mask_eq_exp_minus_1)
  have "(mask a :: u64) = word_of_nat (?m - 1)" by (simp add: mask_eq_exp_minus_1 of_nat_diff)
  then have um: "unat (mask a :: u64) = ?m - 1"
    by (simp only:) (rule unat_of_nat_small, use am in simp)
  have s1: "unat (g_bump st + HDR) = ?B + 24"
    using b room by (subst unat_add_small) auto
  have s2: "unat (g_bump st + HDR + mask a) = ?B + 24 + (?m - 1)"
    using b room by (subst unat_add_small) (auto simp: s1 um)
  define base where "base = (g_bump st + HDR + mask a) AND NOT (mask a)"
  have ub: "unat base = (?B + 24 + (?m - 1)) div ?m * ?m"
    unfolding base_def unat_and_not_mask s2 by simp
  have lo: "?B + 24 \<le> unat base" and hi: "unat base \<le> ?B + 24 + (?m - 1)"
    unfolding ub using round_up_nat [of ?m "?B + 24"] by simp_all
  have e: "blk = base - HDR" "g_bump st' = base + sz" "g_bump_left st' = g_bump_left st - (base + sz - g_bump st)"
    "hdrs st' = hdrs st" "g_free st' = g_free st"
    using c by (auto simp: arena_carve_def m1 base_def Let_def)
  have blk: "unat blk = unat base - 24"
    unfolding e(1) by (subst unat_diff_small) (use lo in \<open>auto simp: word_le_nat_alt\<close>)
  have end_: "unat (base + sz) = unat base + unat sz"
    by (rule unat_add_small) (use hi b room in simp)
  have used: "unat (base + sz - g_bump st) = unat base + unat sz - ?B"
    by (subst unat_diff_small) (use lo end_ in \<open>auto simp: word_le_nat_alt\<close>)
  have left: "unat (g_bump_left st') = unat (g_bump_left st) - (unat base + unat sz - ?B)"
    unfolding e(3) by (subst unat_diff_small) (use hi room used in \<open>auto simp: word_le_nat_alt\<close>)
  show "?B \<le> unat blk" using blk lo by simp
  show "2 ^ a dvd unat blk + 24" using blk lo ub by simp
  show "unat (blk + HDR) = unat blk + 24" using blk lo by (simp add: e(1))
  show "unat (g_bump st') = unat blk + 24 + unat sz" using e(2) end_ blk lo by simp
  show "unat (g_bump st') + unat (g_bump_left st') = ?B + unat (g_bump_left st)"
    using e(2) end_ left lo hi room by simp
  show "hdrs st' = hdrs st" "g_free st' = g_free st" by (rule e)+
qed

section \<open>The invariant of the arena\<close>

text \<open>\<open>F c\<close> lists the free blocks of class \<open>c\<close> in the order of their chain and \<open>L\<close> is the set of blocks handed out.\<close>

fun chain :: "(u64 \<Rightarrow> sp_blk) \<Rightarrow> u64 \<Rightarrow> u64 list \<Rightarrow> bool" where
  "chain h p [] \<longleftrightarrow> p = 0"
| "chain h p (b # bs) \<longleftrightarrow> p = b \<and> b \<noteq> 0 \<and> chain h (nextp (h b)) bs"

definition ext :: "(u64 \<Rightarrow> sp_blk) \<Rightarrow> u64 \<Rightarrow> nat set" where
  "ext h b = {unat b..<unat b + 24 + unat (bsize (h b))}"

definition blk_ok :: "nat set \<Rightarrow> (u64 \<Rightarrow> sp_blk) \<Rightarrow> u64 \<Rightarrow> bool" where
  "blk_ok M h b \<longleftrightarrow>
     magic (h b) = SP_ARENA_MAGIC \<and> 0x10000000 \<le> unat b \<and> unat b + 24 < 2 ^ 64 \<and> 16 dvd unat b + 24 \<and> ext h b \<subseteq> M
     \<and> (cls (h b) = 0 \<or> 4 \<le> unat (cls (h b)) \<and> unat (cls (h b)) < 20 \<and> unat (bsize (h b)) = 2 ^ (unat (cls (h b)) + 1))"

definition blocks :: "(nat \<Rightarrow> u64 list) \<Rightarrow> u64 set \<Rightarrow> u64 set" where
  "blocks F L = L \<union> (\<Union>c<20. set (F c))"

definition bump_region :: "arena \<Rightarrow> nat set" where
  "bump_region st = {unat (g_bump st)..<unat (g_bump st) + unat (g_bump_left st)}"

definition free_ok :: "arena \<Rightarrow> (nat \<Rightarrow> u64 list) \<Rightarrow> u64 set \<Rightarrow> bool" where
  "free_ok st F L \<longleftrightarrow>
     length (g_free st) = 20 \<and>
     (\<forall>c<20. chain (hdrs st) (g_free st ! c) (F c) \<and> distinct (F c) \<and> set (F c) \<inter> L = {}
        \<and> (\<forall>b\<in>set (F c). unat (cls (hdrs st b)) = c \<and> c \<noteq> 0))"

definition space_ok :: "nat set \<Rightarrow> (u64 \<Rightarrow> sp_blk) \<Rightarrow> nat set \<Rightarrow> u64 set \<Rightarrow> bool" where
  "space_ok M h R B \<longleftrightarrow>
     R \<subseteq> M \<and>
     (\<forall>b\<in>B. blk_ok M h b \<and> ext h b \<inter> R = {}) \<and>
     (\<forall>b\<in>B. \<forall>b'\<in>B. b \<noteq> b' \<longrightarrow> ext h b \<inter> ext h b' = {})"

definition arena_inv :: "nat set \<Rightarrow> arena \<Rightarrow> (nat \<Rightarrow> u64 list) \<Rightarrow> u64 set \<Rightarrow> bool" where
  "arena_inv M st F L \<longleftrightarrow>
     free_ok st F L \<and>
     space_ok M (hdrs st) (bump_region st) (blocks F L) \<and>
     unat (g_bump st) + unat (g_bump_left st) < 2 ^ 64 \<and> (g_bump st = 0 \<or> 0x10000000 \<le> unat (g_bump st))"

definition arena_init :: "(u64 \<Rightarrow> sp_blk) \<Rightarrow> arena" where
  "arena_init h = \<lparr>hdrs = h, g_free = replicate 20 0, g_bump = 0, g_bump_left = 0\<rparr>"

lemma arena_init_inv: "arena_inv M (arena_init h) (\<lambda>_. []) {}"
  by (simp add: arena_inv_def arena_init_def free_ok_def space_ok_def blocks_def bump_region_def)

lemma chain_update [simp]: "b \<notin> set bs \<Longrightarrow> chain (h(b := x)) p bs = chain h p bs"
  by (induction bs arbitrary: p) auto

lemma chain_nonnull: "chain h p bs \<Longrightarrow> p \<noteq> 0 \<Longrightarrow> \<exists>bs'. bs = p # bs' \<and> chain h (nextp (h p)) bs'"
  by (cases bs) auto

lemma ext_self [simp]: "unat b \<in> ext h b"
  by (simp add: ext_def)

definition same_fields :: "sp_blk \<Rightarrow> sp_blk \<Rightarrow> bool" where
  "same_fields x y \<longleftrightarrow> magic x = magic y \<and> cls x = cls y \<and> bsize x = bsize y"

lemma ext_relink: "same_fields x (h b) \<Longrightarrow> ext (h(b := x)) = ext h"
  by (auto simp: fun_eq_iff ext_def same_fields_def)

lemma blk_ok_relink: "same_fields x (h b) \<Longrightarrow> blk_ok M (h(b := x)) = blk_ok M h"
  by (simp add: fun_eq_iff blk_ok_def ext_relink) (simp add: same_fields_def)

lemma space_ok_relink: "same_fields x (h b) \<Longrightarrow> space_ok M (h(b := x)) R B = space_ok M h R B"
  by (simp only: space_ok_def ext_relink blk_ok_relink)

lemma space_ok_mono: "space_ok M h R B \<Longrightarrow> M \<subseteq> M' \<Longrightarrow> space_ok M' h R B"
  unfolding space_ok_def blk_ok_def by blast

lemma space_ok_bump:
  assumes "space_ok M h R B" "R' \<inter> M = {}" "M \<subseteq> M'" "R' \<subseteq> M'"
  shows "space_ok M' h R' B"
  using assms unfolding space_ok_def blk_ok_def by blast

lemma space_ok_add:
  assumes s: "space_ok M h R B" and n: "blk_ok M (h(b := x)) b" "ext (h(b := x)) b \<subseteq> R"
    and R: "R' \<subseteq> R" "ext (h(b := x)) b \<inter> R' = {}"
  shows "space_ok M (h(b := x)) R' (insert b B)" and "b \<notin> B"
proof -
  have "unat b \<in> R" using n(2) ext_self by blast
  then show b: "b \<notin> B" using s ext_self [of b h] unfolding space_ok_def by blast
  have e: "\<forall>y\<in>B. ext (h(b := x)) y = ext h y \<and> blk_ok M (h(b := x)) y = blk_ok M h y"
    using b by (auto simp: ext_def blk_ok_def)
  have sB: "R \<subseteq> M" "\<And>y. y \<in> B \<Longrightarrow> blk_ok M h y" "\<And>y. y \<in> B \<Longrightarrow> ext h y \<inter> R = {}"
    "\<And>y z. y \<in> B \<Longrightarrow> z \<in> B \<Longrightarrow> y \<noteq> z \<Longrightarrow> ext h y \<inter> ext h z = {}"
    using s unfolding space_ok_def by auto
  have new: "ext (h(b := x)) b \<inter> ext h y = {}" if "y \<in> B" for y using sB(3) [OF that] n(2) by blast
  have old: "ext h y \<inter> R' = {}" if "y \<in> B" for y using sB(3) [OF that] R(1) by blast
  show "space_ok M (h(b := x)) R' (insert b B)"
    unfolding space_ok_def
  proof (intro conjI ballI impI)
    show "R' \<subseteq> M" using R(1) sB(1) by blast
    fix y assume y: "y \<in> insert b B"
    show "blk_ok M (h(b := x)) y" using y n(1) e sB(2) by auto
    show "ext (h(b := x)) y \<inter> R' = {}" using y e R(2) old by (metis insertE)
    fix z assume "z \<in> insert b B" "y \<noteq> z"
    then show "ext (h(b := x)) y \<inter> ext (h(b := x)) z = {}"
      using y e new sB(4) by (metis insertE Int_commute)
  qed
qed

lemma blocks_update:
  assumes "c < 20"
  shows "blocks (F(c := xs)) L = L \<union> set xs \<union> (\<Union>d\<in>{..<20} - {c}. set (F d))"
    and "blocks F L = L \<union> set (F c) \<union> (\<Union>d\<in>{..<20} - {c}. set (F d))"
proof -
  have "{..<20} = insert c ({..<20} - {c})" using assms by auto
  then have u: "(\<Union>d<20. set (G d)) = set (G c) \<union> (\<Union>d\<in>{..<20} - {c}. set (G d))" for G :: "nat \<Rightarrow> u64 list"
    by (metis UN_insert)
  show "blocks (F(c := xs)) L = L \<union> set xs \<union> (\<Union>d\<in>{..<20} - {c}. set (F d))"
    and "blocks F L = L \<union> set (F c) \<union> (\<Union>d\<in>{..<20} - {c}. set (F d))"
    unfolding blocks_def u by auto
qed

lemma free_ok_pop:
  assumes f: "free_ok st F L" and c: "c < 20" "g_free st ! c \<noteq> 0"
  defines "b \<equiv> g_free st ! c"
  shows "free_ok (st\<lparr>g_free := (g_free st)[c := nextp (hdrs st b)], hdrs := (hdrs st)(b := x)\<rparr>) (F(c := tl (F c))) (insert b L)"
    and "b \<in> set (F c)" and "blocks (F(c := tl (F c))) (insert b L) = blocks F L"
proof -
  have fc: "chain (hdrs st) (g_free st ! d) (F d)" "distinct (F d)" "set (F d) \<inter> L = {}"
    "\<And>y. y \<in> set (F d) \<Longrightarrow> unat (cls (hdrs st y)) = d \<and> d \<noteq> 0" if "d < 20" for d
    using f that unfolding free_ok_def by auto
  obtain bs where bs: "F c = b # bs" "chain (hdrs st) (nextp (hdrs st b)) bs"
    using chain_nonnull [OF fc(1) [OF c(1)]] c(2) unfolding b_def by blast
  have nb: "b \<notin> set bs" using fc(2) [OF c(1)] bs(1) by simp
  have other: "b \<notin> set (F d)" if "d < 20" "d \<noteq> c" for d
    using fc(4) [OF that(1), of b] fc(4) [OF c(1), of b] bs(1) that by auto
  show "b \<in> set (F c)" using bs by simp
  show "blocks (F(c := tl (F c))) (insert b L) = blocks F L"
    unfolding blocks_update [OF c(1)] using bs(1) by auto
  have len: "length (g_free st) = 20" using f by (simp add: free_ok_def)
  show "free_ok (st\<lparr>g_free := (g_free st)[c := nextp (hdrs st b)], hdrs := (hdrs st)(b := x)\<rparr>) (F(c := tl (F c))) (insert b L)"
    unfolding free_ok_def
  proof (intro conjI allI impI)
    show "length (g_free (st\<lparr>g_free := (g_free st)[c := nextp (hdrs st b)], hdrs := (hdrs st)(b := x)\<rparr>)) = 20"
      using len by simp
    fix d :: nat assume d: "d < 20"
    show "chain (hdrs (st\<lparr>g_free := (g_free st)[c := nextp (hdrs st b)], hdrs := (hdrs st)(b := x)\<rparr>))
       (g_free (st\<lparr>g_free := (g_free st)[c := nextp (hdrs st b)], hdrs := (hdrs st)(b := x)\<rparr>) ! d) ((F(c := tl (F c))) d)"
      using d fc(1) [OF d] bs nb other [OF d] len by (cases "d = c") auto
    show "distinct ((F(c := tl (F c))) d)" using fc(2) [OF d] bs by (cases "d = c") auto
    show "set ((F(c := tl (F c))) d) \<inter> insert b L = {}"
      using fc(3) [OF d] bs nb other [OF d] by (cases "d = c") auto
    show "\<forall>y\<in>set ((F(c := tl (F c))) d).
       unat (cls (hdrs (st\<lparr>g_free := (g_free st)[c := nextp (hdrs st b)], hdrs := (hdrs st)(b := x)\<rparr>) y)) = d \<and> d \<noteq> 0"
      using fc(4) [OF d] bs nb other [OF d] by (cases "d = c") auto
  qed
qed

lemma free_ok_push:
  assumes f: "free_ok st F L" and c: "c < 20" "c \<noteq> 0" and b: "b \<in> L" "b \<noteq> 0" "unat (cls (hdrs st b)) = c"
    and x: "same_fields x (hdrs st b)" "nextp x = g_free st ! c"
  shows "free_ok (st\<lparr>hdrs := (hdrs st)(b := x), g_free := (g_free st)[c := b]\<rparr>) (F(c := b # F c)) (L - {b})"
    and "blocks (F(c := b # F c)) (L - {b}) = blocks F L"
proof -
  have fc: "chain (hdrs st) (g_free st ! d) (F d)" "distinct (F d)" "set (F d) \<inter> L = {}"
    "\<And>y. y \<in> set (F d) \<Longrightarrow> unat (cls (hdrs st y)) = d \<and> d \<noteq> 0" if "d < 20" for d
    using f that unfolding free_ok_def by auto
  have nb: "b \<notin> set (F d)" if "d < 20" for d using fc(3) [OF that] b(1) by blast
  have len: "length (g_free st) = 20" using f by (simp add: free_ok_def)
  show "blocks (F(c := b # F c)) (L - {b}) = blocks F L"
    unfolding blocks_update [OF c(1)] using b(1) by auto
  show "free_ok (st\<lparr>hdrs := (hdrs st)(b := x), g_free := (g_free st)[c := b]\<rparr>) (F(c := b # F c)) (L - {b})"
    unfolding free_ok_def
  proof (intro conjI allI impI)
    show "length (g_free (st\<lparr>hdrs := (hdrs st)(b := x), g_free := (g_free st)[c := b]\<rparr>)) = 20" using len by simp
    fix d :: nat assume d: "d < 20"
    show "chain (hdrs (st\<lparr>hdrs := (hdrs st)(b := x), g_free := (g_free st)[c := b]\<rparr>))
       (g_free (st\<lparr>hdrs := (hdrs st)(b := x), g_free := (g_free st)[c := b]\<rparr>) ! d) ((F(c := b # F c)) d)"
      using d fc(1) [OF d] nb [OF d] b(2) x(2) len by (cases "d = c") auto
    show "distinct ((F(c := b # F c)) d)" using fc(2) [OF d] nb [OF d] by auto
    show "set ((F(c := b # F c)) d) \<inter> (L - {b}) = {}" using fc(3) [OF d] by auto
    show "\<forall>y\<in>set ((F(c := b # F c)) d).
        unat (cls (hdrs (st\<lparr>hdrs := (hdrs st)(b := x), g_free := (g_free st)[c := b]\<rparr>) y)) = d \<and> d \<noteq> 0"
      using fc(4) [OF d] nb [OF d] b(3) c x(1) by (auto simp: same_fields_def)
  qed
qed

lemma free_ok_fresh:
  assumes "free_ok st F L" "\<forall>c<20. b \<notin> set (F c)"
  shows "free_ok (st\<lparr>hdrs := (hdrs st)(b := x)\<rparr>) F (insert b L)"
  using assms by (auto simp: free_ok_def)

text \<open>A refill either fails and maps nothing, or leaves a bump region with room for the request.\<close>

lemma pool_len_bounds:
  assumes "unat sz \<le> 2 ^ 31 + 15" "a \<le> 31"
  shows "unat sz + 24 + 2 ^ a \<le> unat (pool_len sz (2 ^ a))"
    and "unat (sz + HDR + 2 ^ a) = unat sz + 24 + 2 ^ a"
proof -
  have am: "(2 :: nat) ^ a \<le> 2 ^ 31" by (rule power_increasing) (use assms in auto)
  have ua: "unat (2 ^ a :: u64) = 2 ^ a"
    using unat_of_nat_small [of "2 ^ a", where 'a = 64] am by simp
  have s1: "unat (sz + HDR) = unat sz + 24" using assms(1) by (subst unat_add_small) auto
  show s2: "unat (sz + HDR + 2 ^ a) = unat sz + 24 + 2 ^ a"
    using assms(1) am by (subst unat_add_small) (auto simp: s1 ua)
  have s3: "unat (sz + HDR + 2 ^ a + 0x400000) = unat sz + 24 + 2 ^ a + 0x400000"
    using assms(1) am by (subst unat_add_small) (auto simp: s2)
  have m: "NOT (0xfff :: u64) = NOT (mask 12)" by (simp add: mask_eq_exp_minus_1)
  have "unat (pool_len sz (2 ^ a)) = (unat sz + 24 + 2 ^ a + 0x400000) div 2 ^ 12 * 2 ^ 12"
    unfolding pool_len_def m unat_and_not_mask s3 by simp
  then show "unat sz + 24 + 2 ^ a \<le> unat (pool_len sz (2 ^ a))"
    using am by simp
qed

lemma pool_req_plain [simp]: "\<not> is_fixed (pool_req n)" "m_len (pool_req n) = n"
  by (simp_all add: is_fixed_def pool_req_def MAP_FIXED_ANY_def)

lemma arena_refill_inv:
  assumes ok: "mm_ok mm mapped" and inv: "arena_inv (mapped k) st F L"
    and sz: "unat sz \<le> 2 ^ 31 + 15" "a \<le> 31" and r: "arena_refill mm sz (2 ^ a) st k = (r, k1)"
  shows "case r of None \<Rightarrow> mapped k1 = mapped k
    | Some st1 \<Rightarrow> arena_inv (mapped k1) st1 F L \<and> g_bump st1 \<noteq> 0 \<and> unat sz + 24 + 2 ^ a \<le> unat (g_bump_left st1)
        \<and> mapped k \<subseteq> mapped k1 \<and> g_free st1 = g_free st \<and> hdrs st1 = hdrs st"
proof (cases "g_bump st = 0 \<or> g_bump_left st < sz + HDR + 2 ^ a")
  case False
  then show ?thesis
    using r inv pool_len_bounds(2) [OF sz] by (auto simp: arena_refill_def word_less_nat_alt)
next
  case True
  let ?n = "pool_len sz (2 ^ a)"
  obtain p k' where m: "mm_map mm k (pool_req ?n) = (p, k')" by (cases "mm_map mm k (pool_req ?n)")
  show ?thesis
  proof (cases "p = MAP_FAILED \<or> \<not> sp_in_pool p")
    case no: True
    then have "r = None \<and> mapped k1 = mapped k"
      using r True m mm_ok_map(1) [OF ok m] mm_ok_map_unmap [OF ok m]
      by (auto simp: arena_refill_def Let_def split: if_splits)
    then show ?thesis by simp
  next
    case yes: False
    let ?st = "st\<lparr>g_bump := p, g_bump_left := ?n\<rparr>"
    have e: "r = Some ?st" "k1 = k'" using r True m yes by (simp_all add: arena_refill_def Let_def)
    have mp: "unat p + unat ?n < 2 ^ 64" "pages p ?n \<inter> mapped k = {}" "mapped k' = mapped k \<union> pages p ?n"
      using mm_ok_map(2) [OF ok m] yes by simp_all
    have reg: "bump_region ?st \<subseteq> pages p ?n" unfolding bump_region_def pages_def by auto
    have "space_ok (mapped k') (hdrs st) (bump_region ?st) (blocks F L)"
      by (rule space_ok_bump [where M = "mapped k" and R = "bump_region st"])
        (use inv mp reg in \<open>auto simp: arena_inv_def\<close>)
    moreover have "0x10000000 \<le> unat p" using yes by (simp add: sp_in_pool_def word_le_nat_alt)
    moreover have "free_ok ?st F L" using inv by (simp add: arena_inv_def free_ok_def)
    ultimately have "arena_inv (mapped k') ?st F L" using mp by (simp add: arena_inv_def)
    moreover have "p \<noteq> 0" using yes by (auto simp: sp_in_pool_def)
    ultimately show ?thesis using e mp pool_len_bounds(1) [OF sz] by simp
  qed
qed

lemma arena_carve_inv:
  assumes inv: "arena_inv M st F L" and a: "4 \<le> a" "a \<le> 31"
    and sz: "unat sz \<le> 2 ^ 31 + 15" "c = 0 \<or> 4 \<le> unat c \<and> unat c < 20 \<and> unat sz = 2 ^ (unat c + 1)"
    and room: "unat sz + 24 + 2 ^ a \<le> unat (g_bump_left st)" "g_bump st \<noteq> 0"
    and c: "arena_carve sz (2 ^ a) st = (b, st1)"
  shows "arena_inv M (arena_stamp b sz c st1) F (insert b L)" and "b \<notin> blocks F L"
    and "2 ^ a dvd unat b + 24" and "unat b + 24 < 2 ^ 64"
proof -
  have bl: "unat (g_bump st) + unat (g_bump_left st) < 2 ^ 64" "0x10000000 \<le> unat (g_bump st)"
    and sp: "space_ok M (hdrs st) (bump_region st) (blocks F L)" and fr: "free_ok st F L"
    using inv room by (auto simp: arena_inv_def)
  note cb = carve_bounds [OF bl(1) a sz(1) room(1) c]
  let ?x = "\<lparr>magic = SP_ARENA_MAGIC, cls = c, bsize = ucast sz, nextp = 0\<rparr>"
  have us: "unat (ucast sz :: u32) = unat sz" by (rule unat_ucast_small) (use sz in simp)
  have e: "ext ((hdrs st)(b := ?x)) b = {unat b..<unat b + 24 + unat sz}" by (simp add: ext_def us)
  have eR: "ext ((hdrs st)(b := ?x)) b \<subseteq> bump_region st" unfolding e bump_region_def using cb by auto
  have "(2 :: nat) ^ 4 dvd 2 ^ a" by (rule le_imp_power_dvd) (use a in simp)
  then have d16: "16 dvd unat b + 24" using cb(2) by (auto elim: dvd_trans)
  show d: "2 ^ a dvd unat b + 24" by (rule cb)
  show lt: "unat b + 24 < 2 ^ 64" using cb(4,5) bl(1) by simp
  have ok: "blk_ok M ((hdrs st)(b := ?x)) b"
    using eR sp d16 lt cb(1) bl(2) sz(2) by (auto simp: blk_ok_def us space_ok_def)
  have R': "bump_region st1 \<subseteq> bump_region st" "ext ((hdrs st)(b := ?x)) b \<inter> bump_region st1 = {}"
    unfolding e bump_region_def using cb by auto
  note add = space_ok_add [OF sp ok eR R']
  show nb: "b \<notin> blocks F L" by (rule add)
  have "free_ok st1 F L" using fr cb(6,7) by (simp add: free_ok_def)
  then have "free_ok (arena_stamp b sz c st1) F (insert b L)"
    unfolding arena_stamp_def by (rule free_ok_fresh) (use nb in \<open>auto simp: blocks_def\<close>)
  moreover have "blocks F (insert b L) = insert b (blocks F L)" by (simp add: blocks_def)
  moreover have "bump_region (arena_stamp b sz c st1) = bump_region st1"
    "hdrs (arena_stamp b sz c st1) = (hdrs st)(b := ?x)" "g_bump (arena_stamp b sz c st1) = g_bump st1"
    "g_bump_left (arena_stamp b sz c st1) = g_bump_left st1"
    by (simp_all add: arena_stamp_def bump_region_def cb(6))
  ultimately show "arena_inv M (arena_stamp b sz c st1) F (insert b L)"
    using add(1) cb(1,4,5) bl by (auto simp: arena_inv_def)
qed

lemma align_at_least_16:
  assumes "a \<le> 31"
  shows "(if (2 ^ a :: u64) < 16 then 16 else 2 ^ a) = (2 :: u64) ^ max 4 a"
proof -
  have am: "(2 :: nat) ^ a \<le> 2 ^ 31" by (rule power_increasing) (use assms in auto)
  have ua: "unat (2 ^ a :: u64) = 2 ^ a"
    using unat_of_nat_small [of "2 ^ a", where 'a = 64] am by simp
  have "(2 ^ a :: u64) < 16 \<longleftrightarrow> (2 :: nat) ^ a < 2 ^ 4" by (simp add: word_less_nat_alt ua)
  also have "\<dots> \<longleftrightarrow> a < 4" by (rule power_strict_increasing_iff) simp
  finally show ?thesis by (auto simp: max_def)
qed

lemma arena_reuse_inv:
  assumes inv: "arena_inv M st F L" and c: "c < 20" "c \<noteq> 0" and n: "g_free st ! unat c \<noteq> 0"
    and sz: "unat sz = 2 ^ (unat c + 1)"
  defines "b \<equiv> g_free st ! unat c"
  shows "arena_inv M (arena_stamp b sz c (st\<lparr>g_free := (g_free st)[unat c := nextp (hdrs st b)]\<rparr>)) (F(unat c := tl (F (unat c)))) (insert b L)"
    and "b \<notin> L" and "blk_ok M (hdrs st) b"
proof -
  let ?x = "\<lparr>magic = SP_ARENA_MAGIC, cls = c, bsize = ucast sz, nextp = 0\<rparr>"
  have fr: "free_ok st F L" and sp: "space_ok M (hdrs st) (bump_region st) (blocks F L)"
    using inv by (auto simp: arena_inv_def)
  have c20: "unat c < 20" using c(1) by (simp add: word_less_nat_alt)
  note pop = free_ok_pop [OF fr c20 n, folded b_def]
  have bF: "b \<in> blocks F L" using pop(2) c20 by (auto simp: blocks_def)
  then show ok: "blk_ok M (hdrs st) b" using sp by (auto simp: space_ok_def)
  show "b \<notin> L" using fr pop(2) c20 by (auto simp: free_ok_def)
  have cb: "unat (cls (hdrs st b)) = unat c" using fr pop(2) c20 by (auto simp: free_ok_def)
  then have cl: "cls (hdrs st b) = c" by (simp add: word_unat_eq_iff)
  have "(2 :: nat) ^ (unat c + 1) \<le> 2 ^ 20" by (rule power_increasing) (use c20 in auto)
  then have "unat (ucast sz :: u32) = unat sz" using sz by (intro unat_ucast_small) simp
  then have "unat (bsize (hdrs st b)) = unat (ucast sz :: u32)" using ok c(2) cl sz by (auto simp: blk_ok_def)
  then have "bsize (hdrs st b) = ucast sz" by (simp only: word_unat_eq_iff)
  then have same: "same_fields ?x (hdrs st b)"
    using ok cl by (simp add: same_fields_def blk_ok_def)
  have r: "arena_stamp b sz c (st\<lparr>g_free := (g_free st)[unat c := nextp (hdrs st b)]\<rparr>)
      = st\<lparr>g_free := (g_free st)[unat c := nextp (hdrs st b)], hdrs := (hdrs st)(b := ?x)\<rparr>"
    by (simp add: arena_stamp_def)
  show "arena_inv M (arena_stamp b sz c (st\<lparr>g_free := (g_free st)[unat c := nextp (hdrs st b)]\<rparr>)) (F(unat c := tl (F (unat c)))) (insert b L)"
    unfolding r arena_inv_def pop(3) using pop(1) inv sp space_ok_relink [where h = "hdrs st" and b = b, OF same]
    by (simp add: arena_inv_def bump_region_def)
qed

lemma arena_alloc_inv:
  assumes ok: "mm_ok mm mapped" and inv: "arena_inv (mapped k) st F L"
    and need: "unat need \<le> 2 ^ 31" and a: "a \<le> 31"
    and r: "sp_arena_alloc mm need (2 ^ a) st k = (q, st', k')"
  shows "q = 0 \<and> st' = st \<and> mapped k' = mapped k \<or>
    (\<exists>F'. arena_inv (mapped k') st' F' (insert (q - HDR) L) \<and> q \<noteq> 0 \<and> q - HDR \<notin> L
      \<and> unat need \<le> unat (bsize (hdrs st' (q - HDR))) \<and> (\<forall>x\<in>L. hdrs st' x = hdrs st x))"
proof -
  obtain sz c where bs: "block_size need = (sz, c)" by (cases "block_size need")
  note bb = block_size_bounds [OF need bs]
  have us: "unat (ucast sz :: u32) = unat sz" by (rule unat_ucast_small) (use bb in simp)
  show ?thesis
  proof (cases "c \<noteq> 0 \<and> g_free st ! unat c \<noteq> 0")
    case True
    then have cc: "c < 20" "c \<noteq> 0" "unat sz = 2 ^ (unat c + 1)" using bb(4) by (auto simp: word_less_nat_alt)
    let ?b = "g_free st ! unat c"
    note ru = arena_reuse_inv [OF inv cc(1,2) _ cc(3)]
    have e: "q = ?b + HDR" "st' = arena_stamp ?b sz c (st\<lparr>g_free := (g_free st)[unat c := nextp (hdrs st ?b)]\<rparr>)" "k' = k"
      using r True bs by (auto simp: sp_arena_alloc_def Let_def)
    have "unat (?b + HDR) = unat ?b + 24" by (rule trans, rule unat_add_small) (use ru True in \<open>auto simp: blk_ok_def\<close>)
    then have "q \<noteq> 0" unfolding e by (metis add_is_0 unat_0 zero_neq_numeral)
    then show ?thesis
      using ru True bb(1) us by (intro disjI2 exI [of _ "F(unat c := tl (F (unat c)))"]) (auto simp: e arena_stamp_def)
  next
    case False
    obtain s1 k1 where rf: "arena_refill mm sz (2 ^ max 4 a) st k = (s1, k1)" by (cases "arena_refill mm sz (2 ^ max 4 a) st k")
    have m: "max 4 a \<le> 31" "4 \<le> max 4 a" using a by simp_all
    note ri = arena_refill_inv [OF ok inv bb(3) m(1) rf]
    show ?thesis
    proof (cases s1)
      case None
      then have "q = 0" "st' = st" "k' = k1"
        using r False bs rf by (auto simp: sp_arena_alloc_def align_at_least_16 [OF a] Let_def)
      then show ?thesis using ri None by simp
    next
      case (Some st1)
      obtain b st2 where cv: "arena_carve sz (2 ^ max 4 a) st1 = (b, st2)" by (cases "arena_carve sz (2 ^ max 4 a) st1")
      have e: "q = b + HDR" "st' = arena_stamp b sz c st2" "k' = k1"
        using r False bs rf Some cv by (auto simp: sp_arena_alloc_def align_at_least_16 [OF a] Let_def)
      have st1: "arena_inv (mapped k1) st1 F L" "unat sz + 24 + 2 ^ max 4 a \<le> unat (g_bump_left st1)" "g_bump st1 \<noteq> 0"
        "hdrs st1 = hdrs st" using ri Some by simp_all
      note ci = arena_carve_inv [OF st1(1) m(2,1) bb(3,4) st1(2,3) cv]
      have h2: "hdrs st2 = hdrs st1" using cv by (auto simp: arena_carve_def Let_def)
      have "unat (b + HDR) = unat b + 24" by (rule trans, rule unat_add_small) (use ci(4) in auto)
      then have "q \<noteq> 0" unfolding e by (metis add_is_0 unat_0 zero_neq_numeral)
      moreover have "b \<notin> L" using ci(2) by (simp add: blocks_def)
      ultimately show ?thesis
        using ci(1) bb(1) us h2 st1(4) by (intro disjI2 exI [of _ F]) (auto simp: e arena_stamp_def)
    qed
  qed
qed

lemma arena_free_inv:
  assumes ok: "mm_ok mm mapped" and inv: "arena_inv (mapped k) st F L" and b: "q - HDR \<in> L"
    and r: "arena_free mm q st k = (st', k')"
  shows "\<exists>F'. arena_inv (mapped k') st' F' (L - {q - HDR})" and "\<forall>x. same_fields (hdrs st' x) (hdrs st x)"
    and "mapped k' = mapped k"
proof -
  let ?b = "q - HDR"
  have fr: "free_ok st F L" and sp: "space_ok (mapped k) (hdrs st) (bump_region st) (blocks F L)"
    using inv by (auto simp: arena_inv_def)
  have bok: "blk_ok (mapped k) (hdrs st) ?b" using sp b by (auto simp: space_ok_def blocks_def)
  have "(\<exists>F'. arena_inv (mapped k') st' F' (L - {?b})) \<and> (\<forall>x. same_fields (hdrs st' x) (hdrs st x)) \<and> mapped k' = mapped k"
  proof (cases "cls (hdrs st ?b) = 0")
    case True
    have "\<not> 4096 dvd unat ?b"
    proof
      assume "4096 dvd unat ?b"
      then have "16 dvd unat ?b" by (rule dvd_trans [rotated]) simp
      moreover have "16 dvd unat ?b + 24" using bok by (simp add: blk_ok_def)
      ultimately have "16 dvd (24 :: nat)" using dvd_add_right_iff by blast
      then show False by simp
    qed
    then have e: "st' = st" "mapped k' = mapped k" using r True mm_ok_unmap [OF ok] by (auto simp: arena_free_def Let_def)
    have "free_ok st F (L - {?b})" using fr by (auto simp: free_ok_def)
    moreover have "space_ok (mapped k) (hdrs st) (bump_region st) (blocks F (L - {?b}))"
      using sp unfolding space_ok_def blocks_def by blast
    ultimately have "arena_inv (mapped k') st' F (L - {?b})" using inv e by (simp add: arena_inv_def)
    then show ?thesis using e by (auto simp: same_fields_def)
  next
    case False
    define c where "c = cls (hdrs st ?b)"
    define x where "x = (hdrs st ?b)\<lparr>nextp := g_free st ! unat c\<rparr>"
    have c: "c \<noteq> 0" "unat c < 20" "unat c \<noteq> 0" using bok False by (auto simp: blk_ok_def c_def)
    have e: "st' = st\<lparr>hdrs := (hdrs st)(?b := x), g_free := (g_free st)[unat c := ?b]\<rparr>" "k' = k"
      using r c by (auto simp: arena_free_def Let_def c_def x_def word_less_nat_alt)
    have same: "same_fields x (hdrs st ?b)" by (simp add: same_fields_def x_def)
    have "?b \<noteq> 0" using bok by (auto simp: blk_ok_def)
    note push = free_ok_push [OF fr c(2,3) b this _ same]
    have "arena_inv (mapped k) st' (F(unat c := ?b # F (unat c))) (L - {?b})"
      using push inv sp space_ok_relink [where h = "hdrs st" and b = ?b, OF same] by (simp add: arena_inv_def e bump_region_def c_def x_def)
    then show ?thesis using e same by (auto simp: same_fields_def)
  qed
  then show "\<exists>F'. arena_inv (mapped k') st' F' (L - {?b})" "\<forall>x. same_fields (hdrs st' x) (hdrs st x)" "mapped k' = mapped k"
    by auto
qed

section \<open>Runs of the allocator\<close>

text \<open>
  A run interleaves allocations and frees of blocks that are handed out; \<open>A\<close> maps each pointer the
  caller holds to the number of bytes it asked for. Requests are at most \<open>2 ^ 31\<close> bytes, with
  power-of-two alignments up to \<open>2 ^ 31\<close>.
\<close>

inductive arena_run :: "'k mm \<Rightarrow> 'k \<Rightarrow> arena \<Rightarrow> 'k \<Rightarrow> (u64 \<rightharpoonup> u64) \<Rightarrow> bool" for mm k0 where
  init: "arena_run mm k0 (arena_init h) k0 Map.empty"
| alloc: "arena_run mm k0 st k A \<Longrightarrow> unat need \<le> 2 ^ 31 \<Longrightarrow> a \<le> 31 \<Longrightarrow>
    sp_arena_alloc mm need (2 ^ a) st k = (q, st', k') \<Longrightarrow>
    arena_run mm k0 st' k' (if q = 0 then A else A(q \<mapsto> need))"
| free: "arena_run mm k0 st k A \<Longrightarrow> A q \<noteq> None \<Longrightarrow> arena_free mm q st k = (st', k') \<Longrightarrow>
    arena_run mm k0 st' k' (A(q := None))"

lemma arena_run_inv:
  assumes "mm_ok mm mapped" "arena_run mm k0 st k A"
  shows "\<exists>F. arena_inv (mapped k) st F ((\<lambda>q. q - HDR) ` dom A)
    \<and> (\<forall>q n. A q = Some n \<longrightarrow> unat n \<le> unat (bsize (hdrs st (q - HDR))))"
  using assms(2)
proof induction
  case (init h)
  show ?case using arena_init_inv [of "mapped k0" h] by (intro exI [of _ "\<lambda>_. []"]) simp
next
  case (alloc st k A need a q st' k')
  then obtain F where F: "arena_inv (mapped k) st F ((\<lambda>q. q - HDR) ` dom A)"
    "\<forall>q n. A q = Some n \<longrightarrow> unat n \<le> unat (bsize (hdrs st (q - HDR)))" by blast
  from arena_alloc_inv [OF assms(1) F(1) alloc.hyps(2-4)]
  show ?case
  proof
    assume "q = 0 \<and> st' = st \<and> mapped k' = mapped k"
    then show ?thesis using F by (intro exI [of _ F]) simp
  next
    assume "\<exists>F'. arena_inv (mapped k') st' F' (insert (q - HDR) ((\<lambda>q. q - HDR) ` dom A)) \<and> q \<noteq> 0
      \<and> q - HDR \<notin> (\<lambda>q. q - HDR) ` dom A \<and> unat need \<le> unat (bsize (hdrs st' (q - HDR)))
      \<and> (\<forall>x\<in>(\<lambda>q. q - HDR) ` dom A. hdrs st' x = hdrs st x)"
    then obtain F' where F': "arena_inv (mapped k') st' F' (insert (q - HDR) ((\<lambda>q. q - HDR) ` dom A)) \<and> q \<noteq> 0
      \<and> q - HDR \<notin> (\<lambda>q. q - HDR) ` dom A \<and> unat need \<le> unat (bsize (hdrs st' (q - HDR)))
      \<and> (\<forall>x\<in>(\<lambda>q. q - HDR) ` dom A. hdrs st' x = hdrs st x)" ..
    have keep: "hdrs st' (p - HDR) = hdrs st (p - HDR)" if "A p = Some n" for p n
      using F' domI [of A p n, OF that] by simp
    have sz: "unat n \<le> unat (bsize (hdrs st' (p - HDR)))" if "(A(q \<mapsto> need)) p = Some n" for p n
      using that F(2) F' keep [of p n] by (cases "p = q") auto
    have iv: "arena_inv (mapped k') st' F' ((\<lambda>q. q - HDR) ` dom (A(q \<mapsto> need)))" using F' by simp
    have "(if q = 0 then A else A(q \<mapsto> need)) = A(q \<mapsto> need)" using F' by simp
    then show ?thesis by (simp only:) (intro exI [of _ F'] conjI allI impI iv sz)
  qed
next
  case (free st k A q st' k')
  then obtain F where F: "arena_inv (mapped k) st F ((\<lambda>q. q - HDR) ` dom A)"
    "\<forall>q n. A q = Some n \<longrightarrow> unat n \<le> unat (bsize (hdrs st (q - HDR)))" by blast
  have "q - HDR \<in> (\<lambda>q. q - HDR) ` dom A" using free.hyps(2) by (intro imageI) (simp add: domIff)
  note fi = arena_free_inv [OF assms(1) F(1) this free.hyps(3)]
  obtain F' where F': "arena_inv (mapped k') st' F' ((\<lambda>q. q - HDR) ` dom A - {q - HDR})" using fi(1) ..
  have e: "(\<lambda>q. q - HDR) ` dom (A(q := None)) = (\<lambda>q. q - HDR) ` dom A - {q - HDR}" by auto
  have "unat n \<le> unat (bsize (hdrs st' (p - HDR)))" if "(A(q := None)) p = Some n" for p n
  proof -
    have "A p = Some n" using that by (simp split: if_splits)
    then show ?thesis using F(2) fi(2) by (simp add: same_fields_def)
  qed
  then show ?case using F' unfolding e by (intro exI [of _ F']) simp
qed

text \<open>The bytes of a handed-out block and its header.\<close>

definition payload :: "u64 \<Rightarrow> u64 \<Rightarrow> nat set" where
  "payload q n = {unat q..<unat q + unat n}"

lemma blk_ok_payload:
  assumes "blk_ok M h (q - HDR)" "unat n \<le> unat (bsize (h (q - HDR)))"
  shows "unat q = unat (q - HDR) + 24" and "16 dvd unat q" and "payload q n \<subseteq> ext h (q - HDR)" and "0x10000018 \<le> unat q"
proof -
  have "unat (q - HDR + HDR) = unat (q - HDR) + 24"
    by (rule trans, rule unat_add_small) (use assms(1) in \<open>auto simp: blk_ok_def\<close>)
  then show q: "unat q = unat (q - HDR) + 24" by simp
  show "16 dvd unat q" "0x10000018 \<le> unat q" using assms(1) q by (auto simp: blk_ok_def)
  show "payload q n \<subseteq> ext h (q - HDR)" using assms(2) q by (auto simp: payload_def ext_def)
qed

text \<open>C22: At every point of every run of allocations and frees, each pointer the caller holds is
  aligned to 16 bytes, lies above 0x10000018, and its requested bytes are mapped memory that no other pointer the
  caller holds shares; nor does any held block's header lie in them.\<close>

theorem arena_run_separation:
  assumes "mm_ok mm mapped" "arena_run mm k0 st k A" "A q = Some n"
  shows "16 dvd unat q \<and> 0x10000018 \<le> unat q \<and> payload q n \<subseteq> mapped k
    \<and> (\<forall>q' n'. A q' = Some n' \<longrightarrow> q' \<noteq> q \<longrightarrow> payload q n \<inter> payload q' n' = {})
    \<and> (\<forall>q'. A q' \<noteq> None \<longrightarrow> payload q n \<inter> {unat (q' - HDR)..<unat (q' - HDR) + 24} = {})"
proof -
  obtain F where F: "arena_inv (mapped k) st F ((\<lambda>q. q - HDR) ` dom A)"
    "\<And>q n. A q = Some n \<Longrightarrow> unat n \<le> unat (bsize (hdrs st (q - HDR)))"
    using arena_run_inv [OF assms(1,2)] by blast
  let ?B = "blocks F ((\<lambda>q. q - HDR) ` dom A)"
  have sp: "space_ok (mapped k) (hdrs st) (bump_region st) ?B" using F(1) by (simp add: arena_inv_def)
  have inB: "q - HDR \<in> ?B" if "A q \<noteq> None" for q using that by (auto simp: blocks_def)
  have ok: "blk_ok (mapped k) (hdrs st) (q - HDR)" if "A q \<noteq> None" for q
    using sp inB [OF that] by (auto simp: space_ok_def)
  note me = blk_ok_payload [OF ok F(2) [OF assms(3)]]
  have q: "A q \<noteq> None" using assms(3) by simp
  have mp: "payload q n \<subseteq> mapped k" using me(3) [OF q] ok [OF q] by (auto simp: blk_ok_def)
  have dj: "ext (hdrs st) (q - HDR) \<inter> ext (hdrs st) (q' - HDR) = {}" if "A q' \<noteq> None" "q' \<noteq> q" for q'
    using sp inB [OF q] inB [OF that(1)] that(2) unfolding space_ok_def by simp
  have hd: "{unat (q' - HDR)..<unat (q' - HDR) + 24} \<subseteq> ext (hdrs st) (q' - HDR)" for q' by (auto simp: ext_def)
  have "payload q n \<inter> {unat (q' - HDR)..<unat (q' - HDR) + 24} = {}" if "A q' \<noteq> None" for q'
  proof (cases "q' = q")
    case True
    then show ?thesis using me(1) [OF q] by (auto simp: payload_def)
  next
    case False
    then show ?thesis using dj [OF that False] me(3) [OF q] hd [of q'] by blast
  qed
  moreover have "payload q n \<inter> payload q' n' = {}" if "A q' = Some n'" "q' \<noteq> q" for q' n'
    using dj [of q'] that me(3) [OF q] blk_ok_payload(3) [OF ok F(2) [OF that(1)]] by auto
  ultimately show ?thesis using me(2,4) [OF q] mp by blast
qed

text \<open>A kernel with room for one mapping at 0x20000000, on which the hypotheses can be met.\<close>

definition one_slot_mm :: "nat set mm" where
  "one_slot_mm =
     \<lparr>mm_map = (\<lambda>k rq. if \<not> is_fixed rq \<and> unat (m_len rq) < 0x40000000 \<and> k = {}
                     then (0x20000000, pages 0x20000000 (m_len rq)) else (MAP_FAILED, k)),
      mm_unmap = (\<lambda>k p n. if 4096 dvd unat p then k - pages p n else k)\<rparr>"

lemma one_slot_mm_ok: "mm_ok one_slot_mm id"
  unfolding mm_ok_def by (auto simp: one_slot_mm_def MAP_FAILED_def)

lemma one_slot_first:
  "sp_arena_alloc one_slot_mm 100 16 (arena_init h) {} =
     (0x20000020,
      arena_stamp 0x20000008 128 6
        \<lparr>hdrs = h, g_free = replicate 20 0, g_bump = 0x200000A0, g_bump_left = 0x3FFF60\<rparr>,
      pages 0x20000000 0x400000)"
proof -
  have b: "block_size 100 = (128, 6)" by code_simp
  have p: "pool_len 128 16 = 0x400000" by code_simp
  have g: "(replicate 20 (0 :: u64)) ! 6 = 0" by simp
  have r: "arena_refill one_slot_mm 128 16 (arena_init h) {} =
      (Some \<lparr>hdrs = h, g_free = replicate 20 0, g_bump = 0x20000000, g_bump_left = 0x400000\<rparr>, pages 0x20000000 0x400000)"
    by (simp add: arena_refill_def arena_init_def one_slot_mm_def p sp_in_pool_def MAP_FAILED_def)
  have c: "arena_carve 128 16 \<lparr>hdrs = h, g_free = replicate 20 0, g_bump = 0x20000000, g_bump_left = 0x400000\<rparr> =
      (0x20000008, \<lparr>hdrs = h, g_free = replicate 20 0, g_bump = 0x200000A0, g_bump_left = 0x3FFF60\<rparr>)"
    by (simp add: arena_carve_def Let_def)
  have "g_free (arena_init h) ! unat (6 :: u32) = 0" by (simp add: arena_init_def)
  then show ?thesis using b r c by (simp add: sp_arena_alloc_def Let_def)
qed

theorem arena_run_separation_witness:
  "\<exists>st k. arena_run one_slot_mm {} st k [0x20000020 \<mapsto> 100] \<and> 16 dvd unat (0x20000020 :: u64) \<and> payload 0x20000020 100 \<subseteq> k"
proof -
  let ?st = "arena_stamp 0x20000008 128 6
        \<lparr>hdrs = undefined, g_free = replicate 20 0, g_bump = 0x200000A0, g_bump_left = 0x3FFF60\<rparr>"
  have a: "sp_arena_alloc one_slot_mm 100 (2 ^ 4) (arena_init undefined) {} = (0x20000020, ?st, pages 0x20000000 0x400000)"
    using one_slot_first [of undefined] by simp
  have "arena_run one_slot_mm {} ?st (pages 0x20000000 0x400000) (if (0x20000020 :: u64) = 0 then Map.empty else [0x20000020 \<mapsto> 100])"
    by (rule arena_run.alloc [OF arena_run.init _ _ a]) simp_all
  then have run: "arena_run one_slot_mm {} ?st (pages 0x20000000 0x400000) [0x20000020 \<mapsto> 100]" by simp
  show ?thesis
    using run arena_run_separation [OF one_slot_mm_ok run, where q = "0x20000020" and n = 100] by auto
qed

text \<open>C25: A freed block of a size class is the next one that class hands out: the same pointer comes back, with
  no call to the kernel, whatever alignment is asked for.\<close>

theorem arena_free_alloc_roundtrip:
  assumes "length (g_free st) = 20" "q \<noteq> HDR" "cls (hdrs st (q - HDR)) \<noteq> 0" "cls (hdrs st (q - HDR)) < 20"
    and "snd (block_size need) = cls (hdrs st (q - HDR))" "arena_free mm q st k = (st1, k1)"
  shows "\<exists>st2. sp_arena_alloc mm need align st1 k1 = (q, st2, k1) \<and> k1 = k \<and> g_free st2 = g_free st
    \<and> g_bump st2 = g_bump st \<and> g_bump_left st2 = g_bump_left st"
proof -
  obtain sz where bs: "block_size need = (sz, cls (hdrs st (q - HDR)))" using assms(5) by (cases "block_size need") auto
  have "unat (cls (hdrs st (q - HDR))) < 20" using assms(4) by (simp add: word_less_nat_alt)
  then show ?thesis
    using assms bs by (auto simp: arena_free_def sp_arena_alloc_def arena_stamp_def Let_def)
qed

theorem arena_free_alloc_roundtrip_witness:
  "\<exists>st1 st2. arena_free one_slot_mm 0x20000020 (arena_stamp 0x20000008 128 6 (arena_init (\<lambda>_. undefined))) {} = (st1, {})
    \<and> sp_arena_alloc one_slot_mm 90 4096 st1 {} = (0x20000020, st2, {})"
proof -
  let ?st = "arena_stamp 0x20000008 128 6 (arena_init (\<lambda>_. undefined))"
  have b: "snd (block_size 90) = 6" by code_simp
  obtain st1 where f: "arena_free one_slot_mm 0x20000020 ?st {} = (st1, {})"
    by (simp add: arena_free_def arena_stamp_def Let_def)
  have "length (g_free ?st) = 20" "(0x20000020 :: u64) \<noteq> HDR" "cls (hdrs ?st (0x20000020 - HDR)) \<noteq> 0"
    "cls (hdrs ?st (0x20000020 - HDR)) < 20" "snd (block_size 90) = cls (hdrs ?st (0x20000020 - HDR))"
    by (simp_all add: arena_stamp_def arena_init_def b)
  from arena_free_alloc_roundtrip [OF this f, where align = 4096] f show ?thesis by auto
qed

text \<open>C24: For a request without MAP_FIXED, the retry of \<^verbatim>\<open>mmap\<close> leaves no stray mapping behind: on failure the
  address space is what it was, and on success exactly the returned pages were added, disjoint from everything mapped
  before. The reservations are untouched.\<close>

theorem sp_mmap_no_stray:
  assumes "mm_ok mm mapped" "\<not> is_fixed rq" "sp_mmap mm low rq rs k = (p, rs', k')"
  shows "rs' = rs \<and> (if p = MAP_FAILED then mapped k' = mapped k
    else pages p (m_len rq) \<inter> mapped k = {} \<and> mapped k' = mapped k \<union> pages p (m_len rq))"
proof -
  obtain r k2 where m: "mm_map mm k rq = (r, k2)" by (cases "mm_map mm k rq")
  have rel: "mmap_release mm rq rs k = (rs, k)" using assms(2) by (simp add: mmap_release_def)
  show ?thesis
  proof (cases "\<not> low \<or> r = MAP_FAILED \<or> r < LOW_LIMIT")
    case True
    then have "p = r" "rs' = rs" "k' = k2" using assms(3) m rel by (auto simp: sp_mmap_def split: if_splits)
    then show ?thesis using mm_ok_map [OF assms(1) m assms(2)] by auto
  next
    case False
    let ?u = "mm_unmap mm k2 r (m_len rq)"
    obtain h k3 where t: "mmap_retry mm rq mmap_hints ?u = (h, k3)" by (cases "mmap_retry mm rq mmap_hints ?u")
    have u: "mapped ?u = mapped k" using mm_ok_map_unmap [OF assms(1) m assms(2)] False by simp
    note rt = mmap_retry_mapped [OF assms(1,2) t, unfolded u]
    obtain r' k4 where m4: "mm_map mm k3 rq = (r', k4)" by (cases "mm_map mm k3 rq")
    show ?thesis
    proof (cases h)
      case None
      then have "p = r'" "rs' = rs" "k' = k4" using assms(2,3) m rel False t m4 by (auto simp: sp_mmap_def)
      then show ?thesis using mm_ok_map [OF assms(1) m4 assms(2)] rt None by auto
    next
      case (Some x)
      then have "p = x" "rs' = rs" "k' = k3" using assms(2,3) m rel False t by (auto simp: sp_mmap_def)
      then show ?thesis using rt Some by simp
    qed
  qed
qed

theorem sp_mmap_no_stray_witness:
  "\<exists>k'. sp_mmap one_slot_mm True (pool_req 8192) [(1, 2)] {} = (0x20000000, [(1, 2)], k') \<and> k' = pages 0x20000000 8192"
proof -
  have e: "sp_mmap one_slot_mm True (pool_req 8192) [(1, 2)] {} = (0x20000000, [(1, 2)], pages 0x20000000 8192)"
    by (simp add: sp_mmap_def mmap_release_def one_slot_mm_def MAP_FAILED_def)
  show ?thesis
    using sp_mmap_no_stray [OF one_slot_mm_ok pool_req_plain(1) e] e by (simp add: MAP_FAILED_def)
qed

text \<open>C23: Releasing the reservations that overlap a claimed range ends, gives back exactly the reserved part of the
  range, leaves no reservation that overlaps it and reserves nothing new; every reserved address outside the range stays
  reserved as long as the table has room for the pieces, and the table never exceeds its 64 entries.\<close>

theorem sp_release_res_correct:
  assumes "sp_release_res a b rs = (rs', um)" "length rs \<le> RES_MAX"
  shows "covers rs' \<inter> {a..<b} = {} \<and> covers rs' \<subseteq> covers rs \<and> unmaps um = covers rs \<inter> {a..<b} \<and> length rs' \<le> RES_MAX
    \<and> (length rs + length (filter (overlapping a b) rs) \<le> RES_MAX \<longrightarrow> covers rs' = covers rs - {a..<b})"
proof (cases "rs = []")
  case True
  then show ?thesis using assms by (simp add: sp_release_res_def)
next
  case False
  then have l: "sp_release_loop a b 0 rs [] = (rs', um)" using assms(1) by (simp add: sp_release_res_def)
  have "\<forall>e \<in> set (take 0 rs). \<not> overlapping a b e" by simp
  note c = sp_release_loop_correct [OF l this]
  have d: "covers rs' \<inter> {a..<b} = {}" using c unfolding not_overlapping_disjoint covers_def by blast
  then show ?thesis using c assms(2) by auto
qed

theorem sp_release_res_correct_witness:
  "\<exists>rs' um. sp_release_res 4 6 [(1, 10), (20, 30)] = (rs', um) \<and> unmaps um = {4..<6}"
proof -
  obtain rs' um where e: "sp_release_res 4 6 [(1, 10), (20, 30)] = (rs', um)" by fastforce
  have "1 \<le> x \<and> x < 10" if "4 \<le> x" "x < 6" for x :: u64
    using order_trans [of 1 4 x] less_trans [of x 6 10] that by simp
  then have "covers [(1, 10), (20, 30)] \<inter> {4..<6} = {4..<6}" by auto
  then show ?thesis using sp_release_res_correct [OF e] e by (simp add: RES_MAX_def)
qed

section \<open>Argument checks\<close>

text \<open>\<^verbatim>\<open>calloc\<close> refuses every product that does not fit 64 bits, and touches nothing then.\<close>

lemma sp_calloc_overflow:
  assumes "2 ^ 64 \<le> unat a * unat b"
  shows "sp_calloc cf mm a b h k = (0, h, k)"
proof -
  have b: "b \<noteq> 0"
  proof
    assume "b = 0"
    with assms show False by simp
  qed
  have "unat (a * b) < unat a * unat b"
    using assms unsigned_less [of "a * b", where 'a = nat] by simp
  then have "unat (a * b) div unat b < unat a"
    using b by (simp add: div_less_iff_less_mult unat_gt_0)
  then have "a * b div b \<noteq> a" by (metis nat_less_le unat_div_distrib)
  then show ?thesis using b by (simp add: sp_calloc_def)
qed

lemma sp_calloc_overflow_witness:
  "\<forall>cf h. sp_calloc cf one_slot_mm 0x100000000 0x100000001 h {} = (0, h, {})"
  using sp_calloc_overflow [of "0x100000000" "0x100000001" _ one_slot_mm _ "{}"] by simp

text \<open>The test \<^verbatim>\<open>align & (align - 1)\<close> clears the lowest set bit: it is zero for powers of two only.\<close>

lemma clear_lowest_bit_nat: "(m :: nat) AND (m - 1) = 0 \<longleftrightarrow> m = 0 \<or> (\<exists>i. m = 2 ^ i)"
proof (induction m rule: less_induct)
  case (less m)
  show ?case
  proof (cases "even m")
    case True
    then obtain j where j: "m = 2 * j" by blast
    have "m AND (m - 1) = 2 * (j AND (j - 1))"
      by (subst and_rec) (cases j, auto simp: j)
    moreover have "(\<exists>i. 2 * j = 2 ^ i) \<longleftrightarrow> (\<exists>i. j = 2 ^ i)"
    proof
      assume "\<exists>i. 2 * j = 2 ^ i"
      then obtain i where i: "2 * j = 2 ^ i" ..
      then show "\<exists>i. j = 2 ^ i" by (cases i) auto
    next
      assume "\<exists>i. j = 2 ^ i"
      then show "\<exists>i. 2 * j = 2 ^ i" by (metis power_Suc)
    qed
    ultimately show ?thesis using less [of j] by (cases "j = 0") (auto simp: j)
  next
    case False
    then obtain j where j: "m = 2 * j + 1" by (rule oddE)
    have "m AND (m - 1) = 2 * j" by (subst and_rec) (simp add: j)
    moreover have "(\<exists>i. 2 * j + 1 = 2 ^ i) \<longleftrightarrow> j = 0"
    proof
      assume "\<exists>i. 2 * j + 1 = 2 ^ i"
      then obtain i where i: "2 * j + 1 = 2 ^ i" ..
      then show "j = 0" by (cases i) (simp_all, presburger)
    next
      assume "j = 0"
      then show "\<exists>i. 2 * j + 1 = 2 ^ i" by (intro exI [of _ 0]) simp
    qed
    ultimately show ?thesis using j by simp
  qed
qed

lemma clear_lowest_bit:
  assumes "(w :: u64) \<noteq> 0"
  shows "w AND (w - 1) = 0 \<longleftrightarrow> (\<exists>i. unat w = 2 ^ i)"
proof -
  have "1 \<le> w" using assms by (simp add: word_le_nat_alt unat_gt_0 Suc_le_eq)
  then have "unat (w - 1) = unat w - 1" by (simp add: unat_sub)
  then have "unat (w AND (w - 1)) = unat w AND (unat w - 1)" by (simp add: unsigned_and_eq)
  then have "w AND (w - 1) = 0 \<longleftrightarrow> unat w AND (unat w - 1) = 0" by (metis unat_0 unat_eq_0)
  then show ?thesis using clear_lowest_bit_nat [of "unat w"] assms by (simp add: unat_eq_0)
qed

text \<open>In the lane, \<^verbatim>\<open>posix_memalign\<close> answers EINVAL exactly when it is given no result pointer or an alignment that is not
  a power of two of at least 8.\<close>

lemma sp_posix_memalign_einval:
  assumes "emu32_low cf"
  shows "fst (sp_posix_memalign cf mm out align n h k) = Some EINVAL
    \<longleftrightarrow> out = None \<or> \<not> (\<exists>i \<ge> 3. unat align = 2 ^ i)"
proof (cases "align < 8")
  case True
  have "\<not> (\<exists>i \<ge> 3. unat align = 2 ^ i)"
  proof
    assume "\<exists>i \<ge> 3. unat align = 2 ^ i"
    then obtain i where i: "3 \<le> i" "unat align = 2 ^ i" by blast
    have "(2 :: nat) ^ 3 \<le> 2 ^ i" by (rule power_increasing) (use i in auto)
    with i True show False by (simp add: word_less_nat_alt)
  qed
  with True show ?thesis by (auto simp: sp_posix_memalign_def split: option.splits)
next
  case False
  then have nz: "align \<noteq> 0" "8 \<le> unat align" by (auto simp: word_less_nat_alt)
  have "(\<exists>i \<ge> 3. unat align = 2 ^ i) \<longleftrightarrow> (\<exists>i. unat align = 2 ^ i)"
  proof
    assume "\<exists>i. unat align = 2 ^ i"
    then obtain i where i: "unat align = 2 ^ i" ..
    then have "(2 :: nat) ^ 3 \<le> 2 ^ i" using nz by simp
    then have "3 \<le> i" by (simp only: power_increasing_iff) 
    with i show "\<exists>i \<ge> 3. unat align = 2 ^ i" by blast
  qed blast
  moreover have "fst (sp_posix_memalign cf mm out align n h k) = Some EINVAL
      \<longleftrightarrow> out = None \<or> align AND (align - 1) \<noteq> 0"
    using False assms by (auto simp: sp_posix_memalign_def Let_def split: option.splits prod.splits if_splits)
  ultimately show ?thesis using clear_lowest_bit [OF nz(1)] by simp
qed

definition lane_cfg :: hcfg where
  "lane_cfg = \<lparr>emu32_low = True, boot_base = 0x7000000000, dl_malloc = None, dl_calloc = None, dl_realloc = None,
     dl_free = False, dl_posix_memalign = None, dl_memalign = None, dl_aligned_alloc = None\<rparr>"

lemma sp_posix_memalign_einval_witness:
  "\<forall>h. fst (sp_posix_memalign lane_cfg one_slot_mm (Some 0) 24 64 h {}) = Some EINVAL
    \<and> (\<nexists>i. i \<ge> 3 \<and> unat (24 :: u64) = 2 ^ i)"
proof
  fix h :: heap
  have "emu32_low lane_cfg" by (simp add: lane_cfg_def)
  from sp_posix_memalign_einval [OF this, of one_slot_mm "Some 0" 24 64 h "{}"]
  have e: "fst (sp_posix_memalign lane_cfg one_slot_mm (Some 0) 24 64 h {}) = Some EINVAL \<longleftrightarrow> \<not> (\<exists>i \<ge> 3. (24 :: nat) = 2 ^ i)" by simp
  have "fst (sp_posix_memalign lane_cfg one_slot_mm (Some 0) 24 64 h {}) = Some EINVAL"
    by (simp add: sp_posix_memalign_def)
  with e show "fst (sp_posix_memalign lane_cfg one_slot_mm (Some 0) 24 64 h {}) = Some EINVAL
    \<and> (\<nexists>i. i \<ge> 3 \<and> unat (24 :: u64) = 2 ^ i)" by auto
qed

section \<open>Observations\<close>

text \<open>The rounding wraps: a request of all ones becomes the smallest block.\<close>

lemma block_size_wraps: "block_size (- 1) = (32, 4)"
  by code_simp

text \<open>A failed growth of a block still frees it: the caller's only pointer to the data is gone.\<close>

lemma sp_realloc_failure_frees:
  assumes "q \<noteq> 0" "n \<noteq> 0" "arena_owned cf h (q - HDR)" "ucast (bsize (hdrs (ar h) (q - HDR))) < n"
    and "sp_malloc cf mm n h k = (0, h1, k1)"
  shows "sp_realloc cf mm q n h k = (0, sp_free cf mm q h1 k1)"
  using assms by (simp add: sp_realloc_def Let_def split: prod.splits)

end
