(* ===== verification/Sprout_Dns.thy ===== *)
theory Sprout_Dns
  imports Sprout_Xlate Sprout_Arena
begin

text \<open>
  The stub resolver of \<^verbatim>\<open>sprout_preload.c\<close> (\<^verbatim>\<open>sp_dns_servers\<close> to \<^verbatim>\<open>gethostbyname\<close>): reading the guest's
  \<^verbatim>\<open>resolv.conf\<close>, the wire format of questions and answers, the query loop and the entry points
  that answer from it. Packets are lists of bytes. Every read of a packet goes through \<open>rd8\<close>,
  \<open>rd16\<close> or \<open>rdn\<close>, which give None outside the received bytes, so that the walker staying inside the packet
  is a theorem. The datagram exchange with one server is a parameter: a function from the
  server and the question to the received bytes, or None when sending or receiving fails.
\<close>

unbundle bit_operations_syntax

section \<open>The servers of resolv.conf\<close>

text \<open>\<^verbatim>\<open>fgets(line, lim, f)\<close> on the rest of a file: the line with its newline, at most \<open>lim - 1\<close> bytes.\<close>

definition fgets :: "nat \<Rightarrow> cstr \<Rightarrow> cstr \<times> cstr" where
  "fgets lim s =
     (let n = (case strchr s (CHR 0x0A) of None \<Rightarrow> length s | Some i \<Rightarrow> Suc i);
          k = min n (lim - 1) in (take k s, drop k s))"

function fgets_all :: "nat \<Rightarrow> cstr \<Rightarrow> cstr list" where
  "fgets_all lim s =
     (if s = [] \<or> lim \<le> 1 then [] else (let (l, r) = fgets lim s in l # fgets_all lim r))"
  by pat_completeness auto
termination
proof (relation "measure (\<lambda>(lim, s). length s)", goal_cases)
  case (2 lim s p l r)
  then have "0 < (case strchr s (CHR 0x0A) of None \<Rightarrow> length s | Some i \<Rightarrow> Suc i)"
    by (auto split: option.splits)
  with 2 show ?case by (auto simp: fgets_def Let_def)
qed simp

declare fgets_all.simps [simp del]

definition blank :: "char \<Rightarrow> bool" where
  "blank c \<longleftrightarrow> c = CHR '' '' \<or> c = CHR 0x09"

definition is_digit :: "char \<Rightarrow> bool" where
  "is_digit c \<longleftrightarrow> of_char c \<ge> (48 :: nat) \<and> of_char c \<le> (57 :: nat)"

text \<open>
  \<^verbatim>\<open>inet_aton\<close>: one to four numbers separated by dots, in decimal, octal (leading 0) or hexadecimal
  (leading 0x), the last one filling the remaining bytes; white space may follow.
\<close>

definition digit_in :: "nat \<Rightarrow> char \<Rightarrow> nat option" where
  "digit_in base c =
     (let n = of_char c :: nat;
          v = (if 48 \<le> n \<and> n \<le> 57 then n - 48
               else if 97 \<le> n \<and> n \<le> 102 then n - 87
               else if 65 \<le> n \<and> n \<le> 70 then n - 55 else base) in
      if v < base then Some v else None)"

fun digits_value :: "nat \<Rightarrow> nat \<Rightarrow> cstr \<Rightarrow> nat" where
  "digits_value base acc [] = acc"
| "digits_value base acc (c # cs) =
     (case digit_in base c of None \<Rightarrow> acc | Some v \<Rightarrow> digits_value base (acc * base + v) cs)"

definition strtoul0 :: "cstr \<Rightarrow> (nat \<times> cstr) option" where
  "strtoul0 s =
     (if s = [] \<or> \<not> is_digit (hd s) then None
      else
        (let (base, body) =
           (if starts_with ''0x'' s \<or> starts_with ''0X'' s then
              (if length s > 2 \<and> digit_in 16 (s ! 2) \<noteq> None then (16, drop 2 s) else (8, s))
            else if hd s = CHR ''0'' then (8, s) else (10, s)) in
         Some (digits_value base 0 body, dropWhile (\<lambda>c. digit_in base c \<noteq> None) body)))"

fun aton_parts :: "nat \<Rightarrow> cstr \<Rightarrow> (nat list \<times> cstr) option" where
  "aton_parts 0 s = None"
| "aton_parts (Suc n) s =
     (case strtoul0 s of
        None \<Rightarrow> None
      | Some (v, r) \<Rightarrow>
          (if r \<noteq> [] \<and> hd r = CHR ''.'' then
             (if 255 < v then None
              else map_option (\<lambda>(vs, r'). (v # vs, r')) (aton_parts n (tl r)))
           else Some ([v], r)))"

definition is_space :: "char \<Rightarrow> bool" where
  "is_space c \<longleftrightarrow> c = CHR '' '' \<or> 9 \<le> (of_char c :: nat) \<and> (of_char c :: nat) \<le> 13"

definition inet_aton :: "cstr \<Rightarrow> u32 option" where
  "inet_aton s =
     (case aton_parts 4 s of
        None \<Rightarrow> None
      | Some (vs, r) \<Rightarrow>
          (if r \<noteq> [] \<and> \<not> is_space (hd r) then None
           else if 256 ^ (5 - length vs) \<le> last vs then None
           else Some (word_of_nat (foldl (\<lambda>a v. a * 256 + v) 0 (butlast vs) * 256 ^ (5 - length vs) + last vs))))"

definition nameserver_field :: "cstr \<Rightarrow> cstr" where
  "nameserver_field line =
     (let nsp = dropWhile blank line in
      if strncmp_eq nsp ''nameserver'' 10 then
        (let v = dropWhile blank (drop 10 nsp);
             ip = takeWhile (\<lambda>c. \<not> blank c \<and> c \<noteq> CHR 0x0A) v in
         if ip \<noteq> [] \<and> length ip < 64 then ip else [])
      else [])"

fun servers_loop :: "cstr list \<Rightarrow> u32 list \<Rightarrow> u32 list" where
  "servers_loop [] out = out"
| "servers_loop (l # ls) out =
     (if 4 \<le> length out then out
      else
        (let ip = nameserver_field l in
         case (if ip = [] then None else inet_aton ip) of
           None \<Rightarrow> servers_loop ls out
         | Some a \<Rightarrow> servers_loop ls (out @ [a])))"

text \<open>\<open>conf\<close> is the content of the guest's resolv.conf, None when it cannot be opened.\<close>

definition sp_dns_servers :: "cstr option \<Rightarrow> u32 list" where
  "sp_dns_servers conf =
     (case conf of
        None \<Rightarrow> []
      | Some s \<Rightarrow>
          (let out = servers_loop (fgets_all 256 s) [] in
           if out = [] then [0x08080808, 0x08080404] else out))"

section \<open>Questions\<close>

definition SP_DNS_TXT_LEN :: nat where
  "SP_DNS_TXT_LEN = 512"

definition be16 :: "u16 \<Rightarrow> u8 list" where
  "be16 w = [ucast (drop_bit 8 w), ucast w]"

definition byte_of :: "char \<Rightarrow> u8" where
  "byte_of c = of_char c"

definition label :: "cstr \<Rightarrow> u8 list" where
  "label lv = word_of_nat (length lv) # map byte_of lv"

text \<open>The loop over the host name: \<open>lv\<close> is the label read so far; an empty label ends the name.\<close>

fun enc_labels :: "cstr \<Rightarrow> cstr \<Rightarrow> u8 list option" where
  "enc_labels [] lv =
     (if lv = [] then Some [] else if 63 < length lv then None else Some (label lv))"
| "enc_labels (c # cs) lv =
     (if c = CHR ''.'' then
        (if lv = [] then Some []
         else if 63 < length lv then None
         else map_option (\<lambda>r. label lv @ r) (enc_labels cs []))
      else enc_labels cs (lv @ [c]))"

definition dns_hdr :: "u16 \<Rightarrow> u16 \<Rightarrow> u16 \<Rightarrow> u16 \<Rightarrow> u8 list" where
  "dns_hdr qid flags qd an = be16 qid @ be16 flags @ be16 qd @ be16 an @ be16 0 @ be16 0"

definition sp_dns_encode :: "cstr \<Rightarrow> u16 \<Rightarrow> u16 \<Rightarrow> u8 list option" where
  "sp_dns_encode host qtype qid =
     map_option (\<lambda>ls. dns_hdr qid 0x0100 1 0 @ ls @ [0] @ be16 qtype @ be16 1) (enc_labels host [])"

section \<open>Answers\<close>

definition rd8 :: "u8 list \<Rightarrow> nat \<Rightarrow> u8 option" where
  "rd8 buf i = (if i < length buf then Some (buf ! i) else None)"

definition rd16 :: "u8 list \<Rightarrow> nat \<Rightarrow> u16 option" where
  "rd16 buf i =
     (case (rd8 buf i, rd8 buf (i + 1)) of
        (Some a, Some b) \<Rightarrow> Some (push_bit 8 (ucast a) OR ucast b) | _ \<Rightarrow> None)"

definition rdn :: "u8 list \<Rightarrow> nat \<Rightarrow> nat \<Rightarrow> u8 list option" where
  "rdn buf i n = (if i + n \<le> length buf then Some (take n (drop i buf)) else None)"

text \<open>\<^verbatim>\<open>while (off < nread)\<close> over the labels of a name; a pointer ends it.\<close>

function skip_name :: "u8 list \<Rightarrow> nat \<Rightarrow> nat option" where
  "skip_name buf off =
     (if off < length buf then
        (case rd8 buf off of
           None \<Rightarrow> None
         | Some l \<Rightarrow>
             if l = 0 then Some (off + 1)
             else if l AND 0xC0 = 0xC0 then Some (off + 2)
             else skip_name buf (off + 1 + unat l))
      else Some off)"
  by pat_completeness auto
termination by (relation "measure (\<lambda>(buf, off). length buf - off)") auto

declare skip_name.simps [simp del]

fun skip_questions :: "u8 list \<Rightarrow> nat \<Rightarrow> nat \<Rightarrow> nat option" where
  "skip_questions buf 0 off = Some off"
| "skip_questions buf (Suc n) off =
     (case skip_name buf off of None \<Rightarrow> None | Some o1 \<Rightarrow> skip_questions buf n (o1 + 4))"

record dns_acc =
  a4 :: "u8 list list"
  a6 :: "u8 list list"
  got :: nat

definition take_record :: "bool \<Rightarrow> u8 list \<Rightarrow> u16 \<Rightarrow> u16 \<Rightarrow> nat \<Rightarrow> dns_acc \<Rightarrow> dns_acc option" where
  "take_record want_v6 buf type rdlen off acc =
     (if type = 1 \<and> rdlen = 4 \<and> \<not> want_v6 then
        (if length (a4 acc) < 8
         then map_option (\<lambda>ip. acc\<lparr>a4 := a4 acc @ [ip], got := got acc + 1\<rparr>) (rdn buf off 4)
         else Some (acc\<lparr>got := got acc + 1\<rparr>))
      else if type = 28 \<and> rdlen = 16 then
        (if length (a6 acc) < 8
         then map_option (\<lambda>ip. acc\<lparr>a6 := a6 acc @ [ip], got := got acc + 1\<rparr>) (rdn buf off 16)
         else Some (acc\<lparr>got := got acc + 1\<rparr>))
      else Some acc)"

fun dns_records :: "bool \<Rightarrow> u8 list \<Rightarrow> nat \<Rightarrow> nat \<Rightarrow> dns_acc \<Rightarrow> dns_acc option" where
  "dns_records want_v6 buf 0 off acc = Some acc"
| "dns_records want_v6 buf (Suc n) off acc =
     (if length buf < off + 12 then Some acc
      else
        (case skip_name buf off of
           None \<Rightarrow> None
         | Some o1 \<Rightarrow>
             if length buf < o1 + 10 then Some acc
             else
               (case (rd16 buf o1, rd16 buf (o1 + 2), rd16 buf (o1 + 8)) of
                  (Some type, Some rclass, Some rdlen) \<Rightarrow>
                    (let o2 = o1 + 10; o3 = o2 + unat rdlen in
                     if rclass \<noteq> 1 \<or> length buf < o3 then dns_records want_v6 buf n o3 acc
                     else
                       (case take_record want_v6 buf type rdlen o2 acc of
                          None \<Rightarrow> None
                        | Some acc' \<Rightarrow> dns_records want_v6 buf n o3 acc'))
                | _ \<Rightarrow> None)))"

text \<open>The return value and the two address arrays; None stands for a read outside the packet.\<close>

definition sp_dns_extract :: "u8 list \<Rightarrow> bool \<Rightarrow> dns_acc \<Rightarrow> (int \<times> dns_acc) option" where
  "sp_dns_extract buf want_v6 acc =
     (if length buf < 12 then Some (- 1, acc)
      else
        (case (rd16 buf 2, rd16 buf 4, rd16 buf 6) of
           (Some flags, Some qd, Some an) \<Rightarrow>
             if flags AND 3 \<noteq> 0 then Some (- 2, acc)
             else
               (case skip_questions buf (unat qd) 12 of
                  None \<Rightarrow> None
                | Some off \<Rightarrow>
                    map_option (\<lambda>acc'. (int (got acc'), acc'))
                      (dns_records want_v6 buf (unat an) off (acc\<lparr>got := 0\<rparr>)))
         | _ \<Rightarrow> None))"

section \<open>The query loop\<close>

definition acc0 :: dns_acc where
  "acc0 = \<lparr>a4 = [], a6 = [], got = 0\<rparr>"

fun lookup_loop ::
  "(u32 \<Rightarrow> u8 list \<Rightarrow> u8 list option) \<Rightarrow> cstr \<Rightarrow> bool \<Rightarrow> u16 \<Rightarrow> u32 list \<Rightarrow> int \<Rightarrow> dns_acc \<Rightarrow> (int \<times> dns_acc) option" where
  "lookup_loop ask host want_v6 qid [] rc acc = Some (rc, acc)"
| "lookup_loop ask host want_v6 qid (srv # srvs) rc acc =
     (if \<not> rc < 0 then Some (rc, acc)
      else
        (case sp_dns_encode host (if want_v6 then 28 else 1) qid of
           None \<Rightarrow> lookup_loop ask host want_v6 qid srvs rc acc
         | Some q \<Rightarrow>
             (case ask srv q of
                None \<Rightarrow> lookup_loop ask host want_v6 qid srvs rc acc
              | Some ans \<Rightarrow>
                  if length ans < 12 then lookup_loop ask host want_v6 qid srvs rc acc
                  else
                    (case sp_dns_extract ans want_v6 acc of
                       None \<Rightarrow> None
                     | Some (rc', acc') \<Rightarrow>
                         if rc' = - 2 then Some (rc', acc')
                         else lookup_loop ask host want_v6 qid srvs rc' acc'))))"

text \<open>
  The whole lookup: the static \<^verbatim>\<open>qid\<close> advances on every call that has a socket (\<open>sock\<close>); the result is 0 with
  the addresses, or -1.
\<close>

definition sp_dns_lookup ::
  "(u32 \<Rightarrow> u8 list \<Rightarrow> u8 list option) \<Rightarrow> cstr option \<Rightarrow> bool \<Rightarrow> cstr \<Rightarrow> bool \<Rightarrow> u16 \<Rightarrow> (int \<times> dns_acc \<times> u16) option" where
  "sp_dns_lookup ask conf sock host want_v6 qid =
     (let srv = sp_dns_servers conf in
      if \<not> sock then Some (- 1, acc0, qid)
      else
        (let qid' = qid * 31 + 7 in
         map_option
           (\<lambda>(rc, acc). (if rc < 0 then - 1 else if 0 < length (a4 acc) + length (a6 acc) then 0 else - 1, acc, qid'))
           (lookup_loop ask host want_v6 qid' srv (- 1) acc0)))"

section \<open>getaddrinfo and its relatives\<close>

definition dns_chars :: cstr where
  "dns_chars = ''.-0123456789abcdefghijklmnopqrstuvwxyzABCDEFGHIJKLMNOPQRSTUVWXYZ''"

definition sp_dns_host_ok :: "cstr \<Rightarrow> bool" where
  "sp_dns_host_ok s \<longleftrightarrow> s \<noteq> [] \<and> length (takeWhile (\<lambda>c. c \<in> set dns_chars) s) = length s"

definition port_names :: "(cstr \<times> u16) list" where
  "port_names =
     [(''http'', 80), (''http-alt'', 8080), (''https'', 443), (''ftp'', 21), (''ssh'', 22),
      (''smtp'', 25), (''domain'', 53), (''dns'', 53), (''ntp'', 123), (''pop3'', 110),
      (''imap'', 143), (''imaps'', 993), (''pop3s'', 995), (''submission'', 587)]"

text \<open>\<^verbatim>\<open>short v\<close>: 16 bits that wrap.\<close>

fun port_digits :: "u16 \<Rightarrow> cstr \<Rightarrow> u16" where
  "port_digits v [] = v"
| "port_digits v (c # cs) =
     (if is_digit c then port_digits (v * 10 + (of_char c - 48)) cs else v)"

definition sp_dns_port :: "cptr \<Rightarrow> u16" where
  "sp_dns_port s =
     (case s of
        None \<Rightarrow> 0
      | Some [] \<Rightarrow> 0
      | Some (c # cs) \<Rightarrow>
          if is_digit c then port_digits 0 (c # cs)
          else (case map_of port_names (c # cs) of None \<Rightarrow> 0 | Some p \<Rightarrow> p))"

record gai_hints =
  h_family :: nat
  h_socktype :: nat
  h_protocol :: nat

definition AF_UNIX :: nat where "AF_UNIX = 1"
definition AF_INET :: nat where "AF_INET = 2"
definition AF_INET6 :: nat where "AF_INET6 = 10"

record addrinfo =
  ai_flags :: u32
  ai_family :: nat
  ai_socktype :: nat
  ai_protocol :: nat
  ai_port :: u16
  ai_ip :: "u8 list"
  ai_canonname :: cstr

definition SP_AI_BRAND :: u32 where
  "SP_AI_BRAND = 0x7370726f"

datatype gai = GaiReal | GaiAgain | GaiOk "addrinfo list"

definition ai_node :: "gai_hints option \<Rightarrow> cstr \<Rightarrow> u16 \<Rightarrow> nat \<Rightarrow> u8 list \<Rightarrow> addrinfo" where
  "ai_node hints node port fam ip =
     \<lparr>ai_flags = SP_AI_BRAND, ai_family = fam,
      ai_socktype = (case hints of None \<Rightarrow> 0 | Some h \<Rightarrow> h_socktype h),
      ai_protocol = (case hints of None \<Rightarrow> 0 | Some h \<Rightarrow> h_protocol h),
      ai_port = port, ai_ip = ip, ai_canonname = node\<rparr>"

text \<open>The two loops: at most 8 IPv4 nodes, then IPv6 nodes up to 16 in all.\<close>

definition ai_chain :: "gai_hints option \<Rightarrow> cstr \<Rightarrow> u16 \<Rightarrow> u8 list list \<Rightarrow> u8 list list \<Rightarrow> addrinfo list" where
  "ai_chain hints node port v4 v6 =
     (let c4 = map (ai_node hints node port AF_INET) (take 8 v4) in
      c4 @ map (ai_node hints node port AF_INET6) (take (16 - length c4) v6))"

definition getaddrinfo ::
  "(u32 \<Rightarrow> u8 list \<Rightarrow> u8 list option) \<Rightarrow> cstr option \<Rightarrow> bool \<Rightarrow> cptr \<Rightarrow> cptr \<Rightarrow> gai_hints option \<Rightarrow> u16 \<Rightarrow> (gai \<times> u16) option" where
  "getaddrinfo ask conf sock node service hints qid =
     (case node of
        None \<Rightarrow> Some (GaiReal, qid)
      | Some n \<Rightarrow>
          if \<not> sp_dns_host_ok n then Some (GaiReal, qid)
          else if is_digit (hd n) then Some (GaiReal, qid)
          else if (case hints of None \<Rightarrow> False | Some h \<Rightarrow> h_family h = AF_UNIX) then Some (GaiReal, qid)
          else
            (let fam = (case hints of None \<Rightarrow> 0 | Some h \<Rightarrow> h_family h) in
             map_option
               (\<lambda>(rc, acc, qid').
                  let v4 = (if fam = AF_INET6 then [] else a4 acc);
                      nodes = ai_chain hints n (sp_dns_port service) v4 (a6 acc) in
                  (if rc \<noteq> 0 then GaiAgain
                   else if fam \<noteq> AF_INET \<and> fam \<noteq> AF_INET6 \<and> v4 = [] then GaiAgain
                   else if nodes = [] then GaiAgain
                   else GaiOk nodes, qid'))
               (sp_dns_lookup ask conf sock n (fam = AF_INET6) qid)))"

text \<open>\<^verbatim>\<open>freeaddrinfo\<close> of a chain: the branded nodes freed one by one, and the tail left to the library.\<close>

fun freeaddrinfo :: "addrinfo list \<Rightarrow> addrinfo list \<times> addrinfo list" where
  "freeaddrinfo [] = ([], [])"
| "freeaddrinfo (n # ns) =
     (if ai_flags n = SP_AI_BRAND then (let (own, rest) = freeaddrinfo ns in (n # own, rest))
      else ([], n # ns))"

text \<open>
  \<^verbatim>\<open>gethostbyname\<close>: in the emulator lane the result and everything it points to is rebuilt in the low
  arena; any failed allocation falls back to the static result.
\<close>

datatype hostent =
    StaticHost cstr "u8 list list"
  | LowHost u64 u64 u64 u64 "(u64 \<times> u8 list) list"

fun arena_each :: "'k mm \<Rightarrow> u64 list \<Rightarrow> arena \<Rightarrow> 'k \<Rightarrow> u64 list \<times> bool \<times> arena \<times> 'k" where
  "arena_each mm [] st k = ([], True, st, k)"
| "arena_each mm (n # ns) st k =
     (let (p, st1, k1) = sp_arena_alloc mm n 16 st k in
      if p = 0 then ([], False, st1, k1)
      else (let (ps, ok, st2, k2) = arena_each mm ns st1 k1 in (p # ps, ok, st2, k2)))"

definition host_sizes :: "cstr \<Rightarrow> nat \<Rightarrow> u64 list" where
  "host_sizes hn m =
     [32, word_of_nat (length hn + 1), 8, 8 * word_of_nat (m + 1)] @ replicate m 4"

definition gethostbyname ::
  "(u32 \<Rightarrow> u8 list \<Rightarrow> u8 list option) \<Rightarrow> cstr option \<Rightarrow> bool \<Rightarrow> bool \<Rightarrow> 'k mm \<Rightarrow> cstr \<Rightarrow> u16 \<Rightarrow> arena \<Rightarrow> 'k \<Rightarrow>
   (hostent option \<times> u16 \<times> arena \<times> 'k) option" where
  "gethostbyname ask conf sock low mm hn qid st k =
     (case sp_dns_lookup ask conf sock hn False qid of
        None \<Rightarrow> None
      | Some (rc, acc, qid') \<Rightarrow>
          if rc \<noteq> 0 then Some (None, qid', st, k)
          else
            (let v4 = take 8 (a4 acc) in
             if \<not> low then Some (Some (StaticHost hn v4), qid', st, k)
             else
               (case arena_each mm (host_sizes hn (length v4)) st k of
                  (d # nm # al # hl # cs, True, st1, k1) \<Rightarrow>
                    Some (Some (LowHost d nm al hl (zip cs v4)), qid', st1, k1)
                | (_, _, st1, k1) \<Rightarrow> Some (Some (StaticHost hn v4), qid', st1, k1))))"

section \<open>Lemmas: the walker stays inside the packet\<close>

lemma rd16_inside: "i + 1 < length buf \<Longrightarrow> \<exists>w. rd16 buf i = Some w"
  by (simp add: rd16_def rd8_def)

lemma skip_name_total: "\<exists>o1. skip_name buf off = Some o1 \<and> off \<le> o1"
proof (induction buf off rule: skip_name.induct)
  case (1 buf off)
  show ?case
  proof (cases "off < length buf \<and> buf ! off \<noteq> 0 \<and> buf ! off AND 0xC0 \<noteq> 0xC0")
    case True
    then have r: "rd8 buf off = Some (buf ! off)" by (simp add: rd8_def)
    from True "1.IH" [OF _ r] obtain o1 where "skip_name buf (off + 1 + unat (buf ! off)) = Some o1"
      "off + 1 + unat (buf ! off) \<le> o1" by auto
    then show ?thesis using True r by (subst skip_name.simps) auto
  next
    case False
    then show ?thesis by (subst skip_name.simps) (auto simp: rd8_def)
  qed
qed

lemma skip_questions_total: "\<exists>o1. skip_questions buf n off = Some o1 \<and> off \<le> o1"
proof (induction n arbitrary: off)
  case (Suc n)
  obtain o1 where o1: "skip_name buf off = Some o1" "off \<le> o1" using skip_name_total by blast
  obtain o2 where "skip_questions buf n (o1 + 4) = Some o2" "o1 + 4 \<le> o2" using Suc by blast
  then show ?case using o1 by auto
qed simp

lemma take_record_total:
  assumes "off + unat rdlen \<le> length buf"
  shows "\<exists>acc'. take_record v6 buf type rdlen off acc = Some acc'
    \<and> (length (a4 acc) \<le> 8 \<longrightarrow> length (a4 acc') \<le> 8) \<and> (length (a6 acc) \<le> 8 \<longrightarrow> length (a6 acc') \<le> 8)
    \<and> ((\<forall>ip\<in>set (a4 acc). length ip = 4) \<longrightarrow> (\<forall>ip\<in>set (a4 acc'). length ip = 4))
    \<and> ((\<forall>ip\<in>set (a6 acc). length ip = 16) \<longrightarrow> (\<forall>ip\<in>set (a6 acc'). length ip = 16))"
  using assms by (auto simp: take_record_def rdn_def)

definition acc_ok :: "dns_acc \<Rightarrow> bool" where
  "acc_ok acc \<longleftrightarrow>
     length (a4 acc) \<le> 8 \<and> length (a6 acc) \<le> 8
     \<and> list_all (\<lambda>ip. length ip = 4) (a4 acc) \<and> list_all (\<lambda>ip. length ip = 16) (a6 acc)"

lemma acc_ok_got [simp]: "acc_ok (acc\<lparr>got := n\<rparr>) = acc_ok acc"
  by (simp add: acc_ok_def)

lemma take_record_ok:
  assumes "off + unat rdlen \<le> length buf" "acc_ok acc"
  shows "\<exists>acc'. take_record v6 buf type rdlen off acc = Some acc' \<and> acc_ok acc'"
  using assms by (auto simp: take_record_def rdn_def acc_ok_def)

lemma dns_records_ok:
  "acc_ok acc \<Longrightarrow> \<exists>acc'. dns_records v6 buf n off acc = Some acc' \<and> acc_ok acc'"
proof (induction n arbitrary: off acc)
  case (Suc n)
  obtain o1 where o1: "skip_name buf off = Some o1" using skip_name_total by blast
  show ?case
  proof (cases "length buf < off + 12 \<or> length buf < o1 + 10")
    case True
    then show ?thesis using Suc.prems o1 by auto
  next
    case False
    then obtain type rclass rdlen where r: "rd16 buf o1 = Some type" "rd16 buf (o1 + 2) = Some rclass" "rd16 buf (o1 + 8) = Some rdlen"
      using rd16_inside [of o1 buf] rd16_inside [of "o1 + 2" buf] rd16_inside [of "o1 + 8" buf] by auto
    let ?o3 = "o1 + 10 + unat rdlen"
    show ?thesis
    proof (cases "rclass \<noteq> 1 \<or> length buf < ?o3")
      case True
      then show ?thesis using False o1 r Suc.IH [OF Suc.prems, of ?o3] by (auto simp: Let_def)
    next
      case in_: False
      then obtain acc1 where a: "take_record v6 buf type rdlen (o1 + 10) acc = Some acc1" "acc_ok acc1"
        using take_record_ok [OF _ Suc.prems, of "o1 + 10" rdlen buf] by auto
      then show ?thesis using False in_ o1 r Suc.IH [OF a(2), of ?o3] by (auto simp: Let_def)
    qed
  qed
qed simp

text \<open>C26: Whatever bytes a server sends, the answer walker ends, reads only received bytes, and collects at most eight
  addresses of each family, of four and sixteen bytes.\<close>

theorem sp_dns_extract_safe:
  assumes "acc_ok acc"
  shows "\<exists>rc acc'. sp_dns_extract buf v6 acc = Some (rc, acc') \<and> acc_ok acc' \<and> - 2 \<le> rc"
proof (cases "length buf < 12")
  case True
  then show ?thesis using assms by (simp add: sp_dns_extract_def)
next
  case False
  then obtain flags qd an where r: "rd16 buf 2 = Some flags" "rd16 buf 4 = Some qd" "rd16 buf 6 = Some an"
    using rd16_inside [of 2 buf] rd16_inside [of 4 buf] rd16_inside [of 6 buf] by auto
  obtain off where off: "skip_questions buf (unat qd) 12 = Some off" using skip_questions_total by blast
  have "acc_ok (acc\<lparr>got := 0\<rparr>)" using assms by simp
  from dns_records_ok [OF this, of v6 buf "unat an" off] obtain acc' where
    "dns_records v6 buf (unat an) off (acc\<lparr>got := 0\<rparr>) = Some acc'" "acc_ok acc'" by blast
  then show ?thesis using False r off assms by (auto simp: sp_dns_extract_def)
qed

lemma acc0_ok [simp]: "acc_ok acc0"
  by (simp add: acc0_def acc_ok_def)

theorem sp_dns_extract_safe_witness:
  "\<exists>rc acc'. sp_dns_extract [0, 1, 0x81, 0x80, 0, 9, 0, 9, 0, 0, 0, 0, 63] False acc0 = Some (rc, acc') \<and> acc_ok acc' \<and> - 2 \<le> rc"
  using sp_dns_extract_safe [OF acc0_ok] by blast

lemma lookup_loop_ok:
  "acc_ok acc \<Longrightarrow> \<exists>rc' acc'. lookup_loop ask host v6 qid srvs rc acc = Some (rc', acc') \<and> acc_ok acc'"
proof (induction srvs arbitrary: rc acc)
  case Nil
  then show ?case by simp
next
  case (Cons s ss)
  let ?q = "sp_dns_encode host (if v6 then 28 else 1) qid"
  note skip = Cons.IH [OF Cons.prems, of rc]
  show ?case
  proof (cases "rc < 0 \<and> (\<exists>q ans. ?q = Some q \<and> ask s q = Some ans \<and> 12 \<le> length ans)")
    case True
    then obtain q ans where q: "?q = Some q" "ask s q = Some ans" "12 \<le> length ans" by blast
    obtain r a where x: "sp_dns_extract ans v6 acc = Some (r, a)" "acc_ok a" using sp_dns_extract_safe [OF Cons.prems] by blast
    show ?thesis
      unfolding lookup_loop.simps using True q x Cons.IH [OF x(2), of r] by simp
  next
    case False
    consider "\<not> rc < 0" | "rc < 0" "?q = None" | q where "rc < 0" "?q = Some q" "ask s q = None"
      | q ans where "rc < 0" "?q = Some q" "ask s q = Some ans" "length ans < 12"
      using False by (metis not_le option.exhaust)
    then show ?thesis
      unfolding lookup_loop.simps by cases (use skip Cons.prems in simp_all)
  qed
qed

lemma sp_dns_lookup_ok:
  "\<exists>rc acc qid'. sp_dns_lookup ask conf sock host v6 qid = Some (rc, acc, qid') \<and> acc_ok acc"
proof -
  obtain rc acc where "lookup_loop ask host v6 (qid * 31 + 7) (sp_dns_servers conf) (- 1) acc0 = Some (rc, acc)" "acc_ok acc"
    using lookup_loop_ok [OF acc0_ok] by blast
  then show ?thesis by (cases sock) (simp_all add: sp_dns_lookup_def Let_def)
qed

lemma servers_loop_bound: "length out \<le> 4 \<Longrightarrow> length (servers_loop ls out) \<le> 4"
  by (induction ls out rule: servers_loop.induct) (auto simp: Let_def split: option.split)

section \<open>Lemmas: the wire format\<close>

lemma length_be16 [simp]: "length (be16 w) = 2"
  by (simp add: be16_def)

lemma rd16_be16:
  "rd16 (pre @ be16 w @ post) (length pre) = Some w"
proof -
  have "push_bit 8 (ucast (ucast (drop_bit 8 w) :: u8)) OR ucast (ucast w :: u8) = w"
    by (rule bit_word_eqI) (auto simp: bit_or_iff bit_push_bit_iff bit_ucast_iff bit_drop_bit_eq)
  then show ?thesis by (simp add: rd16_def rd8_def be16_def nth_append)
qed

lemma rd16_at: "buf = pre @ be16 w @ post \<Longrightarrow> i = length pre \<Longrightarrow> rd16 buf i = Some w"
  by (simp only: rd16_be16)

lemma label_byte:
  assumes "0 < n" "n \<le> 63"
  shows "(word_of_nat n :: u8) \<noteq> 0" "(word_of_nat n :: u8) AND 0xC0 \<noteq> 0xC0" "unat (word_of_nat n :: u8) = n"
proof -
  show u: "unat (word_of_nat n :: u8) = n" using assms by (intro unat_of_nat_small) simp
  then show "(word_of_nat n :: u8) \<noteq> 0" using assms by auto
  have "(0xC0 :: u8) = NOT (mask 6)" by (simp add: mask_eq_exp_minus_1)
  then have "unat ((word_of_nat n :: u8) AND 0xC0) = n div 2 ^ 6 * 2 ^ 6" by (simp only: unat_and_not_mask u)
  then have "unat ((word_of_nat n :: u8) AND 0xC0) = 0" using assms by simp
  then show "(word_of_nat n :: u8) AND 0xC0 \<noteq> 0xC0" by auto
qed

lemma skip_name_label:
  assumes "lv \<noteq> []" "length lv \<le> 63"
  shows "skip_name (pre @ label lv @ post) (length pre) = skip_name ((pre @ label lv) @ post) (length (pre @ label lv))"
  using label_byte [of "length lv"] assms
  by (subst skip_name.simps) (auto simp: label_def rd8_def nth_append)

lemma skip_name_zero: "skip_name (pre @ 0 # post) (length pre) = Some (length pre + 1)"
  by (subst skip_name.simps) (simp add: rd8_def nth_append)

lemma skip_name_pointer: "skip_name (pre @ 0xC0 # b # post) (length pre) = Some (length pre + 2)"
  by (subst skip_name.simps) (simp add: rd8_def nth_append)

lemma skip_name_encoded:
  "enc_labels host lv = Some ls \<Longrightarrow>
   skip_name (pre @ ls @ 0 # post) (length pre) = Some (length pre + length ls + 1)"
proof (induction host lv arbitrary: ls pre rule: enc_labels.induct)
  case (1 lv)
  show ?case
  proof (cases "lv = []")
    case True
    then show ?thesis using 1 skip_name_zero [of pre post] by simp
  next
    case False
    with 1 have "ls = label lv" "length lv \<le> 63" by (auto split: if_splits)
    then show ?thesis
      using skip_name_label [OF False, of pre "0 # post"] skip_name_zero [of "pre @ label lv" post] by simp
  qed
next
  case (2 c cs lv)
  show ?case
  proof (cases "c = CHR ''.'' \<and> lv \<noteq> []")
    case True
    with "2.prems" obtain r where r: "enc_labels cs [] = Some r" "ls = label lv @ r" "length lv \<le> 63"
      by (auto split: if_splits)
    from True r(3) have "skip_name ((pre @ label lv) @ r @ 0 # post) (length (pre @ label lv)) = Some (length (pre @ label lv) + length r + 1)"
      by (intro "2.IH"(1)) (use True r in auto)
    then show ?thesis using skip_name_label [of lv pre "r @ 0 # post"] True r by simp
  next
    case False
    show ?thesis
    proof (cases "c = CHR ''.''")
      case True
      then show ?thesis using False "2.prems" skip_name_zero [of pre post] by simp
    next
      case no: False
      then show ?thesis using "2.IH"(2) [OF no] "2.prems" by simp
    qed
  qed
qed

section \<open>Properties of the resolver\<close>

text \<open>A server's answer to a question: the question echoed, then one address record whose name points back at it.\<close>

definition answer_to :: "u8 list \<Rightarrow> u16 \<Rightarrow> u16 \<Rightarrow> u8 list \<Rightarrow> u16 \<Rightarrow> u8 list \<Rightarrow> u8 list" where
  "answer_to q qid flags ttl type ip =
     dns_hdr qid flags 1 1 @ drop 12 q @ [0xC0, 0x0C] @ be16 type @ be16 1 @ ttl @ be16 (word_of_nat (length ip)) @ ip"

lemma length_dns_hdr [simp]: "length (dns_hdr a b c d) = 12"
  by (simp add: dns_hdr_def)

lemma one_record:
  assumes "length ttl = 4" "length ip \<le> 16"
    and buf_def: "buf = pre @ [0xC0, 0x0C] @ be16 type @ be16 1 @ ttl @ be16 (word_of_nat (length ip)) @ ip"
  shows "dns_records v6 buf 1 (length pre) acc = take_record v6 buf type (word_of_nat (length ip)) (length pre + 12) acc"
proof -
  let ?n = "word_of_nat (length ip) :: u16"
  have n: "unat ?n = length ip" using assms by (intro unat_of_nat_small) simp
  have sk: "skip_name buf (length pre) = Some (length pre + 2)"
    unfolding buf_def using skip_name_pointer [of pre] by simp
  have t: "rd16 buf (length pre + 2) = Some type"
    by (rule rd16_at [where pre = "pre @ [0xC0, 0x0C]"]) (simp_all add: buf_def)
  have c: "rd16 buf (length pre + 2 + 2) = Some 1"
    by (rule rd16_at [where pre = "pre @ [0xC0, 0x0C] @ be16 type"]) (simp_all add: buf_def)
  have l: "rd16 buf (length pre + 2 + 8) = Some ?n"
    by (rule rd16_at [where pre = "pre @ [0xC0, 0x0C] @ be16 type @ be16 1 @ ttl"]) (simp_all add: buf_def assms(1))
  have len: "length buf = length pre + 12 + length ip" by (simp add: buf_def assms(1))
  show ?thesis
    by (simp add: sk t [simplified] c [simplified] l [simplified] len n Let_def add.commute [of 12] split: option.split)
qed

text \<open>C27: Questions and answers fit together: a reply that echoes the question \<^verbatim>\<open>sp_dns_encode\<close> wrote for any host name and
  carries one A record gives exactly that address.\<close>

theorem dns_roundtrip:
  assumes "sp_dns_encode host 1 qid = Some q" "flags AND 3 = 0" "length ttl = 4" "length ip = 4"
  shows "sp_dns_extract (answer_to q qid flags ttl 1 ip) False acc0 = Some (1, \<lparr>a4 = [ip], a6 = [], got = 1\<rparr>)"
proof -
  obtain ls where ls: "enc_labels host [] = Some ls" "q = dns_hdr qid 0x0100 1 0 @ ls @ [0] @ be16 1 @ be16 1"
    using assms(1) by (auto simp: sp_dns_encode_def)
  define pre where "pre = dns_hdr qid flags 1 1 @ ls @ [0] @ be16 1 @ be16 1"
  define buf where "buf = answer_to q qid flags ttl 1 ip"
  have b: "buf = pre @ [0xC0, 0x0C] @ be16 1 @ be16 1 @ ttl @ be16 (word_of_nat (length ip)) @ ip"
    by (simp add: buf_def answer_to_def ls(2) pre_def)
  have f: "rd16 buf 2 = Some flags"
    by (rule rd16_at [where pre = "be16 qid"]) (simp_all add: b pre_def dns_hdr_def)
  have d: "rd16 buf 4 = Some 1"
    by (rule rd16_at [where pre = "be16 qid @ be16 flags"]) (simp_all add: b pre_def dns_hdr_def)
  have a: "rd16 buf 6 = Some 1"
    by (rule rd16_at [where pre = "be16 qid @ be16 flags @ be16 1"]) (simp_all add: b pre_def dns_hdr_def)
  have "skip_name buf 12 = Some (12 + length ls + 1)"
    using skip_name_encoded [OF ls(1), of "dns_hdr qid flags 1 1"] by (simp add: b pre_def)
  then have q: "skip_questions buf 1 12 = Some (length pre)"
    by (simp add: pre_def)
  have r: "dns_records False buf 1 (length pre) acc0 = take_record False buf 1 4 (length pre + 12) acc0"
    using one_record [OF assms(3) _ b, where ?v6.0 = False and acc = acc0] assms(4) by simp
  have "rdn buf (length pre + 12) 4 = Some ip"
    by (simp add: rdn_def b assms(3,4))
  then have t: "take_record False buf 1 4 (length pre + 12) acc0 = Some \<lparr>a4 = [ip], a6 = [], got = 1\<rparr>"
    by (simp add: take_record_def acc0_def)
  have "12 \<le> length buf" by (simp add: b pre_def)
  moreover have "acc0\<lparr>got := 0\<rparr> = acc0" by (simp add: acc0_def)
  ultimately show ?thesis
    unfolding buf_def [symmetric] sp_dns_extract_def using f d a q r t assms(2) by (simp del: skip_questions.simps dns_records.simps One_nat_def)
qed

theorem dns_roundtrip_witness:
  "\<exists>q. sp_dns_encode ''deb.debian.org'' 1 7 = Some q
    \<and> sp_dns_extract (answer_to q 7 0x8180 [0, 0, 1, 0] 1 [151, 101, 2, 132]) False acc0
      = Some (1, \<lparr>a4 = [[151, 101, 2, 132]], a6 = [], got = 1\<rparr>)"
proof -
  have "sp_dns_encode ''deb.debian.org'' 1 7 \<noteq> None" by code_simp
  then obtain q where q: "sp_dns_encode ''deb.debian.org'' 1 7 = Some q" by blast
  show ?thesis
    using q dns_roundtrip [OF q, of "0x8180" "[0, 0, 1, 0]" "[151, 101, 2, 132]"] by simp
qed

text \<open>The bytes of a name: its labels one after the other.\<close>

lemma enc_labels_scan:
  "CHR ''.'' \<notin> set l \<Longrightarrow> enc_labels (l @ cs) lv = enc_labels cs (lv @ l)"
  by (induction l arbitrary: lv) auto

definition label_ok :: "cstr \<Rightarrow> bool" where
  "label_ok l \<longleftrightarrow> l \<noteq> [] \<and> length l \<le> 63 \<and> CHR ''.'' \<notin> set l"

fun dotted :: "cstr list \<Rightarrow> cstr" where
  "dotted [] = []"
| "dotted [l] = l"
| "dotted (l # ls) = l @ CHR ''.'' # dotted ls"

lemma enc_labels_dotted:
  "list_all label_ok ls \<Longrightarrow> enc_labels (dotted ls) [] = Some (concat (map label ls))"
proof (induction ls rule: dotted.induct)
  case (2 l)
  then show ?case using enc_labels_scan [of l "[]" "[]"] by (simp add: label_ok_def)
next
  case (3 l l' ls)
  then show ?case using enc_labels_scan [of l "CHR ''.'' # dotted (l' # ls)" "[]"] by (simp add: label_ok_def)
qed simp

lemma length_concat_label: "ls \<noteq> [] \<Longrightarrow> length (concat (map label ls)) = length (dotted ls) + 1"
  by (induction ls rule: dotted.induct) (simp_all add: label_def)

text \<open>C29: The question for a host name made of labels of 1 to 63 bytes is the 12-byte header with one question, each
  label behind its length, the root label, and type and class; it fits the 512-byte buffer when the name has at most 494 bytes.\<close>

theorem sp_dns_encode_labels:
  assumes "list_all label_ok ls" "ls \<noteq> []"
  shows "\<exists>q. sp_dns_encode (dotted ls) qtype qid = Some q
    \<and> q = dns_hdr qid 0x0100 1 0 @ concat (map label ls) @ [0] @ be16 qtype @ be16 1
    \<and> length q = length (dotted ls) + 18 \<and> (length (dotted ls) \<le> 494 \<longrightarrow> length q \<le> SP_DNS_TXT_LEN)"
  using enc_labels_dotted [OF assms(1)] length_concat_label [OF assms(2)]
  by (simp add: sp_dns_encode_def SP_DNS_TXT_LEN_def del: length_concat)

theorem sp_dns_encode_labels_witness:
  "\<exists>q. sp_dns_encode (dotted [''a'', ''bc'']) 1 7 = Some q \<and> length q = 22"
proof -
  have "list_all label_ok [''a'', ''bc'']" by code_simp
  from sp_dns_encode_labels [OF this, where qtype = 1 and qid = 7] show ?thesis by auto
qed

definition node_ok :: "u16 \<Rightarrow> addrinfo \<Rightarrow> bool" where
  "node_ok port n \<longleftrightarrow>
     ai_flags n = SP_AI_BRAND \<and> ai_port n = port
     \<and> (ai_family n = AF_INET \<and> length (ai_ip n) = 4 \<or> ai_family n = AF_INET6 \<and> length (ai_ip n) = 16)"

lemma ai_chain_ok:
  assumes "list_all (\<lambda>ip. length ip = 4) v4" "list_all (\<lambda>ip. length ip = 16) v6"
  shows "list_all (node_ok port) (ai_chain hints n port v4 v6)" "length (ai_chain hints n port v4 v6) \<le> 16"
  using assms by (auto simp: ai_chain_def Let_def list_all_iff node_ok_def ai_node_def dest: in_set_takeD)

lemma freeaddrinfo_branded:
  "list_all (\<lambda>n. ai_flags n = SP_AI_BRAND) ns \<Longrightarrow> freeaddrinfo ns = (ns, [])"
  by (induction ns) auto

text \<open>C28: Every chain \<^verbatim>\<open>getaddrinfo\<close> answers with has one to sixteen nodes, each branded and carrying a 4-byte IPv4 or a 16-byte
  IPv6 address for the requested port; and \<^verbatim>\<open>freeaddrinfo\<close> frees exactly the whole chain itself, leaving nothing to the library.
  The resolver always answers.\<close>

theorem getaddrinfo_chain:
  "\<exists>r qid'. getaddrinfo ask conf sock node service hints qid = Some (r, qid') \<and>
    (case r of
       GaiOk nodes \<Rightarrow> nodes \<noteq> [] \<and> length nodes \<le> 16 \<and> list_all (node_ok (sp_dns_port service)) nodes \<and> freeaddrinfo nodes = (nodes, [])
     | _ \<Rightarrow> True)"
proof -
  let ?fam = "case hints of None \<Rightarrow> 0 | Some h \<Rightarrow> h_family h"
  let ?real = "case node of None \<Rightarrow> True | Some n \<Rightarrow> \<not> sp_dns_host_ok n \<or> is_digit (hd n) \<or> (case hints of None \<Rightarrow> False | Some h \<Rightarrow> h_family h = AF_UNIX)"
  show ?thesis
  proof (cases ?real)
    case True
    then have "getaddrinfo ask conf sock node service hints qid = Some (GaiReal, qid)"
      by (auto simp: getaddrinfo_def split: option.splits)
    then show ?thesis by simp
  next
    case False
    then obtain n where n: "node = Some n" "sp_dns_host_ok n" "\<not> is_digit (hd n)"
      "\<not> (case hints of None \<Rightarrow> False | Some h \<Rightarrow> h_family h = AF_UNIX)" by (cases node) auto
    obtain rc acc q where l: "sp_dns_lookup ask conf sock n (?fam = AF_INET6) qid = Some (rc, acc, q)" "acc_ok acc"
      using sp_dns_lookup_ok by blast
    let ?v4 = "if ?fam = AF_INET6 then [] else a4 acc"
    define c where "c = ai_chain hints n (sp_dns_port service) ?v4 (a6 acc)"
    define r where "r = (if rc \<noteq> 0 then GaiAgain else if ?fam \<noteq> AF_INET \<and> ?fam \<noteq> AF_INET6 \<and> ?v4 = [] then GaiAgain
      else if c = [] then GaiAgain else GaiOk c)"
    have e: "getaddrinfo ask conf sock node service hints qid = Some (r, q)"
      using n l(1) by (simp add: getaddrinfo_def Let_def r_def c_def)
    have r: "r = GaiAgain \<or> r = GaiOk c \<and> c \<noteq> []" by (simp add: r_def)
    have "list_all (\<lambda>ip. length ip = 4) ?v4" "list_all (\<lambda>ip. length ip = 16) (a6 acc)"
      using l(2) by (auto simp: acc_ok_def)
    note c = ai_chain_ok [OF this, where port = "sp_dns_port service" and hints = hints and n = n, folded c_def]
    have "list_all (\<lambda>m. ai_flags m = SP_AI_BRAND) c" using c(1) by (auto simp: list_all_iff node_ok_def)
    then have f: "freeaddrinfo c = (c, [])" by (rule freeaddrinfo_branded)
    show ?thesis unfolding e using r c f by auto
  qed
qed

section \<open>Observations\<close>

text \<open>An empty answer ends the search: the remaining servers are not asked.\<close>

lemma lookup_empty_stops:
  assumes "sp_dns_encode host (if v6 then 28 else 1) qid = Some q" "ask srv q = Some ans" "12 \<le> length ans"
    and "sp_dns_extract ans v6 acc = Some (0, acc')"
  shows "lookup_loop ask host v6 qid (srv # srvs) (- 1) acc = Some (0, acc')"
  using assms by (cases srvs) simp_all

text \<open>A long host name makes a question longer than the buffer it is written to.\<close>

lemma sp_dns_encode_overflows:
  "\<exists>host q. sp_dns_encode host 1 7 = Some q \<and> SP_DNS_TXT_LEN < length q"
proof -
  let ?ls = "replicate 260 ''ab''"
  have "list_all label_ok ?ls" by (simp add: list_all_iff label_ok_def)
  note e = enc_labels_dotted [OF this]
  have "length (concat (map label ?ls)) = 780" by (simp add: label_def length_concat sum_list_replicate)
  then show ?thesis
    using e by (intro exI [of _ "dotted ?ls"]) (simp add: sp_dns_encode_def SP_DNS_TXT_LEN_def del: length_concat)
qed

text \<open>The error test looks at two of the four bits of the response code: 4 (not implemented) passes as a success.\<close>

lemma rcode_4_accepted:
  "sp_dns_extract [0, 1, 0x81, 0x84, 0, 0, 0, 0, 0, 0, 0, 0] False acc0 = Some (0, acc0)"
  by code_simp

end
