(* ===== verification/Sprout_Identity.thy ===== *)
theory Sprout_Identity
  imports Sprout_Dns
begin

text \<open>
  Identity emulation of the interposer: the fake user and group ids behind the \<^verbatim>\<open>set*id\<close> and \<^verbatim>\<open>get*id\<close> wrappers,
  the ownership and link-count repairs of \<^verbatim>\<open>stat\<close> results, the emulated permission check of the \<^verbatim>\<open>access\<close> family, and
  the lookups in the guest's \<^verbatim>\<open>/etc/passwd\<close> and \<^verbatim>\<open>/etc/group\<close>. The functions of the C library are arguments. The switch
  \<^verbatim>\<open>sp_fakeroot_on\<close> is read from the environment at its first use and kept; the environment here is that one.
\<close>

unbundle bit_operations_syntax

section \<open>Fake ids\<close>

record ids =
  g_fake_uid :: u32
  g_fake_gid :: u32
  g_fake_groups :: "u32 list"
  g_fake_ngroups :: nat

definition ids_init :: ids where
  "ids_init = \<lparr>g_fake_uid = 0, g_fake_gid = 0, g_fake_groups = replicate 64 0, g_fake_ngroups = 0\<rparr>"

definition sp_fakeroot_on :: "env \<Rightarrow> bool" where
  "sp_fakeroot_on e \<longleftrightarrow> getenv e ''SPROUT_FAKEROOT'' \<noteq> None"

text \<open>The anchor that the constructor takes from \<^verbatim>\<open>SPROUT_FAKE_UID\<close> and \<^verbatim>\<open>SPROUT_FAKE_GID\<close>: a digit loop in 64 bits.\<close>

definition digits_u64 :: "cptr \<Rightarrow> u64" where
  "digits_u64 v = (case v of None \<Rightarrow> 0
     | Some s \<Rightarrow> foldl (\<lambda>u c. u * 10 + word_of_nat (of_char c - 48)) 0 (takeWhile is_digit s))"

definition sp_identity_anchor :: "env \<Rightarrow> ids \<Rightarrow> ids" where
  "sp_identity_anchor e s =
     (let g = ucast (digits_u64 (getenv e ''SPROUT_FAKE_GID'')) in
      s\<lparr>g_fake_uid := ucast (digits_u64 (getenv e ''SPROUT_FAKE_UID'')), g_fake_gid := g,
        g_fake_groups := (g_fake_groups s)[0 := g], g_fake_ngroups := 1\<rparr>)"

text \<open>The library's own functions: what the calls return.\<close>

datatype idcall = Setuid u32 | Seteuid u32 | Setgid u32 | Setegid u32 | Setreuid u32 u32 | Setregid u32 u32
  | Setresuid u32 u32 u32 | Setresgid u32 u32 u32 | Setgroups "u32 list" | Initgroups cptr u32

record idlib =
  lib_set :: "idcall \<Rightarrow> int"
  lib_uid :: u32
  lib_euid :: u32
  lib_gid :: u32
  lib_egid :: u32
  lib_res_uid :: "u32 \<times> u32 \<times> u32"
  lib_res_gid :: "u32 \<times> u32 \<times> u32"
  lib_groups :: "u32 list"

definition NO_ID :: u32 where
  "NO_ID = - 1"

definition setuid :: "idlib \<Rightarrow> env \<Rightarrow> u32 \<Rightarrow> ids \<Rightarrow> int \<times> ids" where
  "setuid lib e uid s = (if sp_fakeroot_on e then (0, s\<lparr>g_fake_uid := uid\<rparr>) else (lib_set lib (Setuid uid), s))"

definition seteuid :: "idlib \<Rightarrow> env \<Rightarrow> u32 \<Rightarrow> ids \<Rightarrow> int \<times> ids" where
  "seteuid lib e uid s = (if sp_fakeroot_on e then (0, s\<lparr>g_fake_uid := uid\<rparr>) else (lib_set lib (Seteuid uid), s))"

definition setgid :: "idlib \<Rightarrow> env \<Rightarrow> u32 \<Rightarrow> ids \<Rightarrow> int \<times> ids" where
  "setgid lib e gid s =
     (if sp_fakeroot_on e
      then (0, s\<lparr>g_fake_gid := gid, g_fake_groups := (g_fake_groups s)[0 := gid], g_fake_ngroups := 1\<rparr>)
      else (lib_set lib (Setgid gid), s))"

definition setegid :: "idlib \<Rightarrow> env \<Rightarrow> u32 \<Rightarrow> ids \<Rightarrow> int \<times> ids" where
  "setegid lib e gid s = (if sp_fakeroot_on e then (0, s\<lparr>g_fake_gid := gid\<rparr>) else (lib_set lib (Setegid gid), s))"

definition setreuid :: "idlib \<Rightarrow> env \<Rightarrow> u32 \<Rightarrow> u32 \<Rightarrow> ids \<Rightarrow> int \<times> ids" where
  "setreuid lib e ruid euid s =
     (if sp_fakeroot_on e then (0, if euid \<noteq> NO_ID then s\<lparr>g_fake_uid := euid\<rparr> else s) else (lib_set lib (Setreuid ruid euid), s))"

definition setregid :: "idlib \<Rightarrow> env \<Rightarrow> u32 \<Rightarrow> u32 \<Rightarrow> ids \<Rightarrow> int \<times> ids" where
  "setregid lib e rgid egid s =
     (if sp_fakeroot_on e then (0, if egid \<noteq> NO_ID then s\<lparr>g_fake_gid := egid\<rparr> else s) else (lib_set lib (Setregid rgid egid), s))"

definition setresuid :: "idlib \<Rightarrow> env \<Rightarrow> u32 \<Rightarrow> u32 \<Rightarrow> u32 \<Rightarrow> ids \<Rightarrow> int \<times> ids" where
  "setresuid lib e ruid euid suid s =
     (if sp_fakeroot_on e then (0, if euid \<noteq> NO_ID then s\<lparr>g_fake_uid := euid\<rparr> else s)
      else (lib_set lib (Setresuid ruid euid suid), s))"

definition setresgid :: "idlib \<Rightarrow> env \<Rightarrow> u32 \<Rightarrow> u32 \<Rightarrow> u32 \<Rightarrow> ids \<Rightarrow> int \<times> ids" where
  "setresgid lib e rgid egid sgid s =
     (if sp_fakeroot_on e then (0, if egid \<noteq> NO_ID then s\<lparr>g_fake_gid := egid\<rparr> else s)
      else (lib_set lib (Setresgid rgid egid sgid), s))"

definition setgroups :: "idlib \<Rightarrow> env \<Rightarrow> u32 list \<Rightarrow> ids \<Rightarrow> int \<times> ids" where
  "setgroups lib e gs s =
     (if sp_fakeroot_on e
      then (let c = min (length gs) 64 in
            (0, s\<lparr>g_fake_groups := take c gs @ drop c (g_fake_groups s), g_fake_ngroups := c\<rparr>))
      else (lib_set lib (Setgroups gs), s))"

definition initgroups :: "idlib \<Rightarrow> env \<Rightarrow> cptr \<Rightarrow> u32 \<Rightarrow> ids \<Rightarrow> int \<times> ids" where
  "initgroups lib e u g s =
     (if sp_fakeroot_on e then (0, s\<lparr>g_fake_groups := (g_fake_groups s)[0 := g], g_fake_ngroups := 1\<rparr>)
      else (lib_set lib (Initgroups u g), s))"

definition getresuid :: "idlib \<Rightarrow> env \<Rightarrow> ids \<Rightarrow> u32 \<times> u32 \<times> u32" where
  "getresuid lib e s = (if sp_fakeroot_on e then (g_fake_uid s, g_fake_uid s, g_fake_uid s) else lib_res_uid lib)"

definition getresgid :: "idlib \<Rightarrow> env \<Rightarrow> ids \<Rightarrow> u32 \<times> u32 \<times> u32" where
  "getresgid lib e s = (if sp_fakeroot_on e then (g_fake_gid s, g_fake_gid s, g_fake_gid s) else lib_res_gid lib)"

text \<open>The count, and the ids written to the caller's list; the library refuses a list that is too short.\<close>

definition lib_getgroups :: "idlib \<Rightarrow> int \<Rightarrow> int \<times> u32 list" where
  "lib_getgroups lib n =
     (if n = 0 then (int (length (lib_groups lib)), [])
      else if n < int (length (lib_groups lib)) then (-1, [])
      else (int (length (lib_groups lib)), lib_groups lib))"

definition getgroups :: "idlib \<Rightarrow> env \<Rightarrow> int \<Rightarrow> ids \<Rightarrow> int \<times> u32 list" where
  "getgroups lib e n s =
     (if sp_fakeroot_on e
      then (if n \<le> 0 then (int (g_fake_ngroups s), [])
            else (let c = min (g_fake_ngroups s) (nat n) in (int c, take c (g_fake_groups s))))
      else lib_getgroups lib n)"

text \<open>These four ask the configuration, which wants the value 1, not the environment.\<close>

definition geteuid :: "idlib \<Rightarrow> bool \<Rightarrow> ids \<Rightarrow> u32" where
  "geteuid lib cfr s = (if cfr then g_fake_uid s else lib_euid lib)"

definition getegid :: "idlib \<Rightarrow> bool \<Rightarrow> ids \<Rightarrow> u32" where
  "getegid lib cfr s = (if cfr then g_fake_gid s else lib_egid lib)"

definition getuid :: "idlib \<Rightarrow> bool \<Rightarrow> ids \<Rightarrow> u32" where
  "getuid lib cfr s = (if cfr then g_fake_uid s else geteuid lib cfr s)"

definition getgid :: "idlib \<Rightarrow> bool \<Rightarrow> ids \<Rightarrow> u32" where
  "getgid lib cfr s = (if cfr then g_fake_gid s else getegid lib cfr s)"

definition setfsuid :: "idlib \<Rightarrow> u32 \<Rightarrow> errno + int" where
  "setfsuid lib fsuid = (if fsuid = lib_uid lib \<or> fsuid = lib_euid lib then Inr (sint fsuid) else Inl EPERM)"

definition setfsgid :: "idlib \<Rightarrow> u32 \<Rightarrow> errno + int" where
  "setfsgid lib fsgid = (if fsgid = lib_gid lib \<or> fsgid = lib_egid lib then Inr (sint fsgid) else Inl EPERM)"

section \<open>Results of stat\<close>

record stat_buf =
  stat_mode :: u32
  stat_uid :: u32
  stat_gid :: u32
  stat_nlink :: nat
  stat_size :: int

definition sp_spoof_uid_gid :: "idlib \<Rightarrow> env \<Rightarrow> ids \<Rightarrow> stat_buf \<Rightarrow> stat_buf" where
  "sp_spoof_uid_gid lib e s b =
     (if \<not> sp_fakeroot_on e then b
      else b\<lparr>stat_uid := (if stat_uid b = lib_euid lib then g_fake_uid s else stat_uid b),
             stat_gid := (if stat_gid b = lib_egid lib then g_fake_gid s else stat_gid b)\<rparr>)"

definition SP_HREG_MAX :: nat where
  "SP_HREG_MAX = 256"

definition sp_hreg_hit :: "cstr list \<Rightarrow> cptr \<Rightarrow> bool" where
  "sp_hreg_hit reg gpath = (case gpath of None \<Rightarrow> False | Some g \<Rightarrow> g \<in> set reg)"

definition sp_hreg_note :: "cptr \<Rightarrow> cstr list \<Rightarrow> cstr list" where
  "sp_hreg_note gpath reg =
     (case gpath of
        None \<Rightarrow> reg
      | Some g \<Rightarrow>
          if char_at g 0 \<noteq> slash \<or> SP_HREG_MAX \<le> length reg \<or> sp_hreg_hit reg gpath then reg
          else reg @ [snprintf_s SP_PATH_MAX g])"

definition hreg_bump :: "cstr list \<Rightarrow> cptr \<Rightarrow> stat_buf \<Rightarrow> stat_buf" where
  "hreg_bump reg gpath b = (if sp_hreg_hit reg gpath \<and> stat_nlink b = 1 then b\<lparr>stat_nlink := 2\<rparr> else b)"

definition sp_self_exe_match :: "nat \<Rightarrow> cptr \<Rightarrow> bool" where
  "sp_self_exe_match pid path = (case path of None \<Rightarrow> False | Some p \<Rightarrow> names_self pid ''exe'' p)"

text \<open>\<^verbatim>\<open>S_IFMT\<close> is 0170000, \<^verbatim>\<open>S_IFLNK | 0777\<close> is 0120777.\<close>

definition sp_self_exe_linkify :: "env \<Rightarrow> nat \<Rightarrow> cptr \<Rightarrow> stat_buf \<Rightarrow> stat_buf" where
  "sp_self_exe_linkify e pid path b =
     (if getenv e ''SPROUT_NOLINKIFY'' \<noteq> None \<or> \<not> sp_self_exe_match pid path then b
      else
        (case nonempty_or (getenv e ''SPROUT_EXE'') None of
           None \<Rightarrow> b
         | Some x \<Rightarrow> b\<lparr>stat_mode := (stat_mode b AND NOT 0xF000) OR 0xA1FF, stat_size := int (length x)\<rparr>))"

section \<open>The emulated permission check\<close>

definition R_OK :: u32 where "R_OK = 4"
definition W_OK :: u32 where "W_OK = 2"
definition X_OK :: u32 where "X_OK = 1"

definition need_bits :: "u32 \<Rightarrow> u32" where
  "need_bits mode =
     (if mode AND R_OK \<noteq> 0 then 4 else 0) OR (if mode AND W_OK \<noteq> 0 then 2 else 0) OR (if mode AND X_OK \<noteq> 0 then 1 else 0)"

text \<open>\<open>st\<close> is what \<^verbatim>\<open>fstatat\<close> answers. The supplementary groups are asked for with room for 64.\<close>

definition access_class :: "idlib \<Rightarrow> u32 \<Rightarrow> u32 \<Rightarrow> stat_buf \<Rightarrow> u32" where
  "access_class lib uid gid b =
     (if stat_uid b = uid then drop_bit 6 (stat_mode b)
      else if stat_gid b = gid then drop_bit 3 (stat_mode b)
      else if stat_gid b \<in> set (snd (lib_getgroups lib 64)) then drop_bit 3 (stat_mode b)
      else stat_mode b)"

definition sp_emulate_access_impl :: "idlib \<Rightarrow> errno + stat_buf \<Rightarrow> u32 \<Rightarrow> bool \<Rightarrow> errno + int" where
  "sp_emulate_access_impl lib st mode use_eid =
     (case st of
        Inl err \<Rightarrow> Inl err
      | Inr b \<Rightarrow>
          if mode = 0 then Inr 0
          else
            (let uid = (if use_eid then lib_euid lib else lib_uid lib);
                 gid = (if use_eid then lib_egid lib else lib_gid lib);
                 need = need_bits mode;
                 bits = (if uid = 0 then (need AND 6) OR (if stat_mode b AND 0x49 \<noteq> 0 then 1 else 0)
                         else access_class lib uid gid b) in
             if bits AND need = need then Inr 0 else Inl EACCES))"

section \<open>The guest's passwd and group files\<close>

record passwd =
  pw_name :: cstr
  pw_passwd :: cstr
  pw_uid :: u32
  pw_gid :: u32
  pw_gecos :: cstr
  pw_dir :: cstr
  pw_shell :: cstr

record group =
  gr_name :: cstr
  gr_passwd :: cstr
  gr_gid :: u32
  gr_mem :: "cstr list"

definition sp_root_passwd :: passwd where
  "sp_root_passwd = \<lparr>pw_name = ''root'', pw_passwd = ''x'', pw_uid = 0, pw_gid = 0, pw_gecos = ''root'', pw_dir = ''/root'', pw_shell = ''/bin/sh''\<rparr>"

definition sp_root_group :: group where
  "sp_root_group = \<lparr>gr_name = ''root'', gr_passwd = ''x'', gr_gid = 0, gr_mem = [''root'']\<rparr>"

definition SP_PW_CACHE_MAX :: nat where "SP_PW_CACHE_MAX = 192"
definition SP_GR_CACHE_MAX :: nat where "SP_GR_CACHE_MAX = 96"

text \<open>\<^verbatim>\<open>atoi\<close>: white space, a sign, digits.\<close>

definition digits_nat :: "cstr \<Rightarrow> nat" where
  "digits_nat s = foldl (\<lambda>v c. v * 10 + (of_char c - 48)) 0 (takeWhile is_digit s)"

definition atoi :: "cstr \<Rightarrow> int" where
  "atoi s0 =
     (let s = dropWhile is_space s0 in
      case s of
        [] \<Rightarrow> 0
      | c # r \<Rightarrow> if c = CHR ''-'' then - int (digits_nat r) else if c = CHR ''+'' then int (digits_nat r) else int (digits_nat s))"

definition sp_colon :: "cstr \<Rightarrow> cptr" where
  "sp_colon x = (case strchr x (CHR '':'') of None \<Rightarrow> None | Some i \<Rightarrow> Some (drop (Suc i) x))"

text \<open>\<^verbatim>\<open>(int)(b - a) - 1\<close> for two suffixes of the line.\<close>

definition gap :: "cstr \<Rightarrow> cstr \<Rightarrow> nat" where
  "gap a b = length a - length b - 1"

definition eol_at :: "cstr \<Rightarrow> nat option" where
  "eol_at s = strchr s (CHR 0x0A)"

definition passwd_entry :: "cstr \<Rightarrow> cstr \<Rightarrow> cstr \<Rightarrow> cstr \<Rightarrow> cstr \<Rightarrow> cstr \<Rightarrow> cstr \<Rightarrow> passwd option" where
  "passwd_entry f0 f1 f2 f3 f4 f5 f6 =
     (if gap f0 f1 < 1 \<or> 45 < gap f0 f1 then None
      else Some
        \<lparr>pw_name = take (gap f0 f1) f0,
         pw_passwd = take (if 45 < gap f1 f2 then 1 else gap f1 f2) f1,
         pw_uid = word_of_int (atoi f2), pw_gid = word_of_int (atoi f3),
         pw_gecos = take (min 60 (gap f4 f5)) f4,
         pw_dir = take (if gap f5 f6 < 1 then 1 else min 60 (gap f5 f6)) f5,
         pw_shell = (case eol_at f6 of Some e \<Rightarrow> take (min 60 e) f6 | None \<Rightarrow> take 9 f6)\<rparr>)"

definition parse_passwd :: "cstr \<Rightarrow> passwd option" where
  "parse_passwd f0 =
     Option.bind (sp_colon f0) (\<lambda>f1. Option.bind (sp_colon f1) (\<lambda>f2. Option.bind (sp_colon f2) (\<lambda>f3.
     Option.bind (sp_colon f3) (\<lambda>f4. Option.bind (sp_colon f4) (\<lambda>f5. Option.bind (sp_colon f5) (\<lambda>f6.
       passwd_entry f0 f1 f2 f3 f4 f5 f6))))))"

fun passwd_lines :: "nat \<Rightarrow> cstr list \<Rightarrow> passwd list" where
  "passwd_lines n [] = []"
| "passwd_lines n (l # ls) =
     (if SP_PW_CACHE_MAX \<le> n then []
      else if char_at l 0 = CHR ''#'' then passwd_lines n ls
      else (case parse_passwd l of None \<Rightarrow> passwd_lines n ls | Some e \<Rightarrow> e # passwd_lines (Suc n) ls))"

definition sp_passwd_refresh :: "cptr \<Rightarrow> passwd list" where
  "sp_passwd_refresh file = (case file of None \<Rightarrow> [] | Some s \<Rightarrow> passwd_lines 0 (fgets_all 400 s))"

text \<open>
  The members of a group. On a last line without newline the length of the last member is computed from a NULL
  pointer; \<open>junk\<close> is that number.
\<close>

fun group_members :: "int \<Rightarrow> nat \<Rightarrow> cstr \<Rightarrow> cstr list" where
  "group_members junk 0 m = []"
| "group_members junk (Suc n) m =
     (let lm = (case strchr m (CHR '','') of Some c \<Rightarrow> int c | None \<Rightarrow> (case eol_at m of Some i \<Rightarrow> int i | None \<Rightarrow> junk)) in
      if lm < 1 then []
      else take (nat (min 45 lm)) m
           # (case strchr m (CHR '','') of None \<Rightarrow> [] | Some c \<Rightarrow> group_members junk n (drop (Suc c) m)))"

definition parse_group :: "int \<Rightarrow> cstr \<Rightarrow> group option" where
  "parse_group junk f0 =
     Option.bind (sp_colon f0) (\<lambda>f1. Option.bind (sp_colon f1) (\<lambda>f2. Option.bind (sp_colon f2) (\<lambda>f3.
       if gap f0 f1 < 1 \<or> 45 < gap f0 f1 then None
       else Some \<lparr>gr_name = take (gap f0 f1) f0, gr_passwd = take (if 45 < gap f1 f2 then 1 else gap f1 f2) f1,
                  gr_gid = word_of_int (atoi f2), gr_mem = group_members junk 11 f3\<rparr>)))"

fun group_lines :: "int \<Rightarrow> nat \<Rightarrow> cstr list \<Rightarrow> group list" where
  "group_lines junk n [] = []"
| "group_lines junk n (l # ls) =
     (if SP_GR_CACHE_MAX \<le> n then []
      else if char_at l 0 = CHR ''#'' then group_lines junk n ls
      else (case parse_group junk l of None \<Rightarrow> group_lines junk n ls | Some e \<Rightarrow> e # group_lines junk (Suc n) ls))"

definition sp_group_refresh :: "int \<Rightarrow> cptr \<Rightarrow> group list" where
  "sp_group_refresh junk file = (case file of None \<Rightarrow> [] | Some s \<Rightarrow> group_lines junk 0 (fgets_all 400 s))"

text \<open>The caches of a process; None is a cache that was never parsed.\<close>

record nss =
  pw_cache :: "passwd list option"
  gr_cache :: "group list option"

definition pw_fill :: "cptr \<Rightarrow> nss \<Rightarrow> nss" where
  "pw_fill file s = (case pw_cache s of None \<Rightarrow> s\<lparr>pw_cache := Some (sp_passwd_refresh file)\<rparr> | Some _ \<Rightarrow> s)"

definition gr_fill :: "int \<Rightarrow> cptr \<Rightarrow> nss \<Rightarrow> nss" where
  "gr_fill junk file s = (case gr_cache s of None \<Rightarrow> s\<lparr>gr_cache := Some (sp_group_refresh junk file)\<rparr> | Some _ \<Rightarrow> s)"

definition sp_guest_getpwuid :: "cptr \<Rightarrow> u32 \<Rightarrow> nss \<Rightarrow> passwd option \<times> nss" where
  "sp_guest_getpwuid file uid s = (let s' = pw_fill file s in (find (\<lambda>p. pw_uid p = uid) (the (pw_cache s')), s'))"

definition sp_guest_getpwnam :: "cptr \<Rightarrow> cstr \<Rightarrow> nss \<Rightarrow> passwd option \<times> nss" where
  "sp_guest_getpwnam file nm s = (let s' = pw_fill file s in (find (\<lambda>p. pw_name p = nm) (the (pw_cache s')), s'))"

definition sp_guest_getgrgid :: "int \<Rightarrow> cptr \<Rightarrow> u32 \<Rightarrow> nss \<Rightarrow> group option \<times> nss" where
  "sp_guest_getgrgid junk file gid s = (let s' = gr_fill junk file s in (find (\<lambda>g. gr_gid g = gid) (the (gr_cache s')), s'))"

definition sp_guest_getgrnam :: "int \<Rightarrow> cptr \<Rightarrow> cstr \<Rightarrow> nss \<Rightarrow> group option \<times> nss" where
  "sp_guest_getgrnam junk file nm s = (let s' = gr_fill junk file s in (find (\<lambda>g. gr_name g = nm) (the (gr_cache s')), s'))"

text \<open>The library's answer first, then the guest's file, then the synthetic root entry.\<close>

definition or_root :: "bool \<Rightarrow> 'a \<Rightarrow> 'a option \<Rightarrow> 'a option" where
  "or_root b root r = (case r of Some v \<Rightarrow> Some v | None \<Rightarrow> if b then Some root else None)"

definition getpwuid :: "(u32 \<Rightarrow> passwd option) \<Rightarrow> env \<Rightarrow> cptr \<Rightarrow> u32 \<Rightarrow> nss \<Rightarrow> passwd option \<times> nss" where
  "getpwuid real e file uid s =
     (case real uid of
        Some r \<Rightarrow> (Some r, s)
      | None \<Rightarrow> (let (r, s') = sp_guest_getpwuid file uid s in (or_root (sp_fakeroot_on e \<and> uid = 0) sp_root_passwd r, s')))"

definition getpwnam :: "(cstr \<Rightarrow> passwd option) \<Rightarrow> env \<Rightarrow> cptr \<Rightarrow> cstr \<Rightarrow> nss \<Rightarrow> passwd option \<times> nss" where
  "getpwnam real e file nm s =
     (case real nm of
        Some r \<Rightarrow> (Some r, s)
      | None \<Rightarrow> (let (r, s') = sp_guest_getpwnam file nm s in (or_root (sp_fakeroot_on e \<and> nm = ''root'') sp_root_passwd r, s')))"

definition getgrgid :: "(u32 \<Rightarrow> group option) \<Rightarrow> env \<Rightarrow> int \<Rightarrow> cptr \<Rightarrow> u32 \<Rightarrow> nss \<Rightarrow> group option \<times> nss" where
  "getgrgid real e junk file gid s =
     (case real gid of
        Some r \<Rightarrow> (Some r, s)
      | None \<Rightarrow> (let (r, s') = sp_guest_getgrgid junk file gid s in (or_root (sp_fakeroot_on e \<and> gid = 0) sp_root_group r, s')))"

definition getgrnam :: "(cstr \<Rightarrow> group option) \<Rightarrow> env \<Rightarrow> int \<Rightarrow> cptr \<Rightarrow> cstr \<Rightarrow> nss \<Rightarrow> group option \<times> nss" where
  "getgrnam real e junk file nm s =
     (case real nm of
        Some r \<Rightarrow> (Some r, s)
      | None \<Rightarrow> (let (r, s') = sp_guest_getgrnam junk file nm s in (or_root (sp_fakeroot_on e \<and> nm = ''root'') sp_root_group r, s')))"

text \<open>\<^verbatim>\<open>sp_pack_passwd_from\<close>: the entry, with the number of bytes written to the caller's buffer.\<close>

definition pack_need :: "passwd \<Rightarrow> nat" where
  "pack_need p = length (pw_name p) + 2 + length (pw_gecos p) + 1 + length (pw_dir p) + 1 + length (pw_shell p) + 1"

definition pack_written :: "passwd \<Rightarrow> nat" where
  "pack_written p = length (pw_name p) + 1 + (length (pw_passwd p) + 1) + (length (pw_gecos p) + 1) + (length (pw_dir p) + 1)
     + (length (pw_shell p) + 1)"

definition sp_pack_passwd_from :: "passwd \<Rightarrow> nat \<Rightarrow> errno + passwd \<times> nat" where
  "sp_pack_passwd_from src buflen = (if buflen < pack_need src then Inl ERANGE else Inr (src, pack_written src))"

text \<open>The reentrant forms: the returned error number (None is 0) and the entry.\<close>

definition pack_result :: "errno option \<Rightarrow> nat \<Rightarrow> passwd option \<Rightarrow> errno option \<times> passwd option" where
  "pack_result rr buflen g =
     (case g of
        None \<Rightarrow> (rr, None)
      | Some p \<Rightarrow> (case sp_pack_passwd_from p buflen of Inl err \<Rightarrow> (Some err, None) | Inr (q, _) \<Rightarrow> (None, Some q)))"

definition getpwuid_r :: "(u32 \<Rightarrow> errno option \<times> passwd option) \<Rightarrow> env \<Rightarrow> cptr \<Rightarrow> nat \<Rightarrow> u32 \<Rightarrow> nss
    \<Rightarrow> (errno option \<times> passwd option) \<times> nss" where
  "getpwuid_r real e file buflen uid s =
     (case real uid of
        (rr, Some p) \<Rightarrow> ((rr, Some p), s)
      | (rr, None) \<Rightarrow>
          (let (r, s') = sp_guest_getpwuid file uid s in
           (pack_result rr buflen (or_root (sp_fakeroot_on e \<and> uid = 0) sp_root_passwd r), s')))"

definition getpwnam_r :: "(cstr \<Rightarrow> errno option \<times> passwd option) \<Rightarrow> env \<Rightarrow> cptr \<Rightarrow> nat \<Rightarrow> cstr \<Rightarrow> nss
    \<Rightarrow> (errno option \<times> passwd option) \<times> nss" where
  "getpwnam_r real e file buflen nm s =
     (case real nm of
        (rr, Some p) \<Rightarrow> ((rr, Some p), s)
      | (rr, None) \<Rightarrow>
          (let (r, s') = sp_guest_getpwnam file nm s in
           (pack_result rr buflen (or_root (sp_fakeroot_on e \<and> nm = ''root'') sp_root_passwd r), s')))"

section \<open>Lemmas: the permission check\<close>

text \<open>
  The rule of POSIX, right by right: execute is bit 0, write bit 1, read bit 2 of the class that applies. The superuser may read
  and write everything and execute what anyone may execute.
\<close>

definition posix_allows :: "idlib \<Rightarrow> u32 \<Rightarrow> u32 \<Rightarrow> stat_buf \<Rightarrow> nat \<Rightarrow> bool" where
  "posix_allows lib uid gid b r \<longleftrightarrow>
     (if uid = 0 then r = 0 \<longrightarrow> bit (stat_mode b) 0 \<or> bit (stat_mode b) 3 \<or> bit (stat_mode b) 6
      else if stat_uid b = uid then bit (stat_mode b) (6 + r)
      else if stat_gid b = gid \<or> stat_gid b \<in> set (lib_groups lib) then bit (stat_mode b) (3 + r)
      else bit (stat_mode b) r)"

lemma bit_power: "bit (2 ^ k :: u32) n \<longleftrightarrow> n = k \<and> k < 32"
  by (auto simp: bit_simps)

lemma bit_consts:
  "bit (4 :: u32) n \<longleftrightarrow> n = 2" "bit (2 :: u32) n \<longleftrightarrow> n = 1" "bit (1 :: u32) n \<longleftrightarrow> n = 0" "bit (8 :: u32) n \<longleftrightarrow> n = 3"
  "bit (64 :: u32) n \<longleftrightarrow> n = 6"
  using bit_power [of 2 n] bit_power [of 1 n] bit_power [of 0 n] bit_power [of 3 n] bit_power [of 6 n] by simp_all

lemma and_power: "(m :: u32) AND 2 ^ k = 0 \<longleftrightarrow> \<not> bit m k"
  by (rule and_exp_eq_0_iff_not_bit)

lemma and_rights: "(m :: u32) AND R_OK \<noteq> 0 \<longleftrightarrow> bit m 2" "m AND W_OK \<noteq> 0 \<longleftrightarrow> bit m 1" "m AND X_OK \<noteq> 0 \<longleftrightarrow> bit m 0"
  using and_power [of m 2] and_power [of m 1] and_power [of m 0] by (simp_all add: R_OK_def W_OK_def X_OK_def)

lemma bit_flag:
  "bit (if c then (4 :: u32) else 0) n \<longleftrightarrow> c \<and> n = 2" "bit (if c then (2 :: u32) else 0) n \<longleftrightarrow> c \<and> n = 1"
  "bit (if c then (1 :: u32) else 0) n \<longleftrightarrow> c \<and> n = 0"
  using bit_consts [of n] by (cases c; simp)+

lemma bit_need: "bit (need_bits mode) n \<longleftrightarrow> n < 3 \<and> bit mode n"
proof -
  have "n < 3 \<longleftrightarrow> n = 2 \<or> n = 1 \<or> n = 0" by auto
  then show ?thesis unfolding need_bits_def and_rights bit_or_iff bit_flag by auto
qed

lemma mask_covers: "(a :: u32) AND m = m \<longleftrightarrow> (\<forall>n. bit m n \<longrightarrow> bit a n)"
proof
  assume e: "a AND m = m"
  show "\<forall>n. bit m n \<longrightarrow> bit a n"
  proof (intro allI impI)
    fix n
    assume "bit m n"
    then have "bit (a AND m) n" using e by simp
    then show "bit a n" by (simp add: bit_and_iff)
  qed
next
  assume "\<forall>n. bit m n \<longrightarrow> bit a n"
  then show "a AND m = m" by (intro bit_eqI) (auto simp: bit_and_iff)
qed

lemma zero_bits: "(a :: u32) = 0 \<longleftrightarrow> (\<forall>n. \<not> bit a n)"
proof
  assume "\<forall>n. \<not> bit a n"
  then show "a = 0" by (intro bit_eqI) simp
qed simp

lemma bit_six: "bit (6 :: u32) n \<longleftrightarrow> n = 1 \<or> n = 2"
proof -
  have "(6 :: u32) = 4 OR 2" by simp
  then show ?thesis by (simp only: bit_or_iff bit_consts) blast
qed

lemma any_exec: "(m :: u32) AND 0x49 \<noteq> 0 \<longleftrightarrow> bit m 0 \<or> bit m 3 \<or> bit m 6"
proof -
  have "(0x49 :: u32) = 64 OR 8 OR 1" by simp
  then have c: "bit (0x49 :: u32) n \<longleftrightarrow> n = 6 \<or> n = 3 \<or> n = 0" for n by (simp only: bit_or_iff bit_consts) 
  show ?thesis unfolding zero_bits bit_and_iff c by auto
qed

lemma getgroups_64: "length (lib_groups lib) \<le> 64 \<Longrightarrow> snd (lib_getgroups lib 64) = lib_groups lib"
  by (simp add: lib_getgroups_def)

lemma access_class_bit:
  assumes "length (lib_groups lib) \<le> 64" "uid \<noteq> 0"
  shows "bit (access_class lib uid gid b) r \<longleftrightarrow> posix_allows lib uid gid b r"
  using assms(2) by (simp add: access_class_def posix_allows_def getgroups_64 [OF assms(1)] bit_drop_bit_eq add.commute)

text \<open>C34: The emulated check of access(2) is the POSIX rule: it grants a request exactly if every right asked for is granted by the one
  class - owner, group including the supplementary groups, other - that applies to the caller, with the rule for the superuser.\<close>

theorem sp_emulate_access_posix:
  assumes "length (lib_groups lib) \<le> 64"
    and "uid = (if use_eid then lib_euid lib else lib_uid lib)" "gid = (if use_eid then lib_egid lib else lib_gid lib)"
  shows "sp_emulate_access_impl lib (Inr b) mode use_eid
    = (if \<forall>r < 3. bit mode r \<longrightarrow> posix_allows lib uid gid b r then Inr 0 else Inl EACCES)"
proof (cases "mode = 0")
  case True
  then show ?thesis by (simp add: sp_emulate_access_impl_def)
next
  case False
  define bits where "bits = (if uid = 0 then (need_bits mode AND 6) OR (if stat_mode b AND 0x49 \<noteq> 0 then 1 else 0) else access_class lib uid gid b)"
  have "bit bits n \<longleftrightarrow> posix_allows lib uid gid b n" if n: "n < 3" "bit mode n" for n
  proof (cases "uid = 0")
    case True
    have "bit bits n \<longleftrightarrow> bit (need_bits mode AND 6) n \<or> bit (if stat_mode b AND 0x49 \<noteq> 0 then 1 else 0 :: u32) n"
      using True by (simp only: bits_def refl if_True bit_or_iff)
    also have "\<dots> \<longleftrightarrow> (n = 1 \<or> n = 2) \<or> stat_mode b AND 0x49 \<noteq> 0 \<and> n = 0"
      using n by (simp only: bit_and_iff bit_need bit_six bit_flag) blast
    also have "\<dots> \<longleftrightarrow> posix_allows lib uid gid b n"
      using True n(1) unfolding any_exec posix_allows_def by (cases "n = 0") auto
    finally show ?thesis .
  next
    case False
    then show ?thesis using access_class_bit [OF assms(1) False] by (simp add: bits_def)
  qed
  then have "bits AND need_bits mode = need_bits mode \<longleftrightarrow> (\<forall>r < 3. bit mode r \<longrightarrow> posix_allows lib uid gid b r)"
    by (auto simp: mask_covers bit_need)
  moreover have "sp_emulate_access_impl lib (Inr b) mode use_eid
      = (if bits AND need_bits mode = need_bits mode then Inr 0 else Inl EACCES)"
    using False by (simp only: sp_emulate_access_impl_def Let_def bits_def sum.case assms(2) [symmetric] assms(3) [symmetric] if_False)
  ultimately show ?thesis by simp
qed

definition demo_lib :: idlib where
  "demo_lib = \<lparr>lib_set = (\<lambda>_. -1), lib_uid = 1000, lib_euid = 1000, lib_gid = 1000, lib_egid = 1000,
     lib_res_uid = (1000, 1000, 1000), lib_res_gid = (1000, 1000, 1000), lib_groups = [27, 3003]\<rparr>"

definition demo_stat :: stat_buf where
  "demo_stat = \<lparr>stat_mode = 0x1A0, stat_uid = 0, stat_gid = 27, stat_nlink = 1, stat_size = 0\<rparr>"

theorem sp_emulate_access_posix_witness:
  "sp_emulate_access_impl demo_lib (Inr demo_stat) 4 False = Inr 0"
proof -
  have g: "length (lib_groups demo_lib) \<le> 64" by (simp add: demo_lib_def)
  have "posix_allows demo_lib 1000 1000 demo_stat 2" by code_simp
  then have all: "\<forall>r < 3. bit (4 :: u32) r \<longrightarrow> posix_allows demo_lib 1000 1000 demo_stat r"
    unfolding bit_consts by blast
  have "sp_emulate_access_impl demo_lib (Inr demo_stat) 4 False
      = (if \<forall>r < 3. bit (4 :: u32) r \<longrightarrow> posix_allows demo_lib 1000 1000 demo_stat r then Inr 0 else Inl EACCES)"
    by (rule sp_emulate_access_posix [OF g]) (simp_all add: demo_lib_def)
  then show ?thesis unfolding if_P [OF all] .
qed

section \<open>Lemmas: lines of passwd\<close>

lemma strchr_here: "c \<notin> set a \<Longrightarrow> strchr (a @ c # b) c = Some (length a)"
  by (simp add: strchr_append)

lemma sp_colon_field: "CHR '':'' \<notin> set a \<Longrightarrow> sp_colon (a @ CHR '':'' # b) = Some b"
  by (simp add: sp_colon_def strchr_here)

lemma gap_field: "gap (a @ c # b) b = length a"
  by (simp add: gap_def)

lemma digit_is_digit: "d < 10 \<Longrightarrow> is_digit (digit d) \<and> of_char (digit d) = 48 + d"
  by (simp add: digit_def is_digit_def)

lemma dec_digits: "list_all is_digit (dec n)"
proof (induction n rule: dec.induct)
  case (1 n)
  show ?case
  proof (cases "n < 10")
    case True
    then show ?thesis using digit_is_digit [of n] by (simp add: dec.simps)
  next
    case False
    then show ?thesis using "1.IH" digit_is_digit [of "n mod 10"] by (simp add: dec.simps [of n] digit_def)
  qed
qed

lemma dec_value: "foldl (\<lambda>v c. v * 10 + (of_char c - 48)) 0 (dec n) = (n :: nat)"
proof (induction n rule: dec.induct)
  case (1 n)
  show ?case
  proof (cases "n < 10")
    case True
    then show ?thesis using digit_is_digit [of n] by (simp add: dec.simps)
  next
    case False
    have "of_char (digit n) = 48 + n mod 10" by (simp add: digit_def)
    then show ?thesis using False "1.IH" by (simp add: dec.simps [of n])
  qed
qed

lemma digits_not_special:
  "is_digit c \<Longrightarrow> \<not> is_space c \<and> c \<noteq> CHR ''-'' \<and> c \<noteq> CHR ''+'' \<and> c \<noteq> CHR '':'' \<and> c \<noteq> CHR 0x0A"
  by (auto simp: is_digit_def is_space_def)

lemma dec_clean: "CHR '':'' \<notin> set (dec n)" "CHR 0x0A \<notin> set (dec n)"
  using dec_digits [of n] digits_not_special by (auto simp: list_all_iff)

lemma dec_nonempty: "dec n \<noteq> []"
  by (subst dec.simps) simp

lemma takeWhile_digits: "list_all is_digit ds \<Longrightarrow> \<not> is_digit c \<Longrightarrow> takeWhile is_digit (ds @ c # r) = ds"
  by (induction ds) auto

lemma atoi_dec: "\<not> is_digit c \<Longrightarrow> atoi (dec n @ c # r) = int n"
proof -
  assume c: "\<not> is_digit c"
  obtain d ds where d: "dec n = d # ds" using dec_nonempty by (cases "dec n") auto
  then have "is_digit d" using dec_digits [of n] by simp
  then have "atoi (dec n @ c # r) = int (digits_nat (dec n @ c # r))"
    using digits_not_special [of d] by (simp add: d atoi_def Let_def)
  also have "digits_nat (dec n @ c # r) = n"
    using takeWhile_digits [OF dec_digits c] by (simp add: digits_nat_def dec_value)
  finally show ?thesis .
qed

lemma nl_char: "nl = [CHR 0x0A]"
  by code_simp

lemma length_dec: "n < 10 ^ Suc k \<Longrightarrow> length (dec n) \<le> Suc k"
proof (induction k arbitrary: n)
  case 0
  then show ?case by (subst dec.simps) simp
next
  case (Suc k)
  have "n div 10 < 10 ^ Suc k" using Suc.prems by (simp add: less_mult_imp_div_less)
  then show ?case using Suc.IH [of "n div 10"] by (subst dec.simps) simp
qed

lemma length_dec_u32: "length (dec (unat (w :: u32))) \<le> 10"
proof -
  have "unat w < 2 ^ 32" using unsigned_less [of w] by simp
  then have "unat w < 10 ^ Suc 9" by simp
  then show ?thesis using length_dec [of "unat w" 9] by simp
qed

text \<open>The file format: an entry printed as a line, and the entries that survive the fixed fields of the cache.\<close>

definition passwd_line :: "passwd \<Rightarrow> cstr" where
  "passwd_line p = pw_name p @ '':'' @ pw_passwd p @ '':'' @ dec (unat (pw_uid p)) @ '':'' @ dec (unat (pw_gid p)) @ '':''
     @ pw_gecos p @ '':'' @ pw_dir p @ '':'' @ pw_shell p @ nl"

definition field_ok :: "nat \<Rightarrow> nat \<Rightarrow> cstr \<Rightarrow> bool" where
  "field_ok lo hi s \<longleftrightarrow> lo \<le> length s \<and> length s \<le> hi \<and> CHR '':'' \<notin> set s \<and> CHR 0x0A \<notin> set s"

definition passwd_fields :: "passwd \<Rightarrow> bool" where
  "passwd_fields p \<longleftrightarrow> field_ok 1 45 (pw_name p) \<and> char_at (pw_name p) 0 \<noteq> CHR ''#'' \<and> field_ok 0 45 (pw_passwd p)
     \<and> field_ok 0 60 (pw_gecos p) \<and> field_ok 1 60 (pw_dir p) \<and> field_ok 0 60 (pw_shell p)"

definition passwd_ok :: "passwd \<Rightarrow> bool" where
  "passwd_ok p \<longleftrightarrow> passwd_fields p \<and> pack_written p \<le> 160"

lemma parse_passwd_line:
  assumes "passwd_fields p"
  shows "parse_passwd (passwd_line p) = Some p"
proof -
  have c: "\<not> is_digit (CHR '':'')" by (simp add: is_digit_def)
  have f: "CHR '':'' \<notin> set (pw_name p)" "CHR '':'' \<notin> set (pw_passwd p)" "CHR '':'' \<notin> set (pw_gecos p)" "CHR '':'' \<notin> set (pw_dir p)"
      "CHR 0x0A \<notin> set (pw_shell p)"
    and l: "pw_name p \<noteq> []" "pw_dir p \<noteq> []" "length (pw_name p) \<le> 45" "length (pw_passwd p) \<le> 45" "length (pw_gecos p) \<le> 60"
      "length (pw_dir p) \<le> 60" "length (pw_shell p) \<le> 60"
    using assms by (auto simp: passwd_fields_def field_ok_def)
  have e: "eol_at (pw_shell p @ nl) = Some (length (pw_shell p))"
    using strchr_here [OF f(5), of "[]"] by (simp add: eol_at_def nl_char)
  show ?thesis
    unfolding parse_passwd_def passwd_line_def append_Cons append_Nil
    using f l e c
    by (simp add: sp_colon_field dec_clean passwd_entry_def gap_field atoi_dec)
qed

lemma line_shape:
  assumes "passwd_fields p"
  obtains body where "passwd_line p = body @ nl" "CHR 0x0A \<notin> set body" "length body < 398" "char_at (passwd_line p) 0 \<noteq> CHR ''#''"
proof
  let ?b = "pw_name p @ '':'' @ pw_passwd p @ '':'' @ dec (unat (pw_uid p)) @ '':'' @ dec (unat (pw_gid p)) @ '':''
     @ pw_gecos p @ '':'' @ pw_dir p @ '':'' @ pw_shell p"
  show "passwd_line p = ?b @ nl" by (simp add: passwd_line_def)
  show "CHR 0x0A \<notin> set ?b" using assms dec_clean(2) by (simp add: passwd_fields_def field_ok_def)
  show "length ?b < 398" using assms length_dec_u32 [of "pw_uid p"] length_dec_u32 [of "pw_gid p"] by (simp add: passwd_fields_def field_ok_def)
  have "pw_name p \<noteq> []" "char_at (pw_name p) 0 \<noteq> CHR ''#''" using assms by (auto simp: passwd_fields_def field_ok_def)
  then show "char_at (passwd_line p) 0 \<noteq> CHR ''#''" by (cases "pw_name p") (simp_all add: passwd_line_def char_at_def)
qed

lemma fgets_line: "CHR 0x0A \<notin> set b \<Longrightarrow> length b < 398 \<Longrightarrow> fgets_all 400 (b @ nl @ r) = (b @ nl) # fgets_all 400 r"
  by (subst fgets_all.simps) (simp add: fgets_def Let_def nl_char strchr_here)

lemma fgets_passwd:
  assumes "list_all passwd_fields es"
  shows "fgets_all 400 (concat (map passwd_line es)) = map passwd_line es"
  using assms
proof (induction es)
  case Nil
  show ?case by (simp add: fgets_all.simps)
next
  case (Cons e es)
  have ok: "passwd_fields e" using Cons.prems by simp
  obtain body where "passwd_line e = body @ nl" "CHR 0x0A \<notin> set body" "length body < 398" by (rule line_shape [OF ok])
  then show ?case using Cons fgets_line [of body "concat (map passwd_line es)"] by simp
qed

lemma passwd_lines_ok:
  "list_all passwd_fields es \<Longrightarrow> n + length es \<le> SP_PW_CACHE_MAX \<Longrightarrow> passwd_lines n (map passwd_line es) = es"
proof (induction es arbitrary: n)
  case (Cons e es)
  have ok: "passwd_fields e" using Cons.prems by simp
  have "char_at (passwd_line e) 0 \<noteq> CHR ''#''" by (rule line_shape [OF ok])
  then show ?case using Cons parse_passwd_line [of e] by simp
qed simp

text \<open>C35: The interposer reads back what a passwd file says: for any file of well-formed entries that fit the 160 bytes of a
  cache slot, up to the size of the cache, the
  parsed cache holds exactly these entries in order, and a lookup by name or by id, when the C library finds nothing, answers with
  the first entry that matches.\<close>

theorem passwd_roundtrip:
  assumes "list_all passwd_ok es" "length es \<le> SP_PW_CACHE_MAX" "pw_cache s = None"
  shows "sp_passwd_refresh (Some (concat (map passwd_line es))) = es
    \<and> fst (sp_guest_getpwnam (Some (concat (map passwd_line es))) nm s) = find (\<lambda>p. pw_name p = nm) es
    \<and> fst (sp_guest_getpwuid (Some (concat (map passwd_line es))) uid s) = find (\<lambda>p. pw_uid p = uid) es"
proof -
  have ok: "list_all passwd_fields es" using assms(1) by (auto simp: passwd_ok_def list_all_iff)
  have r: "sp_passwd_refresh (Some (concat (map passwd_line es))) = es"
    using passwd_lines_ok [OF ok, of 0] assms(2) by (simp add: sp_passwd_refresh_def fgets_passwd [OF ok])
  then show ?thesis using assms(3) by (simp add: sp_guest_getpwnam_def sp_guest_getpwuid_def pw_fill_def Let_def)
qed

definition demo_apt :: passwd where
  "demo_apt = \<lparr>pw_name = ''_apt'', pw_passwd = ''x'', pw_uid = 42, pw_gid = 65534, pw_gecos = [], pw_dir = ''/nonexistent'',
     pw_shell = ''/usr/sbin/nologin''\<rparr>"

theorem passwd_roundtrip_witness:
  "fst (sp_guest_getpwnam (Some (concat (map passwd_line [sp_root_passwd, demo_apt]))) ''_apt'' \<lparr>pw_cache = None, gr_cache = None\<rparr>)
     = Some demo_apt"
proof -
  have "list_all passwd_ok [sp_root_passwd, demo_apt]" by code_simp
  moreover have "length [sp_root_passwd, demo_apt] \<le> SP_PW_CACHE_MAX" by (simp add: SP_PW_CACHE_MAX_def)
  ultimately have "fst (sp_guest_getpwnam (Some (concat (map passwd_line [sp_root_passwd, demo_apt]))) ''_apt'' \<lparr>pw_cache = None, gr_cache = None\<rparr>)
      = find (\<lambda>p. pw_name p = ''_apt'') [sp_root_passwd, demo_apt]"
    using passwd_roundtrip [of "[sp_root_passwd, demo_apt]" "\<lparr>pw_cache = None, gr_cache = None\<rparr>"] by simp
  also have "\<dots> = Some demo_apt" by (simp add: sp_root_passwd_def demo_apt_def)
  finally show ?thesis .
qed

section \<open>Lemmas: fake ids\<close>

text \<open>The drop of privileges as apt performs it, and what it then checks.\<close>

lemma drop_reported:
  assumes "sp_fakeroot_on e" "u \<noteq> NO_ID" "g \<noteq> NO_ID"
    and "s' = snd (setresuid lib e u u u (snd (setresgid lib e g g g (snd (setgroups lib e [g] s)))))"
  shows "getresuid lib e s' = (u, u, u)" "getresgid lib e s' = (g, g, g)" "getgroups lib e 64 s' = (1, [g])"
  using assms
  by (simp_all add: setresuid_def setresgid_def setgroups_def getresuid_def getresgid_def getgroups_def Let_def)

text \<open>Observations: with \<^verbatim>\<open>SPROUT_FAKEROOT=0\<close> the setters pretend and the getters do not; an entry packed for the
  reentrant forms takes more bytes than were asked for; a long line overflows the 160 bytes of a cache entry.\<close>

lemma fakeroot_0_disagrees:
  "fst (setuid demo_lib [''SPROUT_FAKEROOT=0''] 5 ids_init) = 0
   \<and> getuid demo_lib False (snd (setuid demo_lib [''SPROUT_FAKEROOT=0''] 5 ids_init)) = 1000"
  by code_simp

lemma pack_overflows: "sp_pack_passwd_from p (pack_need p) = Inr (p, pack_need p + length (pw_passwd p))"
  by (simp add: sp_pack_passwd_from_def pack_need_def pack_written_def)

lemma passwd_buf_overflows:
  assumes "passwd_fields p" "length (pw_gecos p) = 60" "length (pw_dir p) = 60" "length (pw_shell p) = 60"
  shows "parse_passwd (passwd_line p) = Some p \<and> 160 < pack_written p"
  using parse_passwd_line [OF assms(1)] assms(2-4) by (simp add: pack_written_def)

end
