(* ===== verification/Sprout_Shm.thy ===== *)
theory Sprout_Shm
  imports Sprout_Sysvipc Sprout_Identity
begin

text \<open>
  Shared-memory segments of the interposer (\<^verbatim>\<open>sprout_shm.inc\<close>): a registry of segments per process, ids that name the owning
  process, and the exchange by which another process obtains the owner's descriptor. The names begin with \<^verbatim>\<open>sp_\<close> to set them
  apart from the emulation on files. Every operation holds the mutex from its first access to the registry to its last, so an
  operation is one step. Descriptors, addresses (0 is NULL) and the answers of the kernel are arguments.
\<close>

section \<open>Registry and kernel\<close>

definition SP_SHM_MAX :: nat where "SP_SHM_MAX = 64"
definition SP_SHM_MAXSEG :: u64 where "SP_SHM_MAXSEG = 0x4000000"

record sp_shm =
  sh_key :: u32
  sh_id :: u32
  sh_fd :: int
  sh_addr :: nat
  sh_size :: u64
  sh_rmid :: bool

text \<open>Effects on the outside that have no answer.\<close>

datatype shm_effect = Unlink cstr | Symlink cstr cstr | CloseFd int | Munmap nat u64

record shmst =
  sh_tab :: "sp_shm list"
  sh_sockfd :: int
  sh_sockid :: u32
  sh_counter :: u32
  sh_pid :: u32
  sh_log :: "shm_effect list"

text \<open>The attempts to listen under an abstract name: no socket, no memory for the thread's argument, another failure, a listener.\<close>

datatype listen_res = NoSocket | NoMemory | Busy | Listening int

text \<open>
  The kernel for a process. \<open>k_listen\<close> binds an abstract name and listens under it. \<open>k_dial\<close> is the exchange with whoever listens
  under a name: connect, send the id, receive the key and a descriptor; \<open>None\<close> when one of these fails.
\<close>

record shmk =
  k_off :: bool
  k_pid :: u32
  k_uid :: u32
  k_gid :: u32
  k_link :: "cstr \<Rightarrow> cptr"
  k_listen :: "cstr \<Rightarrow> listen_res"
  k_open :: "cstr \<Rightarrow> int"
  k_set_name :: "int \<Rightarrow> cstr \<Rightarrow> bool"
  k_set_size :: "int \<Rightarrow> u64 \<Rightarrow> bool"
  k_dial :: "cstr \<Rightarrow> u32 \<Rightarrow> (u32 \<times> int) option"
  k_get_size :: "int \<Rightarrow> int"
  k_mmap :: "nat \<Rightarrow> u64 \<Rightarrow> u32 \<Rightarrow> u32 \<Rightarrow> int \<Rightarrow> nat option"

definition effect :: "shm_effect \<Rightarrow> shmst \<Rightarrow> shmst" where
  "effect e st = st\<lparr>sh_log := sh_log st @ [e]\<rparr>"

definition sp_shm_init :: shmst where
  "sp_shm_init = \<lparr>sh_tab = [], sh_sockfd = - 1, sh_sockid = 0, sh_counter = 0, sh_pid = 0, sh_log = []\<rparr>"

section \<open>Helpers\<close>

text \<open>\<^verbatim>\<open>shmid >> 16\<close> on a signed int.\<close>

definition owner_of :: "u32 \<Rightarrow> u32" where
  "owner_of shmid = signed_drop_bit 16 shmid"

definition sp_shm_sockpath :: "u32 \<Rightarrow> cstr" where
  "sp_shm_sockpath sockid = ''/dev/shm/'' @ hex_digits 8 sockid"

definition sp_shm_fork_reset :: "shmk \<Rightarrow> shmst \<Rightarrow> shmst" where
  "sp_shm_fork_reset k st =
     (if sh_pid st = k_pid k then st
      else st\<lparr>sh_pid := k_pid k, sh_tab := [], sh_sockfd := - 1, sh_sockid := 0, sh_counter := 0\<rparr>)"

definition sp_shm_open_ashmem :: "shmk \<Rightarrow> cstr \<Rightarrow> u64 \<Rightarrow> shmst \<Rightarrow> int option \<times> shmst" where
  "sp_shm_open_ashmem k nm sz st =
     (let fd = k_open k ''/dev/ashmem'' in
      if fd < 0 then (None, st)
      else if \<not> k_set_name k fd (strncpy_z 256 nm) \<or> \<not> k_set_size k fd sz then (None, effect (CloseFd fd) st)
      else (Some fd, st))"

fun sp_shm_find :: "sp_shm list \<Rightarrow> u32 \<Rightarrow> nat option" where
  "sp_shm_find [] shmid = None"
| "sp_shm_find (e # t) shmid = (if sh_id e = shmid then Some 0 else map_option Suc (sp_shm_find t shmid))"


fun listener_loop :: "shmk \<Rightarrow> nat \<Rightarrow> u32 \<Rightarrow> (int \<times> u32) option" where
  "listener_loop k 0 i = None"
| "listener_loop k (Suc n) i =
     (let sid = (k_pid k + i) AND 0xFFFF in
      if sid = 0 then listener_loop k n (i + 1)
      else case k_listen k (sp_shm_sockpath sid) of
             NoSocket \<Rightarrow> None
           | NoMemory \<Rightarrow> None
           | Busy \<Rightarrow> listener_loop k n (i + 1)
           | Listening fd \<Rightarrow> Some (fd, sid))"

definition sp_shm_setup_listener :: "shmk \<Rightarrow> shmst \<Rightarrow> bool \<times> shmst" where
  "sp_shm_setup_listener k st =
     (case listener_loop k 128 0 of
        None \<Rightarrow> (False, st)
      | Some (fd, sid) \<Rightarrow> (True, st\<lparr>sh_sockfd := fd, sh_sockid := sid\<rparr>))"

definition sp_shm_hydrate :: "shmk \<Rightarrow> u32 \<Rightarrow> u32 \<Rightarrow> shmst \<Rightarrow> (u32 \<times> int \<times> u64) option \<times> shmst" where
  "sp_shm_hydrate k sockid shmid st =
     (case k_dial k (sp_shm_sockpath sockid) shmid of
        None \<Rightarrow> (None, st)
      | Some (key, fd) \<Rightarrow>
          if fd < 0 then (None, st)
          else if k_get_size k fd \<le> 0 then (None, effect (CloseFd fd) st)
          else (Some (key, fd, word_of_int (k_get_size k fd)), st))"

definition add_seg :: "sp_shm \<Rightarrow> shmst \<Rightarrow> shmst" where
  "add_seg e st = st\<lparr>sh_tab := sh_tab st @ [e]\<rparr>"

definition drop_seg :: "nat \<Rightarrow> shmst \<Rightarrow> shmst" where
  "drop_seg i st =
     (let st1 = (if 0 \<le> sh_fd (sh_tab st ! i) then effect (CloseFd (sh_fd (sh_tab st ! i))) st else st)
      in st1\<lparr>sh_tab := take i (sh_tab st) @ drop (Suc i) (sh_tab st)\<rparr>)"

text \<open>The search that every operation begins with: the own registry, else the owner of the id.\<close>

definition find_or_hydrate :: "shmk \<Rightarrow> u32 \<Rightarrow> shmst \<Rightarrow> nat option \<times> shmst" where
  "find_or_hydrate k shmid st =
     (case sp_shm_find (sh_tab st) shmid of
        Some i \<Rightarrow> (Some i, st)
      | None \<Rightarrow>
          if owner_of shmid = sh_sockid st then (None, st)
          else (case sp_shm_hydrate k (owner_of shmid) shmid st of
                  (None, st1) \<Rightarrow> (None, st1)
                | (Some (key, fd, sz), st1) \<Rightarrow>
                    if length (sh_tab st1) < SP_SHM_MAX
                    then (Some (length (sh_tab st1)),
                          add_seg \<lparr>sh_key = key, sh_id = shmid, sh_fd = fd, sh_addr = 0, sh_size = sz, sh_rmid = False\<rparr> st1)
                    else (None, effect (CloseFd fd) st1)))"

section \<open>Operations\<close>

definition key_link :: "u32 \<Rightarrow> cstr" where
  "key_link key = snprintf_s 128 (''/tmp/ashv_key_'' @ dec_int (sint key))"

text \<open>The segment that a named key leads to.\<close>

definition shmget_named :: "shmk \<Rightarrow> u32 \<Rightarrow> shmst \<Rightarrow> u32 option \<times> shmst" where
  "shmget_named k key st =
     (case k_link k (key_link key) of
        None \<Rightarrow> (None, st)
      | Some t \<Rightarrow>
          if t = [] then (None, st)
          else
            (let shmid = word_of_int (atoi (take 63 t)) in
             if shmid = 0 then (None, st)
             else case find_or_hydrate k shmid st of
                    (Some _, st1) \<Rightarrow> (Some shmid, st1)
                  | (None, st1) \<Rightarrow> (None, effect (Unlink (key_link key)) st1)))"

definition page_up :: "u64 \<Rightarrow> u64" where
  "page_up sz = (sz + 4095) AND NOT 4095"

definition shmget_fresh :: "shmk \<Rightarrow> u32 \<Rightarrow> u64 \<Rightarrow> shmst \<Rightarrow> (errno + u32) \<times> shmst" where
  "shmget_fresh k key sz st0 =
     (let (ok, st) = (if sh_sockfd st0 < 0 then sp_shm_setup_listener k st0 else (True, st0)) in
      if \<not> ok then (Inl ENOMEM, st)
      else if SP_SHM_MAX \<le> length (sh_tab st) then (Inl (EOTHER 28), st)
      else
        (let c = (sh_counter st + 1) AND 0x7fff;
             st1 = st\<lparr>sh_counter := c\<rparr>;
             shmid = sh_sockid st * 0x10000 + c in
         case sp_shm_open_ashmem k (snprintf_s 64 (sp_shm_sockpath (sh_sockid st) @ ''-'' @ dec_int (sint c))) (page_up sz) st1 of
           (None, st2) \<Rightarrow> (Inl ENOMEM, st2)
         | (Some fd, st2) \<Rightarrow>
             (let st3 = add_seg \<lparr>sh_key = key, sh_id = shmid, sh_fd = fd, sh_addr = 0, sh_size = page_up sz, sh_rmid = False\<rparr> st2 in
              (Inr shmid,
               if key = 0 then st3
               else effect (Symlink (dec_int (sint shmid)) (key_link key)) (effect (Unlink (key_link key)) st3)))))"

definition sp_shmget :: "shmk \<Rightarrow> u32 \<Rightarrow> u64 \<Rightarrow> u32 \<Rightarrow> shmst \<Rightarrow> (errno + u32) \<times> shmst" where
  "sp_shmget k key sz flags st =
     (if k_off k then (Inl ENOSYS, st)
      else if sz = 0 \<or> SP_SHM_MAXSEG < sz then (Inl EINVAL, st)
      else
        (let st1 = sp_shm_fork_reset k st in
         case (if key = 0 then (None, st1) else shmget_named k key st1) of
           (Some shmid, st2) \<Rightarrow> (Inr shmid, st2)
         | (None, st2) \<Rightarrow> shmget_fresh k key sz st2))"


fun find_addr :: "sp_shm list \<Rightarrow> nat \<Rightarrow> nat option" where
  "find_addr [] a = None"
| "find_addr (e # t) a = (if sh_addr e = a then Some 0 else map_option Suc (find_addr t a))"

definition sp_shmdt :: "shmk \<Rightarrow> nat \<Rightarrow> shmst \<Rightarrow> (errno + int) \<times> shmst" where
  "sp_shmdt k shmaddr st =
     (if k_off k then (Inl ENOSYS, st)
      else
        (let st1 = sp_shm_fork_reset k st in
         case find_addr (sh_tab st1) shmaddr of
           None \<Rightarrow> (Inl EINVAL, st1)
         | Some i \<Rightarrow>
             (let e = sh_tab st1 ! i;
                  st2 = effect (Munmap (sh_addr e) (sh_size e)) (st1\<lparr>sh_tab := (sh_tab st1)[i := e\<lparr>sh_addr := 0\<rparr>]\<rparr>)
              in (Inr 0, if sh_rmid e \<or> owner_of (sh_id e) \<noteq> sh_sockid st1 then drop_seg i st2 else st2))))"

record shmid_ds =
  ds_mode :: u32
  ds_segsz :: u64
  ds_uid :: u32
  ds_gid :: u32
  ds_key :: u32
  ds_pid :: u32
  ds_nattch :: nat

text \<open>\<^verbatim>\<open>IPC_RMID\<close>, \<^verbatim>\<open>IPC_SET\<close>, \<^verbatim>\<open>IPC_STAT\<close>, \<^verbatim>\<open>SHM_LOCK\<close>, \<^verbatim>\<open>SHM_UNLOCK\<close> are 0, 1, 2, 11, 12; the result has what
  was stored in the caller's structure.\<close>

definition sp_shmctl :: "shmk \<Rightarrow> u32 \<Rightarrow> int \<Rightarrow> bool \<Rightarrow> shmst \<Rightarrow> (errno + shmid_ds option) \<times> shmst" where
  "sp_shmctl k shmid cmd buf st =
     (if k_off k then (Inl ENOSYS, st)
      else
        (case find_or_hydrate k shmid (sp_shm_fork_reset k st) of
           (None, st1) \<Rightarrow> (Inl EINVAL, st1)
         | (Some i, st1) \<Rightarrow>
             (let e = sh_tab st1 ! i in
              if cmd = 0 then
                (Inr None, if sh_addr e = 0 then drop_seg i st1 else st1\<lparr>sh_tab := (sh_tab st1)[i := e\<lparr>sh_rmid := True\<rparr>]\<rparr>)
              else if cmd = 2 \<and> buf then
                (Inr (Some \<lparr>ds_mode = 0x180, ds_segsz = sh_size e, ds_uid = k_uid k, ds_gid = k_gid k, ds_key = sh_key e,
                   ds_pid = k_pid k, ds_nattch = 2\<rparr>), st1)
              else if cmd = 1 \<or> cmd = 11 \<or> cmd = 12 then (Inr None, st1)
              else (Inl EINVAL, st1))))"

section \<open>Lemmas\<close>

lemma find_Some: "sp_shm_find t shmid = Some i \<Longrightarrow> i < length t \<and> sh_id (t ! i) = shmid"
  by (induction t arbitrary: i) (auto split: if_splits)

lemma find_None: "sp_shm_find t shmid = None \<longleftrightarrow> (\<forall>e \<in> set t. sh_id e \<noteq> shmid)"
  by (induction t) auto


lemma find_update: "sh_id e = sh_id (t ! i) \<Longrightarrow> sp_shm_find (t[i := e]) shmid = sp_shm_find t shmid"
  by (induction t arbitrary: i) (auto split: nat.split)


lemma effect_simps [simp]:
  "sh_tab (effect x st) = sh_tab st" "sh_sockid (effect x st) = sh_sockid st" "sh_counter (effect x st) = sh_counter st"
  "sh_pid (effect x st) = sh_pid st" "sh_sockfd (effect x st) = sh_sockfd st" "sh_log (effect x st) = sh_log st @ [x]"
  by (simp_all add: effect_def)
















section \<open>Properties\<close>


definition demo_ka :: shmk where
  "demo_ka = \<lparr>k_off = False, k_pid = 5, k_uid = 0, k_gid = 0, k_link = (\<lambda>_. None),
     k_listen = (\<lambda>nm. if nm = ''/dev/shm/00000005'' then Listening 4 else Busy), k_open = (\<lambda>_. 7),
     k_set_name = (\<lambda>_ _. True), k_set_size = (\<lambda>_ _. True), k_dial = (\<lambda>_ _. None), k_get_size = (\<lambda>_. 0), k_mmap = (\<lambda>_ _ _ _ _. None)\<rparr>"

definition demo_a1 :: shmst where
  "demo_a1 = snd (sp_shmget demo_ka 9 100 0 sp_shm_init)"




section \<open>Observations\<close>

text \<open>The owner's part of an id reaches into the sign bit: with a process id above 32767 a successful call returns a negative id.\<close>

lemma id_negative:
  "map_sum (\<lambda>_. 0) sint (fst (sp_shmget (demo_ka\<lparr>k_pid := 0x8001, k_listen := (\<lambda>_. Listening 4)\<rparr>) 0 100 0 sp_shm_init))
     = (Inr (- 0x7FFEFFFF) :: int + int)"
  by code_simp

text \<open>Nor does such an id lead to its owner: the shift keeps the sign, and another name is dialled than the one that was bound.\<close>

lemma high_owner_unreachable:
  "sp_shm_sockpath 0x8001 = ''/dev/shm/00008001'' \<and> sp_shm_sockpath (owner_of (0x8001 * 0x10000 + 1)) = ''/dev/shm/ffff8001''"
  by code_simp

text \<open>Detaching the null pointer succeeds on a segment that is not attached.\<close>

lemma shmdt_null: "fst (sp_shmdt demo_ka 0 demo_a1) = Inr 0"
  by code_simp

text \<open>The counter wraps at 15 bits, and an id that is in use is given out again.\<close>

lemma id_reused: "fst (sp_shmget demo_ka 0 200 0 (demo_a1\<lparr>sh_counter := 0\<rparr>)) = Inr 0x50001 \<and> (0x7fff + 1 :: u32) AND 0x7fff = 0"
  by code_simp

text \<open>A key that has no segment gets one whether or not the caller asks for creation.\<close>

lemma shmget_ignores_flags: "sp_shmget k key sz fl st = sp_shmget k key sz fl' st"
  by (simp add: sp_shmget_def)

end
