(* ===== verification/Sprout_Semlock.thy ===== *)
theory Sprout_Semlock
  imports Sprout_Sysvipc
begin

text \<open>
  The passes of \<^verbatim>\<open>semop\<close> (\<^verbatim>\<open>sprout_sysvipc.c\<close>) as the system calls they consist of: \<^verbatim>\<open>flock\<close>, and for every operation \<^verbatim>\<open>lseek\<close> and
  \<^verbatim>\<open>read\<close>, then \<^verbatim>\<open>lseek\<close> and \<^verbatim>\<open>write\<close>. The lock and the file position belong to the open file description behind a descriptor, and the
  descriptor comes from the cache of a thread, which a forked child inherits together with the description. The steps of all
  processes interleave freely. When no two processes share a description the passes are atomic, and the classic use of a semaphore
  excludes; when a parent and its child share one, neither holds.

  A system call here does not fail: the wait in \<^verbatim>\<open>flock\<close> is not interrupted by a signal (the code ignores its result), and four bytes
  of a regular file are read and written at once.
\<close>

section \<open>System calls\<close>

text \<open>Where a process is. The operations of its pass, the index of the current one, and the value to be written.\<close>

datatype pc = Out
  | Lock "sembuf list"
  | Seek "sembuf list" nat
  | Read "sembuf list" nat
  | SeekW "sembuf list" nat u32
  | Write "sembuf list" nat u32
  | Unlock "sembuf list" pass
  | Ret "sembuf list" pass

text \<open>
  The file of one set and the processes that use it. \<open>f_words\<close> is the file after its header in units of four bytes, two for
  a semaphore; \<open>f_lock\<close> is the description that holds the lock; \<open>f_pos\<close> are the positions of the descriptions, in the same units;
  \<open>f_log\<close> lists the passes that have ended, with their results.
\<close>

record sysst =
  f_words :: "u32 list"
  f_lock :: "nat option"
  f_pos :: "nat \<Rightarrow> nat"
  f_pc :: "nat \<Rightarrow> pc"
  f_log :: "(nat \<times> sembuf list \<times> pass) list"

definition num_of :: "sembuf list \<Rightarrow> nat \<Rightarrow> nat" where
  "num_of ops i = unat (sem_num (ops ! i))"

text \<open>The head of the loop over the operations, and what the value that was read leads to.\<close>

definition loop_head :: "sembuf list \<Rightarrow> nat \<Rightarrow> pc" where
  "loop_head ops i = (if i < length ops then Seek ops i else Unlock ops Applied)"

definition after_read :: "sembuf list \<Rightarrow> nat \<Rightarrow> u32 \<Rightarrow> pc" where
  "after_read ops i val =
     (let s = ops ! i; op = sint (sem_op s) in
      if op < 0 then (if sint val \<ge> - op then SeekW ops i (val - word_of_int (- op)) else Unlock ops (Blocked i))
      else if op > 0 then SeekW ops i (val + word_of_int op)
      else if val = 0 then loop_head ops (Suc i)
      else if and (sem_flg s) IPC_NOWAIT \<noteq> 0 then Unlock ops (PassErr EAGAIN)
      else Unlock ops (Blocked i))"

definition goto :: "nat \<Rightarrow> pc \<Rightarrow> sysst \<Rightarrow> sysst" where
  "goto p x s = s\<lparr>f_pc := (f_pc s)(p := x)\<rparr>"

text \<open>\<open>own p\<close> is the description behind the descriptor of process \<open>p\<close>. \<open>None\<close>: the process is not in a pass, or waits for the lock.\<close>

definition sys_step :: "(nat \<Rightarrow> nat) \<Rightarrow> nat \<Rightarrow> sysst \<Rightarrow> sysst option" where
  "sys_step own p s =
     (let d = own p; j = f_pos s d in
      case f_pc s p of
        Lock ops \<Rightarrow>
          if f_lock s = None \<or> f_lock s = Some d then Some (goto p (loop_head ops 0) (s\<lparr>f_lock := Some d\<rparr>)) else None
      | Seek ops i \<Rightarrow> Some (goto p (Read ops i) (s\<lparr>f_pos := (f_pos s)(d := 2 * num_of ops i)\<rparr>))
      | Read ops i \<Rightarrow>
          if j < length (f_words s) then Some (goto p (after_read ops i (f_words s ! j)) (s\<lparr>f_pos := (f_pos s)(d := Suc j)\<rparr>))
          else Some (goto p (Unlock ops Undef) s)
      | SeekW ops i v \<Rightarrow> Some (goto p (Write ops i v) (s\<lparr>f_pos := (f_pos s)(d := 2 * num_of ops i)\<rparr>))
      | Write ops i v \<Rightarrow>
          Some (goto p (loop_head ops (Suc i))
            (s\<lparr>f_words := (if j < length (f_words s) then (f_words s)[j := v]
                            else f_words s @ replicate (j - length (f_words s)) 0 @ [v]),
               f_pos := (f_pos s)(d := Suc j)\<rparr>))
      | Unlock ops r \<Rightarrow>
          Some (goto p (Ret ops r) (s\<lparr>f_lock := (if f_lock s = Some d then None else f_lock s), f_log := f_log s @ [(p, ops, r)]\<rparr>))
      | _ \<Rightarrow> None)"

text \<open>Any schedule: a process begins a pass, makes a system call, tries again after a blocked pass, or leaves the call.\<close>

inductive sched :: "(nat \<Rightarrow> nat) \<Rightarrow> sysst \<Rightarrow> sysst \<Rightarrow> bool" for own where
  call: "f_pc s p = Out \<Longrightarrow> sched own s (goto p (Lock ops) s)"
| sys: "sys_step own p s = Some s' \<Longrightarrow> sched own s s'"
| again: "f_pc s p = Ret ops (Blocked b) \<Longrightarrow> sched own s (goto p (Lock ops) s)"
| finish: "f_pc s p = Ret ops r \<Longrightarrow> sched own s (goto p Out s)"

text \<open>The start: nobody is in a pass, nobody has the lock, and the file has two words for every semaphore.\<close>

definition quiet :: "sysst \<Rightarrow> bool" where
  "quiet s \<longleftrightarrow> (\<forall>p. f_pc s p = Out) \<and> f_lock s = None \<and> f_log s = [] \<and> even (length (f_words s))"

section \<open>Atomic passes\<close>

text \<open>The cells of the semaphores, and the passes of a log run one after the other, each with the result the log has.\<close>

definition cells :: "u32 list \<Rightarrow> u32 list" where
  "cells ws = map (\<lambda>k. ws ! (2 * k)) [0 ..< length ws div 2]"

fun serial :: "u32 list \<Rightarrow> (nat \<times> sembuf list \<times> pass) list \<Rightarrow> u32 list option" where
  "serial cs [] = Some cs"
| "serial cs ((p, ops, r) # l) = (let (cs', r') = sv_semop_step cs 0 ops in if r' = r then serial cs' l else None)"

lemma serial_snoc:
  "serial cs (l @ [(p, ops, r)]) =
     (case serial cs l of None \<Rightarrow> None | Some a \<Rightarrow> (let (cs', r') = sv_semop_step a 0 ops in if r' = r then Some cs' else None))"
  by (induction cs l rule: serial.induct) (simp_all split: prod.split)

lemma length_cells [simp]: "length (cells ws) = length ws div 2"
  by (simp add: cells_def)

lemma cells_nth: "k < length ws div 2 \<Longrightarrow> cells ws ! k = ws ! (2 * k)"
  by (simp add: cells_def)

lemma cells_update: "even (length ws) \<Longrightarrow> 2 * k < length ws \<Longrightarrow> cells (ws[2 * k := v]) = (cells ws)[k := v]"
  by (rule nth_equalityI) (auto simp: cells_nth nth_list_update)

section \<open>The invariant\<close>

fun in_section :: "pc \<Rightarrow> bool" where
  "in_section Out = False"
| "in_section (Lock _) = False"
| "in_section (Ret _ _) = False"
| "in_section _ = True"

text \<open>
  The process in the section is somewhere in the atomic pass that began with the cells \<open>a\<close>: what is left of it leads from the present
  cells to the end of that pass.
\<close>

fun on_course :: "u32 list \<Rightarrow> u32 list \<Rightarrow> nat \<Rightarrow> pc \<Rightarrow> bool" where
  "on_course a cs j (Seek ops i) \<longleftrightarrow> i < length ops \<and> sv_semop_step cs i (drop i ops) = sv_semop_step a 0 ops"
| "on_course a cs j (Read ops i) \<longleftrightarrow> i < length ops \<and> j = 2 * num_of ops i \<and> sv_semop_step cs i (drop i ops) = sv_semop_step a 0 ops"
| "on_course a cs j (SeekW ops i v) \<longleftrightarrow> i < length ops \<and> num_of ops i < length cs \<and>
     sv_semop_step (cs[num_of ops i := v]) (Suc i) (drop (Suc i) ops) = sv_semop_step a 0 ops"
| "on_course a cs j (Write ops i v) \<longleftrightarrow> i < length ops \<and> num_of ops i < length cs \<and> j = 2 * num_of ops i \<and>
     sv_semop_step (cs[num_of ops i := v]) (Suc i) (drop (Suc i) ops) = sv_semop_step a 0 ops"
| "on_course a cs j (Unlock ops r) \<longleftrightarrow> sv_semop_step a 0 ops = (cs, r)"
| "on_course a cs j _ \<longleftrightarrow> True"

definition resting :: "sysst \<Rightarrow> bool" where
  "resting s \<longleftrightarrow> (\<forall>p. \<not> in_section (f_pc s p)) \<and> f_lock s = None"

definition working :: "(nat \<Rightarrow> nat) \<Rightarrow> u32 list \<Rightarrow> nat \<Rightarrow> sysst \<Rightarrow> bool" where
  "working own a p s \<longleftrightarrow> in_section (f_pc s p) \<and> f_lock s = Some (own p) \<and> (\<forall>q. q \<noteq> p \<longrightarrow> \<not> in_section (f_pc s q))
     \<and> on_course a (cells (f_words s)) (f_pos s (own p)) (f_pc s p)"

definition atomic_so_far :: "(nat \<Rightarrow> nat) \<Rightarrow> u32 list \<Rightarrow> sysst \<Rightarrow> bool" where
  "atomic_so_far own cs0 s \<longleftrightarrow> even (length (f_words s)) \<and>
     (\<exists>a. serial cs0 (f_log s) = Some a \<and> (resting s \<and> cells (f_words s) = a \<or> (\<exists>p. working own a p s)))"

lemma goto_simps [simp]:
  "f_words (goto p x s) = f_words s" "f_lock (goto p x s) = f_lock s" "f_pos (goto p x s) = f_pos s" "f_log (goto p x s) = f_log s"
  "f_pc (goto p x s) = (f_pc s)(p := x)"
  by (simp_all add: goto_def)

lemma on_course_head:
  assumes "i \<le> length ops" "sv_semop_step cs i (drop i ops) = sv_semop_step a 0 ops"
  shows "on_course a cs j (loop_head ops i) \<and> in_section (loop_head ops i)"
  using assms by (auto simp: loop_head_def)

lemma on_course_read:
  assumes "i < length ops" "num_of ops i < length cs" "sv_semop_step cs i (drop i ops) = sv_semop_step a 0 ops"
  shows "on_course a cs j (after_read ops i (cs ! num_of ops i)) \<and> in_section (after_read ops i (cs ! num_of ops i))"
proof -
  have d: "drop i ops = ops ! i # drop (Suc i) ops" using assms(1) by (simp add: Cons_nth_drop_Suc)
  have e: "sv_semop_step a 0 ops = sv_semop_step cs i (ops ! i # drop (Suc i) ops)" using assms(3) by (simp only: d)
  show ?thesis
    using assms(1,2) on_course_head [of "Suc i" ops cs a j] unfolding e
    by (auto simp: after_read_def Let_def num_of_def e)
qed

lemma undef_read:
  assumes "i < length ops" "\<not> num_of ops i < length cs" "sv_semop_step cs i (drop i ops) = sv_semop_step a 0 ops"
  shows "sv_semop_step a 0 ops = (cs, Undef)"
proof -
  have d: "drop i ops = ops ! i # drop (Suc i) ops" using assms(1) by (simp add: Cons_nth_drop_Suc)
  show ?thesis using assms(2) unfolding assms(3) [symmetric] d by (simp add: num_of_def)
qed

text \<open>Steps outside the section, of whichever process.\<close>

lemma atomic_outside:
  assumes "atomic_so_far own cs0 s" "\<not> in_section (f_pc s p)" "\<not> in_section x"
  shows "atomic_so_far own cs0 (goto p x s)"
proof -
  have "resting (goto p x s)" if "resting s" using that assms(3) by (simp add: resting_def)
  moreover have "working own a q (goto p x s)" if "working own a q s" for a q
    using that assms(2,3) by (auto simp: working_def)
  ultimately show ?thesis using assms(1) unfolding atomic_so_far_def goto_simps by blast
qed

text \<open>The lock is granted only while nobody is in the section.\<close>

lemma atomic_lock:
  assumes "inj own" "atomic_so_far own cs0 s" "f_pc s p = Lock ops" "f_lock s = None \<or> f_lock s = Some (own p)"
  shows "atomic_so_far own cs0 (goto p (loop_head ops 0) (s\<lparr>f_lock := Some (own p)\<rparr>))"
proof -
  obtain a where a: "even (length (f_words s))" "serial cs0 (f_log s) = Some a"
    "resting s \<and> cells (f_words s) = a \<or> (\<exists>q. working own a q s)" using assms(2) by (auto simp: atomic_so_far_def)
  have "\<not> working own a q s" for q
  proof
    assume w: "working own a q s"
    then have "own p = own q" using assms(4) by (auto simp: working_def)
    then have "p = q" using assms(1) by (simp add: inj_eq)
    then show False using w assms(3) by (simp add: working_def)
  qed
  then have r: "resting s" "cells (f_words s) = a" using a(3) by blast+
  have "working own a p (goto p (loop_head ops 0) (s\<lparr>f_lock := Some (own p)\<rparr>))"
    using r on_course_head [of 0 ops a a] by (simp add: working_def resting_def)
  then show ?thesis using a by (auto simp: atomic_so_far_def)
qed

text \<open>A system call inside the section, by the one process that is there.\<close>

lemma atomic_inside:
  assumes "atomic_so_far own cs0 s" "in_section (f_pc s p)" "sys_step own p s = Some s'"
  shows "atomic_so_far own cs0 s'"
proof -
  obtain a where a: "even (length (f_words s))" "serial cs0 (f_log s) = Some a"
    "resting s \<and> cells (f_words s) = a \<or> (\<exists>q. working own a q s)" using assms(1) by (auto simp: atomic_so_far_def)
  then obtain q where q: "working own a q s" using assms(2) by (auto simp: resting_def)
  then have "q = p" using assms(2) by (auto simp: working_def)
  then have w: "working own a p s" using q by simp
  let ?cs = "cells (f_words s)" and ?j = "f_pos s (own p)"
  have oc: "on_course a ?cs ?j (f_pc s p)" using w by (simp add: working_def)
  have stay: "atomic_so_far own cs0 t"
    if "f_log t = f_log s" "f_lock t = f_lock s" "even (length (f_words t))" "f_pc t = (f_pc s)(p := x)"
      "on_course a (cells (f_words t)) (f_pos t (own p)) x \<and> in_section x" for t x
    using that a(2) w by (auto simp: atomic_so_far_def working_def)
  show ?thesis
  proof (cases "f_pc s p")
    case (Seek ops i)
    then show ?thesis using assms(3) oc a(1) by (intro stay [of s' "Read ops i"]) (auto simp: sys_step_def Let_def)
  next
    case (Read ops i)
    note o = oc [unfolded Read on_course.simps]
    show ?thesis
    proof (cases "?j < length (f_words s)")
      case True
      then have n: "num_of ops i < length ?cs" using o a(1) by auto
      have v: "f_words s ! ?j = ?cs ! num_of ops i" using n o by (simp add: cells_nth)
      have s': "s' = goto p (after_read ops i (?cs ! num_of ops i)) (s\<lparr>f_pos := (f_pos s)(own p := Suc ?j)\<rparr>)"
        using assms(3) Read True unfolding v [symmetric] by (simp add: sys_step_def Let_def)
      show ?thesis
        using a(1) on_course_read [OF _ n, of a] o by (intro stay [of s' "after_read ops i (?cs ! num_of ops i)"]) (simp_all add: s')
    next
      case False
      then have "\<not> num_of ops i < length ?cs" using o by auto
      then have "sv_semop_step a 0 ops = (?cs, Undef)" using undef_read o by blast
      then show ?thesis using assms(3) Read False a(1) by (intro stay [of s' "Unlock ops Undef"]) (auto simp: sys_step_def Let_def)
    qed
  next
    case (SeekW ops i v)
    then show ?thesis using assms(3) oc a(1) by (intro stay [of s' "Write ops i v"]) (auto simp: sys_step_def Let_def)
  next
    case (Write ops i v)
    note o = oc [unfolded Write on_course.simps]
    then have l: "?j < length (f_words s)" "2 * num_of ops i < length (f_words s)" using a(1) by auto
    have c: "cells ((f_words s)[?j := v]) = ?cs[num_of ops i := v]" using cells_update [OF a(1) l(2)] o by simp
    show ?thesis
      using assms(3) Write l(1) a(1) on_course_head [of "Suc i" ops "?cs[num_of ops i := v]" a] o c
      by (intro stay [of s' "loop_head ops (Suc i)"]) (auto simp: sys_step_def Let_def)
  next
    case (Unlock ops r)
    then have o: "sv_semop_step a 0 ops = (?cs, r)" using oc by simp
    have "f_lock s = Some (own p)" using w by (simp add: working_def)
    then have s': "s' = goto p (Ret ops r) (s\<lparr>f_lock := None, f_log := f_log s @ [(p, ops, r)]\<rparr>)"
      using assms(3) Unlock by (simp add: sys_step_def Let_def)
    have "resting s'" using w by (auto simp: s' resting_def working_def)
    moreover have "serial cs0 (f_log s') = Some ?cs" using a(2) o by (simp add: s' serial_snoc)
    ultimately show ?thesis using a(1) by (simp add: atomic_so_far_def s')
  qed (use assms(2) in simp_all)
qed

lemma atomic_sys:
  assumes "inj own" "atomic_so_far own cs0 s" "sys_step own p s = Some s'"
  shows "atomic_so_far own cs0 s'"
proof (cases "in_section (f_pc s p)")
  case True
  then show ?thesis using atomic_inside assms(2,3) by blast
next
  case False
  then obtain ops where l: "f_pc s p = Lock ops" using assms(3) by (cases "f_pc s p") (simp_all add: sys_step_def Let_def)
  then have "f_lock s = None \<or> f_lock s = Some (own p)" "s' = goto p (loop_head ops 0) (s\<lparr>f_lock := Some (own p)\<rparr>)"
    using assms(3) by (auto simp: sys_step_def Let_def split: if_splits)
  then show ?thesis using atomic_lock [OF assms(1,2) l] by simp
qed

lemma atomic_start: "quiet s0 \<Longrightarrow> atomic_so_far own (cells (f_words s0)) s0"
  by (simp add: quiet_def atomic_so_far_def resting_def)

lemma sched_atomic:
  assumes "inj own" "sched own s s'" "atomic_so_far own cs0 s"
  shows "atomic_so_far own cs0 s'"
  using assms(2)
proof cases
  case (sys p)
  then show ?thesis using atomic_sys assms(1,3) by blast
qed (use assms(3) in \<open>auto intro!: atomic_outside\<close>)

lemma run_atomic: "inj own \<Longrightarrow> (sched own)\<^sup>*\<^sup>* s0 s \<Longrightarrow> quiet s0 \<Longrightarrow> atomic_so_far own (cells (f_words s0)) s"
  by (rotate_tac 1, induction rule: rtranclp_induct) (auto intro: atomic_start sched_atomic)

section \<open>Critical sections\<close>

text \<open>
  Processes that bracket a critical section with P and V. \<open>crit\<close> are those inside: a process enters when its P has returned, and
  leaves when it calls V.
\<close>

inductive clients :: "(nat \<Rightarrow> nat) \<Rightarrow> sysst \<Rightarrow> sysst \<Rightarrow> nat set \<Rightarrow> bool" for own s0 where
  start: "clients own s0 s0 {}"
| ask: "clients own s0 s crit \<Longrightarrow> p \<notin> crit \<Longrightarrow> f_pc s p = Out \<Longrightarrow> clients own s0 (goto p (Lock [P_op]) s) crit"
| sys: "clients own s0 s crit \<Longrightarrow> sys_step own p s = Some s' \<Longrightarrow> clients own s0 s' crit"
| again: "clients own s0 s crit \<Longrightarrow> f_pc s p = Ret ops (Blocked b) \<Longrightarrow> clients own s0 (goto p (Lock ops) s) crit"
| enter: "clients own s0 s crit \<Longrightarrow> f_pc s p = Ret [P_op] Applied \<Longrightarrow> clients own s0 (goto p Out s) (insert p crit)"
| leave: "clients own s0 s crit \<Longrightarrow> p \<in> crit \<Longrightarrow> f_pc s p = Out \<Longrightarrow> clients own s0 (goto p (Lock [V_op]) s) (crit - {p})"
| left: "clients own s0 s crit \<Longrightarrow> f_pc s p = Ret [V_op] Applied \<Longrightarrow> clients own s0 (goto p Out s) crit"

lemma clients_sched: "clients own s0 s crit \<Longrightarrow> (sched own)\<^sup>*\<^sup>* s0 s"
  by (induction rule: clients.induct) (auto intro: sched.intros rtranclp.rtrancl_into_rtrancl)

text \<open>The processes that have the semaphore by a log of passes, and that the log takes it and gives it back in turn.\<close>

definition hold :: "nat \<times> sembuf list \<times> pass \<Rightarrow> nat set \<Rightarrow> nat set" where
  "hold e H = (case e of (p, ops, r) \<Rightarrow>
     if ops = [P_op] \<and> r = Applied then insert p H else if ops = [V_op] \<and> r = Applied then H - {p} else H)"

definition in_turn :: "nat \<times> sembuf list \<times> pass \<Rightarrow> nat set \<Rightarrow> bool" where
  "in_turn e H = (case e of (p, ops, r) \<Rightarrow> ops = [P_op] \<and> p \<notin> H \<or> ops = [V_op] \<and> p \<in> H)"

fun turns :: "nat set \<Rightarrow> (nat \<times> sembuf list \<times> pass) list \<Rightarrow> bool" where
  "turns H [] = True"
| "turns H (e # l) = (in_turn e H \<and> turns (hold e H) l)"

lemma turns_snoc: "turns H (l @ [e]) \<longleftrightarrow> turns H l \<and> in_turn e (fold hold l H)"
  by (induction l arbitrary: H) auto

lemma P_neq_V: "P_op \<noteq> V_op"
  by (simp add: P_op_def V_op_def)

text \<open>The value of the semaphore and the processes that have it add up to one.\<close>

definition balanced :: "u32 list \<Rightarrow> nat set \<Rightarrow> bool" where
  "balanced cs H \<longleftrightarrow> (\<exists>v r. cs = v # r \<and> (v = 1 \<and> H = {} \<or> v = 0 \<and> (\<exists>p. H = {p})))"

lemma balanced_step:
  assumes "balanced cs H" "in_turn (p, ops, r) H" "sv_semop_step cs 0 ops = (cs', r)"
  shows "balanced cs' (hold (p, ops, r) H)"
proof -
  obtain v t where c: "cs = v # t" "v = 1 \<and> H = {} \<or> v = 0 \<and> (\<exists>p. H = {p})" using assms(1) by (auto simp: balanced_def)
  show ?thesis
  proof (cases "ops = [P_op]")
    case True
    then have "p \<notin> H" using assms(2) P_neq_V by (auto simp: in_turn_def)
    then show ?thesis using assms(3) c True P_neq_V unfolding True c(1) P_pass by (auto simp: balanced_def hold_def split: if_splits)
  next
    case False
    then have "ops = [V_op]" "p \<in> H" using assms(2) by (auto simp: in_turn_def)
    then show ?thesis using assms(3) c False unfolding \<open>ops = [V_op]\<close> c(1) V_pass by (auto simp: balanced_def hold_def P_neq_V [symmetric])
  qed
qed

lemma balanced_log: "serial cs l = Some cs' \<Longrightarrow> turns H l \<Longrightarrow> balanced cs H \<Longrightarrow> balanced cs' (fold hold l H)"
proof (induction cs l arbitrary: H rule: serial.induct)
  case (2 cs p ops r l)
  obtain c1 r1 where s: "sv_semop_step cs 0 ops = (c1, r1)" by (cases "sv_semop_step cs 0 ops")
  then have r: "r1 = r" "serial c1 l = Some cs'" using "2.prems"(1) by (auto split: if_splits)
  have "balanced c1 (hold (p, ops, r) H)" using balanced_step [OF "2.prems"(3) _ s [unfolded r(1)]] "2.prems"(2) by simp
  then show ?case using "2.IH" [OF s [symmetric] refl] r "2.prems"(2) by simp
qed simp

text \<open>Where a process is tells whether it has the semaphore.\<close>

fun placed :: "nat set \<Rightarrow> nat set \<Rightarrow> nat \<Rightarrow> pc \<Rightarrow> bool" where
  "placed H crit p Out \<longleftrightarrow> (p \<in> H \<longleftrightarrow> p \<in> crit)"
| "placed H crit p (Ret ops r) \<longleftrightarrow> p \<notin> crit \<and> (ops = [P_op] \<and> (p \<in> H \<longleftrightarrow> r = Applied) \<or> ops = [V_op] \<and> (p \<in> H \<longleftrightarrow> r \<noteq> Applied))"
| "placed H crit p (Lock ops) \<longleftrightarrow> p \<notin> crit \<and> in_turn (p, ops, Applied) H"
| "placed H crit p (Seek ops i) \<longleftrightarrow> p \<notin> crit \<and> in_turn (p, ops, Applied) H"
| "placed H crit p (Read ops i) \<longleftrightarrow> p \<notin> crit \<and> in_turn (p, ops, Applied) H"
| "placed H crit p (SeekW ops i v) \<longleftrightarrow> p \<notin> crit \<and> in_turn (p, ops, Applied) H"
| "placed H crit p (Write ops i v) \<longleftrightarrow> p \<notin> crit \<and> in_turn (p, ops, Applied) H"
| "placed H crit p (Unlock ops r) \<longleftrightarrow> p \<notin> crit \<and> in_turn (p, ops, Applied) H"

definition orderly :: "sysst \<Rightarrow> nat set \<Rightarrow> bool" where
  "orderly s crit \<longleftrightarrow> turns {} (f_log s) \<and> (\<forall>p. placed (fold hold (f_log s) {}) crit p (f_pc s p))"

lemma placed_head: "placed H crit p (loop_head ops i) \<longleftrightarrow> p \<notin> crit \<and> in_turn (p, ops, Applied) H"
  by (simp add: loop_head_def)

lemma placed_read: "placed H crit p (after_read ops i v) \<longleftrightarrow> p \<notin> crit \<and> in_turn (p, ops, Applied) H"
  by (simp add: after_read_def Let_def placed_head)

text \<open>A move of one process that leaves the log alone.\<close>

lemma orderly_goto:
  assumes "orderly s crit" "f_log t = f_log s" "f_pc t = (f_pc s)(p := x)" "placed (fold hold (f_log s) {}) crit' p x"
    and "\<And>q. q \<noteq> p \<Longrightarrow> q \<in> crit' \<longleftrightarrow> q \<in> crit"
  shows "orderly t crit'"
proof -
  have "placed H crit' q (f_pc s q)" if "q \<noteq> p" "placed H crit q (f_pc s q)" for H q
    using that assms(5) [OF that(1)] by (cases "f_pc s q") auto
  then show ?thesis using assms by (auto simp: orderly_def)
qed

lemma orderly_unlock:
  assumes "orderly s crit" "f_pc s p = Unlock ops r" "f_pc t = (f_pc s)(p := Ret ops r)" "f_log t = f_log s @ [(p, ops, r)]"
  shows "orderly t crit"
proof -
  let ?H = "fold hold (f_log s) {}"
  have pl: "p \<notin> crit" "in_turn (p, ops, r) ?H" using assms(1,2) by (auto simp: orderly_def in_turn_def dest!: spec [of _ p])
  have "placed (hold (p, ops, r) ?H) crit q (f_pc s q)" if "q \<noteq> p" "placed ?H crit q (f_pc s q)" for q
    using that by (cases "f_pc s q") (auto simp: hold_def in_turn_def)
  moreover have "placed (hold (p, ops, r) ?H) crit p (Ret ops r)"
    using pl P_neq_V by (auto simp: hold_def in_turn_def)
  ultimately show ?thesis using assms pl(2) by (auto simp: orderly_def turns_snoc)
qed

lemma orderly_sys:
  assumes "orderly s crit" "sys_step own p s = Some s'"
  shows "orderly s' crit"
proof -
  have pl: "placed (fold hold (f_log s) {}) crit p (f_pc s p)" using assms(1) by (simp add: orderly_def)
  show ?thesis
  proof (cases "f_pc s p")
    case (Unlock ops r)
    then show ?thesis using assms by (intro orderly_unlock [OF assms(1) Unlock]) (auto simp: sys_step_def Let_def)
  next
    case (Lock ops)
    then show ?thesis using assms(2) pl
      by (intro orderly_goto [OF assms(1), of s' p "loop_head ops 0"]) (auto simp: sys_step_def placed_head Let_def split: if_splits)
  next
    case (Read ops i)
    then show ?thesis using assms(2) pl
      by (intro orderly_goto [OF assms(1), of s' p "f_pc s' p"]) (auto simp: sys_step_def placed_read Let_def split: if_splits)
  next
    case (Write ops i v)
    then show ?thesis using assms(2) pl
      by (intro orderly_goto [OF assms(1), of s' p "loop_head ops (Suc i)"]) (auto simp: sys_step_def placed_head Let_def)
  next
    case (Seek ops i)
    then show ?thesis using assms(2) pl
      by (intro orderly_goto [OF assms(1), of s' p "Read ops i"]) (auto simp: sys_step_def Let_def)
  next
    case (SeekW ops i v)
    then show ?thesis using assms(2) pl
      by (intro orderly_goto [OF assms(1), of s' p "Write ops i v"]) (auto simp: sys_step_def Let_def)
  qed (use assms(2) in \<open>simp_all add: sys_step_def Let_def\<close>)
qed

lemma clients_orderly:
  assumes "clients own s0 s crit" "quiet s0"
  shows "orderly s crit"
  using assms(1)
proof induction
  case start
  then show ?case using assms(2) by (simp add: quiet_def orderly_def)
next
  case (sys s crit p s')
  then show ?case using orderly_sys by blast
next
  case (ask s crit p)
  have "placed (fold hold (f_log s) {}) crit p (f_pc s p)" using ask.IH by (simp add: orderly_def)
  then show ?case using ask by (intro orderly_goto [OF ask.IH, of _ p "Lock [P_op]"]) (auto simp: in_turn_def)
next
  case (again s crit p ops b)
  have "placed (fold hold (f_log s) {}) crit p (f_pc s p)" using again.IH by (simp add: orderly_def)
  then show ?case using again by (intro orderly_goto [OF again.IH, of _ p "Lock ops"]) (auto simp: in_turn_def)
next
  case (enter s crit p)
  have "placed (fold hold (f_log s) {}) crit p (f_pc s p)" using enter.IH by (simp add: orderly_def)
  then show ?case using enter P_neq_V by (intro orderly_goto [OF enter.IH, of _ p Out]) auto
next
  case (leave s crit p)
  have "placed (fold hold (f_log s) {}) crit p (f_pc s p)" using leave.IH by (simp add: orderly_def)
  then show ?case using leave by (intro orderly_goto [OF leave.IH, of _ p "Lock [V_op]"]) (auto simp: in_turn_def)
next
  case (left s crit p)
  have "placed (fold hold (f_log s) {}) crit p (f_pc s p)" using left.IH by (simp add: orderly_def)
  then show ?case using left P_neq_V by (intro orderly_goto [OF left.IH, of _ p Out]) auto
qed

lemma crit_holds: "orderly s crit \<Longrightarrow> crit \<subseteq> fold hold (f_log s) {}"
proof
  fix p assume o: "orderly s crit" and p: "p \<in> crit"
  then have "placed (fold hold (f_log s) {}) crit p (f_pc s p)" by (simp add: orderly_def)
  then show "p \<in> fold hold (f_log s) {}" using p by (cases "f_pc s p") auto
qed

lemma clients_balanced:
  assumes "inj own" "clients own s0 s crit" "quiet s0" "f_words s0 = 1 # ws"
  shows "\<exists>a. serial (cells (f_words s0)) (f_log s) = Some a \<and> balanced a (fold hold (f_log s) {})"
proof -
  have o: "orderly s crit" by (rule clients_orderly [OF assms(2,3)])
  obtain a where a: "serial (cells (f_words s0)) (f_log s) = Some a"
    using run_atomic [OF assms(1) clients_sched [OF assms(2)] assms(3)] by (auto simp: atomic_so_far_def)
  obtain w ws' where "ws = w # ws'" using assms(3,4) by (cases ws) (auto simp: quiet_def)
  then have "0 < length (cells (f_words s0))" "cells (f_words s0) ! 0 = 1" using assms(4) by (simp_all add: cells_nth)
  then have "balanced (cells (f_words s0)) {}" by (cases "cells (f_words s0)") (simp_all add: balanced_def)
  then show ?thesis using balanced_log [OF a, of "{}"] o a by (auto simp: orderly_def)
qed

text \<open>One process alone for a number of system calls, and several by a schedule.\<close>

fun play :: "(nat \<Rightarrow> nat) \<Rightarrow> nat list \<Rightarrow> sysst \<Rightarrow> sysst option" where
  "play own [] s = Some s"
| "play own (p # ps) s = (case sys_step own p s of None \<Rightarrow> None | Some t \<Rightarrow> play own ps t)"

lemma clients_play: "clients own s0 s crit \<Longrightarrow> play own ps s = Some t \<Longrightarrow> clients own s0 t crit"
  by (induction ps arbitrary: s) (auto split: option.splits intro: clients.sys)

lemma lone_P:
  assumes "f_words s = 1 # ws" "f_lock s = None"
  shows "\<exists>t. play own (replicate 6 p) (goto p (Lock [P_op]) s) = Some t \<and> f_pc t p = Ret [P_op] Applied"
  using assms
  by (simp add: eval_nat_numeral sys_step_def Let_def loop_head_def num_of_def after_read_def goto_def P_op_def)

section \<open>Properties\<close>

text \<open>
  C21: passes are atomic. However the system calls of any number of processes interleave, with arbitrary operations on the set, as long
  as no two of them share an open file description: the passes that have ended, in the order in which they gave the lock back, have
  the results that they have when run one after the other without interruption, and when nobody is inside a locked section the
  semaphores have the values that these runs leave.
\<close>

theorem passes_serial:
  assumes "inj own" "quiet s0" "(sched own)\<^sup>*\<^sup>* s0 s"
  shows "\<exists>a. serial (cells (f_words s0)) (f_log s) = Some a \<and> ((\<forall>p. \<not> in_section (f_pc s p)) \<longrightarrow> cells (f_words s) = a)"
  using run_atomic [OF assms(1,3,2)] by (auto simp: atomic_so_far_def working_def)

definition sem_start :: sysst where
  "sem_start = \<lparr>f_words = [1, 0], f_lock = None, f_pos = (\<lambda>_. 0), f_pc = (\<lambda>_. Out), f_log = []\<rparr>"

definition P_done :: "nat \<Rightarrow> sysst" where
  "P_done p = the (play (\<lambda>q. q) (replicate 6 p) (goto p (Lock [P_op]) sem_start))"

lemma sem_start_quiet: "quiet sem_start"
  by (simp add: quiet_def sem_start_def)

lemma P_done_run:
  "play (\<lambda>q. q) (replicate 6 p) (goto p (Lock [P_op]) sem_start) = Some (P_done p)" "f_pc (P_done p) p = Ret [P_op] Applied"
  using lone_P [of sem_start "[0]" "\<lambda>q. q" p] by (auto simp: P_done_def sem_start_def)

lemma P_done_entered: "clients (\<lambda>q. q) sem_start (goto p Out (P_done p)) {p}"
proof -
  have "clients (\<lambda>q. q) sem_start (goto p (Lock [P_op]) sem_start) {}"
    by (rule clients.ask [OF clients.start]) (simp_all add: sem_start_def)
  then show ?thesis using clients.enter [OF clients_play [OF _ P_done_run(1)] P_done_run(2)] by simp
qed

theorem passes_serial_witness:
  "\<exists>a. serial [1] (f_log (goto 5 Out (P_done 5))) = Some a"
proof -
  have "(sched (\<lambda>q. q))\<^sup>*\<^sup>* sem_start (goto 5 Out (P_done 5))" by (rule clients_sched [OF P_done_entered])
  moreover have "inj (\<lambda>q :: nat. q)" by simp
  moreover have "cells (f_words sem_start) = [1]" by (simp add: cells_def sem_start_def)
  ultimately show ?thesis using passes_serial [of "\<lambda>q. q" sem_start] sem_start_quiet by metis
qed

text \<open>
  C3: mutual exclusion. Processes bracket a critical section with P and V on a semaphore that starts at one. In every interleaving of
  their system calls at most one is inside, provided that each has an open file description of its own, that is, opened the set
  itself and not through a descriptor it inherited. While nobody is inside or on the way, a P that is tried is granted.
\<close>

theorem sysv_mutual_exclusion:
  assumes "inj own" "quiet s0" "f_words s0 = 1 # ws" "clients own s0 s crit"
  shows "(\<forall>p \<in> crit. \<forall>q \<in> crit. p = q) \<and>
    (crit = {} \<and> (\<forall>q. f_pc s q = Out) \<longrightarrow>
       (\<exists>t. play own (replicate 6 p) (goto p (Lock [P_op]) s) = Some t \<and> f_pc t p = Ret [P_op] Applied))"
proof -
  have o: "orderly s crit" by (rule clients_orderly [OF assms(4,2)])
  let ?H = "fold hold (f_log s) {}"
  obtain a where a: "serial (cells (f_words s0)) (f_log s) = Some a" "balanced a ?H"
    using clients_balanced [OF assms(1,4,2,3)] by blast
  have "\<exists>x. crit \<subseteq> {x}" using crit_holds [OF o] a(2) by (auto simp: balanced_def)
  then have "\<forall>p \<in> crit. \<forall>q \<in> crit. p = q" by blast
  moreover have "\<exists>t. play own (replicate 6 p) (goto p (Lock [P_op]) s) = Some t \<and> f_pc t p = Ret [P_op] Applied"
    if "crit = {}" and out: "\<forall>q. f_pc s q = Out"
  proof -
    have "?H = {}" using o out that(1) by (auto simp: orderly_def)
    then obtain r where "a = 1 # r" using a(2) by (auto simp: balanced_def)
    moreover have "f_lock s = None" "cells (f_words s) = a"
      using run_atomic [OF assms(1) clients_sched [OF assms(4)] assms(2)] a(1) out by (auto simp: atomic_so_far_def resting_def working_def)
    ultimately have "f_lock s = None" "0 < length (f_words s) div 2" "f_words s ! 0 = 1"
      using cells_nth [of 0 "f_words s"] length_cells [of "f_words s"] by auto
    then show ?thesis using lone_P [of s "tl (f_words s)" own p] by (cases "f_words s") auto
  qed
  ultimately show ?thesis by blast
qed

theorem sysv_mutual_exclusion_witness:
  "clients (\<lambda>q. q) sem_start (goto 5 Out (P_done 5)) {5} \<and> (\<exists>t. play (\<lambda>q. q) (replicate 6 7) (goto 7 (Lock [P_op]) sem_start) = Some t)"
proof -
  have i: "inj (\<lambda>q :: nat. q)" by simp
  have w: "f_words sem_start = 1 # [0]" "\<forall>q. f_pc sem_start q = Out" by (simp_all add: sem_start_def)
  show ?thesis
    using P_done_entered [of 5] sysv_mutual_exclusion [OF i sem_start_quiet w(1) clients.start, of 7] w(2) by blast
qed

section \<open>Observations\<close>

text \<open>
  A parent that used the set before it forked shares the cached description with its child. The lock does not keep them apart, since
  it belongs to the description: both read the value one before either writes, and both are inside.
\<close>

definition fork_run :: "sysst option" where
  "fork_run = play (\<lambda>_. 0) [1, 1, 1, 2, 2, 2, 1, 1, 1, 2, 2, 2] (goto 2 (Lock [P_op]) (goto 1 (Lock [P_op]) sem_start))"

lemma fork_shares_lock: "\<exists>s. clients (\<lambda>_. 0) sem_start s {1, 2}"
proof -
  have c: "clients (\<lambda>_. 0) sem_start (goto 2 (Lock [P_op]) (goto 1 (Lock [P_op]) sem_start)) {}"
    by (intro clients.ask clients.start) (simp_all add: sem_start_def)
  obtain t where t: "fork_run = Some t" "f_pc t 1 = Ret [P_op] Applied" "f_pc t 2 = Ret [P_op] Applied"
    by (simp add: fork_run_def sem_start_def sys_step_def Let_def loop_head_def num_of_def after_read_def goto_def P_op_def)
  have "clients (\<lambda>_. 0) sem_start (goto 2 Out (goto 1 Out t)) (insert 2 {1})"
    using clients_play [OF c t(1) [unfolded fork_run_def]] t(2,3) by (intro clients.enter) simp_all
  then show ?thesis by (auto simp: insert_commute)
qed

end
