(* ===== verification/Sprout_Wrappers.thy ===== *)
theory Sprout_Wrappers
  imports Sprout_Identity "HOL-Library.State_Monad"
begin

text \<open>
  The path-taking functions of the C library as the interposer exports them. A wrapper is a program of the state monad: it
  translates its paths, calls the function it stands in front of and mends the answer. The state is that of the interposer (the
  translate cache, the synthetic \<^verbatim>\<open>/proc\<close> descriptors, the hard link registry, the fake ids, the ring of ashmem descriptors)
  together with the calls made so far; the answers are those of an arbitrary library and kernel, which may depend on all of
  these calls. Pointers that a wrapper only passes on are numbers. Tracing is left out.
\<close>

section \<open>Calls and answers\<close>

text \<open>A call: the function, its paths with the descriptor each is relative to, the numbers, the other strings.\<close>

record req =
  rq_fn :: cstr
  rq_paths :: "(int \<times> cptr) list"
  rq_ints :: "int list"
  rq_strs :: "cptr list"

definition req :: "cstr \<Rightarrow> (int \<times> cptr) list \<Rightarrow> int list \<Rightarrow> cptr list \<Rightarrow> req" where
  "req f ps ints ss = \<lparr>rq_fn = f, rq_paths = ps, rq_ints = ints, rq_strs = ss\<rparr>"

text \<open>The answers: a number, a \<^verbatim>\<open>stat\<close> buffer, a string; for a template also the template as the call leaves it.\<close>

record kernel =
  k_int :: "req list \<Rightarrow> req \<Rightarrow> errno + int"
  k_stat :: "req list \<Rightarrow> req \<Rightarrow> errno + stat_buf"
  k_str :: "req list \<Rightarrow> req \<Rightarrow> errno + cstr"
  k_tmp :: "req list \<Rightarrow> req \<Rightarrow> (errno + int) \<times> cstr"

text \<open>What is fixed during a call: \<open>c_stdio\<close> are the addresses of the standard streams, \<open>c_alloc\<close> tells which allocations succeed.\<close>

record wctx =
  c_x :: xctx
  c_env :: env
  c_pid :: nat
  c_auxv :: int
  c_dup :: "int \<Rightarrow> int"
  c_memfd :: "cstr \<Rightarrow> int"
  c_si :: sysinfo
  c_lib :: idlib
  c_stdio :: "u64 option list"
  c_alloc :: "nat \<Rightarrow> bool"
  c_k :: kernel

record wst =
  ws_xc :: xcache
  ws_fp :: fakeproc
  ws_hreg :: "cstr list"
  ws_ids :: ids
  ws_ash :: "int list"
  ws_ashpos :: nat
  ws_log :: "req list"

text \<open>How a wrapper ends: a crash on a null pointer, an error in \<^verbatim>\<open>errno\<close>, a result.\<close>

datatype 'a outcome = Crash | Fail errno | Done 'a

type_synonym 'a wm = "(wst, 'a) state"

abbreviation ret :: "'a \<Rightarrow> 'a wm" where
  "ret \<equiv> State_Monad.return"

fun result :: "errno + 'a \<Rightarrow> 'a outcome" where
  "result (Inl e) = Fail e"
| "result (Inr v) = Done v"

fun ptr :: "xres \<Rightarrow> cptr" where
  "ptr (XErr e) = None"
| "ptr (Caller p) = Some p"
| "ptr (Buf p) = Some p"
| "ptr (Frame p) = Some p"

definition ask :: "(req list \<Rightarrow> req \<Rightarrow> 'a) \<Rightarrow> req \<Rightarrow> 'a wm" where
  "ask k r = State (\<lambda>s. (k (ws_log s) r, s\<lparr>ws_log := ws_log s @ [r]\<rparr>))"

definition ask_int :: "wctx \<Rightarrow> req \<Rightarrow> int outcome wm" where
  "ask_int w r = do { v \<leftarrow> ask (k_int (c_k w)) r; ret (result v) }"

definition AT_FDCWD :: int where "AT_FDCWD = - 100"
definition AT_SYMLINK_NOFOLLOW :: u32 where "AT_SYMLINK_NOFOLLOW = 0x100"
definition AT_EACCESS :: u32 where "AT_EACCESS = 0x200"
definition AT_SYMLINK_FOLLOW :: u32 where "AT_SYMLINK_FOLLOW = 0x400"

text \<open>\<^verbatim>\<open>sp_translate_x\<close> (\<open>True\<close>) and \<^verbatim>\<open>sp_translate_l\<close> (\<open>False\<close>) on the process's cache.\<close>

definition xl :: "wctx \<Rightarrow> bool \<Rightarrow> cptr \<Rightarrow> xres wm" where
  "xl w follow path = State (\<lambda>s. let (r, c) = sp_translate_xf (c_x w) (ws_xc s) path follow in (r, s\<lparr>ws_xc := c\<rparr>))"

section \<open>The common shapes\<close>

text \<open>Translate and call; the descriptor is passed on.\<close>

definition at_x :: "wctx \<Rightarrow> cstr \<Rightarrow> bool \<Rightarrow> int \<Rightarrow> cptr \<Rightarrow> int list \<Rightarrow> cptr list \<Rightarrow> int outcome wm" where
  "at_x w f follow dirfd path ints ss = do { p \<leftarrow> xl w follow path; ask_int w (req f [(dirfd, ptr p)] ints ss) }"

definition plain :: "wctx \<Rightarrow> cstr \<Rightarrow> bool \<Rightarrow> cptr \<Rightarrow> int list \<Rightarrow> cptr list \<Rightarrow> int outcome wm" where
  "plain w f follow path ints ss = at_x w f follow AT_FDCWD path ints ss"

text \<open>A path relative to an open directory.\<close>

definition fd_relative :: "int \<Rightarrow> cptr \<Rightarrow> bool" where
  "fd_relative dirfd path = (case path of None \<Rightarrow> False | Some q \<Rightarrow> dirfd \<noteq> AT_FDCWD \<and> char_at q 0 \<noteq> slash)"

definition guarded :: "wctx \<Rightarrow> cstr \<Rightarrow> bool \<Rightarrow> int \<Rightarrow> cptr \<Rightarrow> int list \<Rightarrow> int outcome wm" where
  "guarded w f follow dirfd path ints =
     (if path = None then ret (Fail EFAULT)
      else if fd_relative dirfd path then ask_int w (req f [(dirfd, path)] ints [])
      else at_x w f follow dirfd path ints [])"

definition no_follow :: "u32 \<Rightarrow> bool" where
  "no_follow flags \<longleftrightarrow> flags AND AT_SYMLINK_NOFOLLOW \<noteq> 0"

section \<open>Opening\<close>

text \<open>\<^verbatim>\<open>O_CREAT | O_TMPFILE\<close> is 0x404040; without one of these bits there is no mode argument.\<close>

definition creat_mode :: "u32 \<Rightarrow> u32 \<Rightarrow> u32" where
  "creat_mode flags mode = (if flags AND 0x404040 \<noteq> 0 then mode else 0)"

definition fake_open :: "wctx \<Rightarrow> cstr \<Rightarrow> int wm" where
  "fake_open w q = State (\<lambda>s. let (f, fp) = sp_fakeproc_open (c_si w) (c_memfd w) (ws_fp s) q in (f, s\<lparr>ws_fp := fp\<rparr>))"

definition self_exe :: "wctx \<Rightarrow> cptr \<Rightarrow> cptr" where
  "self_exe w path = (case sp_self_exe_guest_path (c_env w) (c_pid w) path of None \<Rightarrow> path | Some g \<Rightarrow> Some (snprintf_s SP_PATH_MAX g))"

definition open_body :: "wctx \<Rightarrow> cstr \<Rightarrow> cptr \<Rightarrow> u32 \<Rightarrow> u32 \<Rightarrow> int outcome wm" where
  "open_body w f path flags mode =
     (let af = sp_auxv_match (c_auxv w) (c_dup w) (c_pid w) path in
      if 0 \<le> af then ret (Done af)
      else case path of
        None \<Rightarrow> ret Crash
      | Some q \<Rightarrow> do {
          ff \<leftarrow> fake_open w q;
          if 0 \<le> ff then ret (Done ff)
          else plain w f True (self_exe w path) [uint flags, uint (creat_mode flags mode)] []
        })"

definition openc :: "wctx \<Rightarrow> cptr \<Rightarrow> u32 \<Rightarrow> u32 \<Rightarrow> int outcome wm" where
  "openc w path flags mode = open_body w ''open'' path flags mode"

definition open64 :: "wctx \<Rightarrow> cptr \<Rightarrow> u32 \<Rightarrow> u32 \<Rightarrow> int outcome wm" where
  "open64 w path flags mode = open_body w ''open64'' path flags mode"

definition openat_body :: "wctx \<Rightarrow> cstr \<Rightarrow> int \<Rightarrow> cptr \<Rightarrow> u32 \<Rightarrow> u32 \<Rightarrow> int outcome wm" where
  "openat_body w f dirfd path flags mode =
     (case path of
        None \<Rightarrow> ret (Fail EFAULT)
      | Some q \<Rightarrow>
          (let ints = [uint flags, uint (creat_mode flags mode)];
               af = (if dirfd = AT_FDCWD then sp_auxv_match (c_auxv w) (c_dup w) (c_pid w) path else - 1) in
           if fd_relative dirfd path then ask_int w (req f [(dirfd, path)] ints [])
           else if 0 \<le> af then ret (Done af)
           else do {
             ff \<leftarrow> (if dirfd = AT_FDCWD then fake_open w q else ret (- 1));
             if 0 \<le> ff then ret (Done ff)
             else at_x w f True dirfd (if dirfd = AT_FDCWD then self_exe w path else path) ints []
           }))"

definition openat :: "wctx \<Rightarrow> int \<Rightarrow> cptr \<Rightarrow> u32 \<Rightarrow> u32 \<Rightarrow> int outcome wm" where
  "openat w dirfd path flags mode = openat_body w ''openat'' dirfd path flags mode"

definition openat64 :: "wctx \<Rightarrow> int \<Rightarrow> cptr \<Rightarrow> u32 \<Rightarrow> u32 \<Rightarrow> int outcome wm" where
  "openat64 w dirfd path flags mode = openat_body w ''openat64'' dirfd path flags mode"

text \<open>The internal symbols of glibc; their names here stand for whichever symbol was found. Leading underscores are dropped.\<close>

definition open64_nocancel :: "wctx \<Rightarrow> cptr \<Rightarrow> u32 \<Rightarrow> u32 \<Rightarrow> int outcome wm" where
  "open64_nocancel w path flags mode =
     (case path of
        None \<Rightarrow> ret Crash
      | Some q \<Rightarrow> do {
          ff \<leftarrow> fake_open w q;
          if 0 \<le> ff then ret (Done ff)
          else plain w ''__open64_nocancel'' True path [uint flags, uint (creat_mode flags mode)] []
        })"

definition openat64_nocancel :: "wctx \<Rightarrow> int \<Rightarrow> cptr \<Rightarrow> u32 \<Rightarrow> u32 \<Rightarrow> int outcome wm" where
  "openat64_nocancel w dirfd path flags mode =
     (let go = at_x w ''__openat64_nocancel'' True dirfd path [uint flags, uint (creat_mode flags mode)] [] in
      if dirfd \<noteq> AT_FDCWD then go
      else case path of
        None \<Rightarrow> ret Crash
      | Some q \<Rightarrow> do { ff \<leftarrow> fake_open w q; if 0 \<le> ff then ret (Done ff) else go })"

definition uu_open64 :: "wctx \<Rightarrow> cptr \<Rightarrow> u32 \<Rightarrow> u32 \<Rightarrow> int outcome wm" where
  "uu_open64 w path flags mode = plain w ''__open64'' True path [uint flags, uint (creat_mode flags mode)] []"

definition uu_openat64 :: "wctx \<Rightarrow> int \<Rightarrow> cptr \<Rightarrow> u32 \<Rightarrow> u32 \<Rightarrow> int outcome wm" where
  "uu_openat64 w dirfd path flags mode = at_x w ''__openat64'' True dirfd path [uint flags, uint (creat_mode flags mode)] []"

text \<open>A stream is its address, 0 for none. \<^verbatim>\<open>sp_frepair\<close> compares the low halves.\<close>

definition sp_frepair :: "u64 option list \<Rightarrow> u64 \<Rightarrow> u64" where
  "sp_frepair stdio f =
     (if f = 0 then f
      else case find (\<lambda>r. case r of None \<Rightarrow> False | Some a \<Rightarrow> (ucast f :: u32) = ucast a) stdio of
             Some (Some a) \<Rightarrow> a
           | _ \<Rightarrow> f)"

definition fopen :: "wctx \<Rightarrow> cptr \<Rightarrow> cptr \<Rightarrow> int outcome wm" where
  "fopen w path mode = plain w ''fopen'' True (self_exe w path) [] [mode]"

definition fopen64 :: "wctx \<Rightarrow> cptr \<Rightarrow> cptr \<Rightarrow> int outcome wm" where
  "fopen64 w path mode = plain w ''fopen64'' True (self_exe w path) [] [mode]"

definition freopen :: "wctx \<Rightarrow> cptr \<Rightarrow> cptr \<Rightarrow> u64 \<Rightarrow> int outcome wm" where
  "freopen w path mode stream = plain w ''freopen'' True path [uint (sp_frepair (c_stdio w) stream)] [mode]"

definition freopen64 :: "wctx \<Rightarrow> cptr \<Rightarrow> cptr \<Rightarrow> u64 \<Rightarrow> int outcome wm" where
  "freopen64 w path mode stream = plain w ''freopen64'' True path [uint (sp_frepair (c_stdio w) stream)] [mode]"

definition opendir :: "wctx \<Rightarrow> cptr \<Rightarrow> int outcome wm" where
  "opendir w path = plain w ''opendir'' True path [] []"

section \<open>Permission checks\<close>

text \<open>The call of \<^verbatim>\<open>fstatat\<close> keeps the flags in \<^verbatim>\<open>AT_SYMLINK_NOFOLLOW | AT_EMPTY_PATH | AT_NO_AUTOMOUNT\<close>, 0x1900.\<close>

definition emulate_access :: "wctx \<Rightarrow> int \<Rightarrow> cptr \<Rightarrow> u32 \<Rightarrow> u32 \<Rightarrow> bool \<Rightarrow> int outcome wm" where
  "emulate_access w dirfd path mode flags use_eid = do {
     st \<leftarrow> ask (k_stat (c_k w)) (req ''fstatat'' [(dirfd, path)] [uint (flags AND 0x1900)] []);
     ret (result (sp_emulate_access_impl (c_lib w) st mode use_eid))
   }"

definition access_body :: "wctx \<Rightarrow> int \<Rightarrow> cptr \<Rightarrow> u32 \<Rightarrow> u32 \<Rightarrow> bool \<Rightarrow> int outcome wm" where
  "access_body w dirfd path mode flags use_eid = do { p \<leftarrow> xl w True path; emulate_access w dirfd (ptr p) mode flags use_eid }"

definition fakeproc_first :: "cptr \<Rightarrow> u32 \<Rightarrow> int outcome wm \<Rightarrow> int outcome wm" where
  "fakeproc_first path mode m =
     (case path of
        None \<Rightarrow> ret Crash
      | Some q \<Rightarrow> (let ffa = fst (sp_fakeproc_access q mode) in if 0 \<le> ffa then ret (Done ffa) else m))"

definition access :: "wctx \<Rightarrow> cptr \<Rightarrow> u32 \<Rightarrow> int outcome wm" where
  "access w path mode = fakeproc_first path mode (access_body w AT_FDCWD path mode 0 False)"

definition eaccess :: "wctx \<Rightarrow> cptr \<Rightarrow> u32 \<Rightarrow> int outcome wm" where
  "eaccess w path mode = fakeproc_first path mode (access_body w AT_FDCWD path mode 0 True)"

definition faccessat :: "wctx \<Rightarrow> int \<Rightarrow> cptr \<Rightarrow> u32 \<Rightarrow> u32 \<Rightarrow> int outcome wm" where
  "faccessat w dirfd path mode flags =
     (let m = access_body w dirfd path mode flags (flags AND AT_EACCESS \<noteq> 0) in
      case path of
        None \<Rightarrow> ret Crash
      | Some q \<Rightarrow> if dirfd = AT_FDCWD \<or> char_at q 0 = slash then fakeproc_first path mode m else m)"

definition faccessat2 :: "wctx \<Rightarrow> int \<Rightarrow> cptr \<Rightarrow> u32 \<Rightarrow> u32 \<Rightarrow> int outcome wm" where
  "faccessat2 w dirfd path mode flags = faccessat w dirfd path mode flags"

section \<open>Templates\<close>

text \<open>The six characters that the library put in place of \<^verbatim>\<open>XXXXXX\<close>, mirrored into the caller's template.\<close>

definition mirror :: "cstr \<Rightarrow> cstr \<Rightarrow> cstr" where
  "mirror tmpl used = (if 6 \<le> length used \<and> 6 \<le> length tmpl
     then take (length tmpl - 6) tmpl @ drop (length used - 6) used else tmpl)"

text \<open>
  The result and the caller's buffer afterwards. When the translation is the caller's own pointer the library works in that
  buffer. \<open>null_ok\<close> tells what follows if the library answered a null template with success.
\<close>

definition tmp_body :: "wctx \<Rightarrow> cstr \<Rightarrow> int outcome \<Rightarrow> cptr \<Rightarrow> int list \<Rightarrow> (int outcome \<times> cptr) wm" where
  "tmp_body w f null_ok tmpl ints = do {
     p \<leftarrow> xl w True tmpl;
     case tmpl of
       None \<Rightarrow> do {
         (r, u) \<leftarrow> ask (k_tmp (c_k w)) (req f [(AT_FDCWD, None)] ints []);
         ret (case r of Inl e \<Rightarrow> Fail e | Inr _ \<Rightarrow> null_ok, None)
       }
     | Some t \<Rightarrow>
         (case p of
            XErr e \<Rightarrow> ret (Crash, tmpl)
          | Caller _ \<Rightarrow> do {
              (r, u) \<leftarrow> ask (k_tmp (c_k w)) (req f [(AT_FDCWD, ptr p)] ints []);
              ret (result r, Some u)
            }
          | _ \<Rightarrow> do {
              (r, u) \<leftarrow> ask (k_tmp (c_k w)) (req f [(AT_FDCWD, Some (strncpy_z SP_PATH_MAX (the (ptr p))))] ints []);
              ret (case r of Inl e \<Rightarrow> (Fail e, tmpl) | Inr fd \<Rightarrow> (Done fd, Some (mirror t u)))
            })
   }"

definition mkstemp :: "wctx \<Rightarrow> cptr \<Rightarrow> (int outcome \<times> cptr) wm" where
  "mkstemp w tmpl = tmp_body w ''mkstemp'' Crash tmpl []"

definition mkostemp :: "wctx \<Rightarrow> cptr \<Rightarrow> u32 \<Rightarrow> (int outcome \<times> cptr) wm" where
  "mkostemp w tmpl flags = tmp_body w ''mkostemp'' Crash tmpl [uint flags]"

definition mkstemp64 :: "wctx \<Rightarrow> cptr \<Rightarrow> (int outcome \<times> cptr) wm" where
  "mkstemp64 w tmpl = tmp_body w ''mkstemp64'' Crash tmpl []"

definition mkostemp64 :: "wctx \<Rightarrow> cptr \<Rightarrow> u32 \<Rightarrow> (int outcome \<times> cptr) wm" where
  "mkostemp64 w tmpl flags = tmp_body w ''mkostemp64'' Crash tmpl [uint flags]"

text \<open>\<^verbatim>\<open>mkdtemp\<close> returns the template; the number is not used.\<close>

definition mkdtemp64 :: "wctx \<Rightarrow> cptr \<Rightarrow> (int outcome \<times> cptr) wm" where
  "mkdtemp64 w tmpl = tmp_body w ''mkdtemp64'' Crash tmpl []"

definition mkdtemp :: "wctx \<Rightarrow> cptr \<Rightarrow> (int outcome \<times> cptr) wm" where
  "mkdtemp w tmpl = tmp_body w ''mkdtemp'' (Done 0) tmpl []"

section \<open>Modes, owners, tms, attributes\<close>

definition chmod :: "wctx \<Rightarrow> cptr \<Rightarrow> u32 \<Rightarrow> int outcome wm" where
  "chmod w path mode = plain w ''chmod'' True path [uint mode] []"

definition fchmodat :: "wctx \<Rightarrow> int \<Rightarrow> cptr \<Rightarrow> u32 \<Rightarrow> u32 \<Rightarrow> int outcome wm" where
  "fchmodat w dirfd path mode flags = guarded w ''fchmodat'' (\<not> no_follow flags) dirfd path [uint mode, uint flags]"

definition lchmod :: "wctx \<Rightarrow> cptr \<Rightarrow> u32 \<Rightarrow> int outcome wm" where
  "lchmod w path mode =
     (if path = None then ret (Fail EFAULT)
      else plain w ''fchmodat'' False path [uint mode, uint AT_SYMLINK_NOFOLLOW] [])"

definition inotify_add_watch :: "wctx \<Rightarrow> int \<Rightarrow> cptr \<Rightarrow> u32 \<Rightarrow> int outcome wm" where
  "inotify_add_watch w fd path msk =
     (if path = None then ret (Fail EFAULT) else plain w ''inotify_add_watch'' True path [fd, uint msk] [])"

definition chown_body :: "wctx \<Rightarrow> cstr \<Rightarrow> bool \<Rightarrow> cptr \<Rightarrow> u32 \<Rightarrow> u32 \<Rightarrow> int outcome wm" where
  "chown_body w f follow path uid gid = do {
     p \<leftarrow> xl w follow path;
     if sp_fakeroot_on (c_env w) then ret (Done 0)
     else ask_int w (req f [(AT_FDCWD, ptr p)] [uint uid, uint gid] [])
   }"

definition chown :: "wctx \<Rightarrow> cptr \<Rightarrow> u32 \<Rightarrow> u32 \<Rightarrow> int outcome wm" where
  "chown w path uid gid = chown_body w ''chown'' True path uid gid"

definition lchown :: "wctx \<Rightarrow> cptr \<Rightarrow> u32 \<Rightarrow> u32 \<Rightarrow> int outcome wm" where
  "lchown w path uid gid = chown_body w ''lchown'' False path uid gid"

definition fchownat :: "wctx \<Rightarrow> int \<Rightarrow> cptr \<Rightarrow> u32 \<Rightarrow> u32 \<Rightarrow> u32 \<Rightarrow> int outcome wm" where
  "fchownat w dirfd path uid gid flags =
     (if path = None then ret (Fail EFAULT)
      else if sp_fakeroot_on (c_env w) then ret (Done 0)
      else guarded w ''fchownat'' (\<not> no_follow flags) dirfd path [uint uid, uint gid, uint flags])"

definition fchown :: "wctx \<Rightarrow> int \<Rightarrow> u32 \<Rightarrow> u32 \<Rightarrow> int outcome wm" where
  "fchown w fd uid gid =
     (if sp_fakeroot_on (c_env w) then ret (Done 0) else ask_int w (req ''fchown'' [] [fd, uint uid, uint gid] []))"

definition truncatec :: "wctx \<Rightarrow> cptr \<Rightarrow> int \<Rightarrow> int outcome wm" where
  "truncatec w path len = plain w ''truncate'' True path [len] []"

definition utimes :: "wctx \<Rightarrow> cptr \<Rightarrow> int \<Rightarrow> int outcome wm" where
  "utimes w path tms = plain w ''utimes'' True path [tms] []"

definition utimensat :: "wctx \<Rightarrow> int \<Rightarrow> cptr \<Rightarrow> int \<Rightarrow> u32 \<Rightarrow> int outcome wm" where
  "utimensat w dirfd path tms flags = guarded w ''utimensat'' (\<not> no_follow flags) dirfd path [tms, uint flags]"

definition lutimes :: "wctx \<Rightarrow> cptr \<Rightarrow> int \<Rightarrow> int outcome wm" where
  "lutimes w path tv = plain w ''lutimes'' False path [tv] []"

definition statvfs :: "wctx \<Rightarrow> cptr \<Rightarrow> int \<Rightarrow> int outcome wm" where
  "statvfs w path buf = plain w ''statvfs'' True path [buf] []"

definition statvfs64 :: "wctx \<Rightarrow> cptr \<Rightarrow> int \<Rightarrow> int outcome wm" where
  "statvfs64 w path buf = plain w ''statvfs64'' True path [buf] []"

definition statfs :: "wctx \<Rightarrow> cptr \<Rightarrow> int \<Rightarrow> int outcome wm" where
  "statfs w path buf = plain w ''statfs'' True path [buf] []"

definition statfs64 :: "wctx \<Rightarrow> cptr \<Rightarrow> int \<Rightarrow> int outcome wm" where
  "statfs64 w path buf = plain w ''statfs64'' True path [buf] []"

definition setxattr :: "wctx \<Rightarrow> cptr \<Rightarrow> cptr \<Rightarrow> int \<Rightarrow> int \<Rightarrow> u32 \<Rightarrow> int outcome wm" where
  "setxattr w path nm val sz flags = plain w ''setxattr'' True path [val, sz, uint flags] [nm]"

definition lsetxattr :: "wctx \<Rightarrow> cptr \<Rightarrow> cptr \<Rightarrow> int \<Rightarrow> int \<Rightarrow> u32 \<Rightarrow> int outcome wm" where
  "lsetxattr w path nm val sz flags = plain w ''lsetxattr'' True path [val, sz, uint flags] [nm]"

definition getxattr :: "wctx \<Rightarrow> cptr \<Rightarrow> cptr \<Rightarrow> int \<Rightarrow> int \<Rightarrow> int outcome wm" where
  "getxattr w path nm val sz = plain w ''getxattr'' True path [val, sz] [nm]"

definition lgetxattr :: "wctx \<Rightarrow> cptr \<Rightarrow> cptr \<Rightarrow> int \<Rightarrow> int \<Rightarrow> int outcome wm" where
  "lgetxattr w path nm val sz = plain w ''lgetxattr'' True path [val, sz] [nm]"

definition listxattr :: "wctx \<Rightarrow> cptr \<Rightarrow> int \<Rightarrow> int \<Rightarrow> int outcome wm" where
  "listxattr w path lst sz = plain w ''listxattr'' True path [lst, sz] []"

definition llistxattr :: "wctx \<Rightarrow> cptr \<Rightarrow> int \<Rightarrow> int \<Rightarrow> int outcome wm" where
  "llistxattr w path lst sz = plain w ''llistxattr'' True path [lst, sz] []"

definition removexattr :: "wctx \<Rightarrow> cptr \<Rightarrow> cptr \<Rightarrow> int outcome wm" where
  "removexattr w path nm = plain w ''removexattr'' True path [] [nm]"

definition lremovexattr :: "wctx \<Rightarrow> cptr \<Rightarrow> cptr \<Rightarrow> int outcome wm" where
  "lremovexattr w path nm = plain w ''lremovexattr'' True path [] [nm]"

section \<open>Names and directories\<close>

definition mkdirat :: "wctx \<Rightarrow> int \<Rightarrow> cptr \<Rightarrow> u32 \<Rightarrow> int outcome wm" where
  "mkdirat w dirfd path mode = guarded w ''mkdirat'' False dirfd path [uint mode]"

definition unlinkat :: "wctx \<Rightarrow> int \<Rightarrow> cptr \<Rightarrow> u32 \<Rightarrow> int outcome wm" where
  "unlinkat w dirfd path flags = guarded w ''unlinkat'' False dirfd path [uint flags]"

definition chdir :: "wctx \<Rightarrow> cptr \<Rightarrow> int outcome wm" where
  "chdir w path = plain w ''chdir'' True path [] []"

definition unlink :: "wctx \<Rightarrow> cptr \<Rightarrow> int outcome wm" where
  "unlink w path = plain w ''unlink'' False path [] []"

definition rmdir :: "wctx \<Rightarrow> cptr \<Rightarrow> int outcome wm" where
  "rmdir w path = plain w ''rmdir'' True path [] []"

definition mkdir :: "wctx \<Rightarrow> cptr \<Rightarrow> u32 \<Rightarrow> int outcome wm" where
  "mkdir w path mode = plain w ''mkdir'' False path [uint mode] []"

definition rename :: "wctx \<Rightarrow> cptr \<Rightarrow> cptr \<Rightarrow> int outcome wm" where
  "rename w oldpath newpath = do {
     po \<leftarrow> xl w False oldpath;
     pn \<leftarrow> xl w False newpath;
     ask_int w (req ''rename'' [(AT_FDCWD, ptr po), (AT_FDCWD, ptr pn)] [] [])
   }"

definition renameat_body :: "wctx \<Rightarrow> cstr \<Rightarrow> int \<Rightarrow> cptr \<Rightarrow> int \<Rightarrow> cptr \<Rightarrow> int list \<Rightarrow> int outcome wm" where
  "renameat_body w f olddirfd oldpath newdirfd newpath ints =
     (if fd_relative olddirfd oldpath \<or> fd_relative newdirfd newpath
      then ask_int w (req f [(olddirfd, oldpath), (newdirfd, newpath)] ints [])
      else do {
        po \<leftarrow> xl w False oldpath;
        pn \<leftarrow> xl w False newpath;
        ask_int w (req f [(olddirfd, ptr po), (newdirfd, ptr pn)] ints [])
      })"

definition renameat :: "wctx \<Rightarrow> int \<Rightarrow> cptr \<Rightarrow> int \<Rightarrow> cptr \<Rightarrow> int outcome wm" where
  "renameat w olddirfd oldpath newdirfd newpath = renameat_body w ''renameat'' olddirfd oldpath newdirfd newpath []"

definition renameat2 :: "wctx \<Rightarrow> int \<Rightarrow> cptr \<Rightarrow> int \<Rightarrow> cptr \<Rightarrow> u32 \<Rightarrow> int outcome wm" where
  "renameat2 w olddirfd oldpath newdirfd newpath flags = renameat_body w ''renameat2'' olddirfd oldpath newdirfd newpath [uint flags]"

definition symlink :: "wctx \<Rightarrow> cptr \<Rightarrow> cptr \<Rightarrow> int outcome wm" where
  "symlink w target linkpath = plain w ''symlink'' False linkpath [] [target]"

definition symlinkat :: "wctx \<Rightarrow> cptr \<Rightarrow> int \<Rightarrow> cptr \<Rightarrow> int outcome wm" where
  "symlinkat w target newdirfd linkpath =
     (if fd_relative newdirfd linkpath then ask_int w (req ''symlinkat'' [(newdirfd, linkpath)] [] [target])
      else at_x w ''symlinkat'' False newdirfd linkpath [] [target])"

section \<open>Status of files\<close>

text \<open>What is done to a buffer that was filled: \<open>lnk\<close> tells whether the process's own image is shown as a link.\<close>

definition mend :: "wctx \<Rightarrow> bool \<Rightarrow> cptr \<Rightarrow> errno + stat_buf \<Rightarrow> stat_buf outcome wm" where
  "mend w lnk path r = State (\<lambda>s.
     (case r of
        Inl e \<Rightarrow> Fail e
      | Inr b \<Rightarrow> Done (hreg_bump (ws_hreg s) path (sp_spoof_uid_gid (c_lib w) (c_env w) (ws_ids s)
          (if lnk then sp_self_exe_linkify (c_env w) (c_pid w) path b else b))), s))"

definition ask_stat :: "wctx \<Rightarrow> req \<Rightarrow> (errno + stat_buf) wm" where
  "ask_stat w r = ask (k_stat (c_k w)) r"

definition stat_body :: "wctx \<Rightarrow> cstr \<Rightarrow> bool \<Rightarrow> cptr \<Rightarrow> stat_buf outcome wm" where
  "stat_body w f follow path = do {
     p \<leftarrow> xl w follow path;
     r \<leftarrow> ask_stat w (req f [(AT_FDCWD, ptr p)] [] []);
     mend w (\<not> follow) path r
   }"

definition stat :: "wctx \<Rightarrow> cptr \<Rightarrow> stat_buf outcome wm" where
  "stat w path = stat_body w ''stat'' True path"

definition lstatc :: "wctx \<Rightarrow> cptr \<Rightarrow> stat_buf outcome wm" where
  "lstatc w path = stat_body w ''lstat'' False path"

definition stat64 :: "wctx \<Rightarrow> cptr \<Rightarrow> stat_buf outcome wm" where
  "stat64 w path = stat_body w ''stat64'' True path"

definition lstat64 :: "wctx \<Rightarrow> cptr \<Rightarrow> stat_buf outcome wm" where
  "lstat64 w path = stat_body w ''lstat64'' False path"

definition fstatat64 :: "wctx \<Rightarrow> int \<Rightarrow> cptr \<Rightarrow> u32 \<Rightarrow> stat_buf outcome wm" where
  "fstatat64 w dirfd path flags = do {
     p \<leftarrow> xl w (\<not> no_follow flags) path;
     r \<leftarrow> ask_stat w (req ''fstatat64'' [(dirfd, ptr p)] [uint flags] []);
     mend w (no_follow flags) path r
   }"

definition fstatat_body :: "wctx \<Rightarrow> cstr \<Rightarrow> int \<Rightarrow> cptr \<Rightarrow> u32 \<Rightarrow> stat_buf outcome wm" where
  "fstatat_body w f dirfd path flags =
     (if path = None then ret (Fail EFAULT)
      else if fd_relative dirfd path then do {
        r \<leftarrow> ask_stat w (req f [(dirfd, path)] [uint flags] []);
        ret (result r)
      }
      else do {
        p \<leftarrow> xl w (\<not> no_follow flags) path;
        r \<leftarrow> ask_stat w (req f [(dirfd, ptr p)] [uint flags] []);
        mend w (no_follow flags) path r
      })"

definition fstatat :: "wctx \<Rightarrow> int \<Rightarrow> cptr \<Rightarrow> u32 \<Rightarrow> stat_buf outcome wm" where
  "fstatat w dirfd path flags = fstatat_body w ''fstatat'' dirfd path flags"

definition newfstatat :: "wctx \<Rightarrow> int \<Rightarrow> cptr \<Rightarrow> u32 \<Rightarrow> stat_buf outcome wm" where
  "newfstatat w dirfd path flags = fstatat_body w ''newfstatat'' dirfd path flags"

text \<open>
  \<^verbatim>\<open>statx\<close>, on the fields that both structures have; \<^verbatim>\<open>stx_mode\<close> has 16 bits. The emulation makes system call 262.
\<close>

definition sp_statx_emulate :: "wctx \<Rightarrow> int \<Rightarrow> cptr \<Rightarrow> u32 \<Rightarrow> (errno + stat_buf) wm" where
  "sp_statx_emulate w dirfd path flags = do {
     r \<leftarrow> ask_stat w (req ''syscall'' [(dirfd, path)]
            [262, uint (if flags AND AT_SYMLINK_FOLLOW \<noteq> 0 then 0 else AT_SYMLINK_NOFOLLOW)] []);
     ret (case r of Inl e \<Rightarrow> Inl e | Inr b \<Rightarrow> Inr (b\<lparr>stat_mode := take_bit 16 (stat_mode b)\<rparr>))
   }"

definition statx :: "wctx \<Rightarrow> int \<Rightarrow> cptr \<Rightarrow> u32 \<Rightarrow> u32 \<Rightarrow> stat_buf outcome wm" where
  "statx w dirfd path flags msk =
     (if path = None then ret (Fail EFAULT)
      else if fd_relative dirfd path then do {
        r \<leftarrow> ask_stat w (req ''statx'' [(dirfd, path)] [uint flags, uint msk] []);
        ret (result r)
      }
      else do {
        p \<leftarrow> xl w (flags AND AT_SYMLINK_FOLLOW \<noteq> 0) path;
        r \<leftarrow> ask_stat w (req ''statx'' [(dirfd, ptr p)] [uint flags, uint msk] []);
        if r = Inl ENOSYS then do { r2 \<leftarrow> sp_statx_emulate w dirfd (ptr p) flags; mend w False path r2 }
        else mend w False path r
      })"

section \<open>Descriptors\<close>

text \<open>The ring of the last 16 ashmem descriptors, zero at first.\<close>

definition sv_ashmem_track :: "int \<Rightarrow> wst \<Rightarrow> wst" where
  "sv_ashmem_track fd s = s\<lparr>ws_ash := (ws_ash s)[ws_ashpos s mod 16 := fd], ws_ashpos := ws_ashpos s + 1\<rparr>"

definition sv_ashmem_is_tracked :: "wst \<Rightarrow> int \<Rightarrow> bool" where
  "sv_ashmem_is_tracked s fd \<longleftrightarrow> fd \<in> set (take 16 (ws_ash s))"

definition lseek :: "wctx \<Rightarrow> int \<Rightarrow> int \<Rightarrow> int \<Rightarrow> int outcome wm" where
  "lseek w fd off whence = ask_int w (req ''lseek'' [] [fd, off, whence] [])"

definition sv_ashmem_fstat_fixup :: "wctx \<Rightarrow> int \<Rightarrow> stat_buf \<Rightarrow> stat_buf wm" where
  "sv_ashmem_fstat_fixup w fd b = do {
     s \<leftarrow> State_Monad.get;
     if getenv (c_env w) ''SPROUT_ASHMEM_MEMFD'' = None \<or> \<not> sv_ashmem_is_tracked s fd \<or> stat_size b \<noteq> 0 then ret b
     else do {
       cur \<leftarrow> lseek w fd 0 1;
       fin \<leftarrow> lseek w fd 0 2;
       _ \<leftarrow> (case cur of Done c \<Rightarrow> lseek w fd c 0 | _ \<Rightarrow> ret cur);
       ret (case fin of Done n \<Rightarrow> if 0 < n then b\<lparr>stat_size := n\<rparr> else b | _ \<Rightarrow> b)
     }
   }"

definition fd_link :: "int \<Rightarrow> cstr" where
  "fd_link fd = snprintf_s 48 (''/proc/self/fd/'' @ dec_int fd)"

text \<open>The hard link registry for a descriptor; \<^verbatim>\<open>SYS_readlinkat\<close> is 78.\<close>

definition sp_fstat_hreg_fixup :: "wctx \<Rightarrow> int \<Rightarrow> stat_buf \<Rightarrow> stat_buf outcome wm" where
  "sp_fstat_hreg_fixup w fd b =
     (if stat_nlink b \<noteq> 1 then ret (Done b)
      else do {
        r \<leftarrow> ask (k_str (c_k w)) (req ''syscall'' [(AT_FDCWD, Some (fd_link fd))] [78, int SP_PATH_MAX - 1] []);
        s \<leftarrow> State_Monad.get;
        ret (case r of
               Inl _ \<Rightarrow> Done b
             | Inr h \<Rightarrow>
                 if h = [] then Done b
                 else (case sp_reverse (x_cfg (c_x w)) (take (SP_PATH_MAX - 1) h) SP_PATH_MAX of
                         None \<Rightarrow> Crash
                       | Some g \<Rightarrow> Done (if g \<noteq> [] \<and> sp_hreg_hit (ws_hreg s) (Some g) then b\<lparr>stat_nlink := 2\<rparr> else b)))
      })"

definition fstat_body :: "wctx \<Rightarrow> cstr \<Rightarrow> int \<Rightarrow> stat_buf outcome wm" where
  "fstat_body w f fd = do {
     r \<leftarrow> ask_stat w (req f [] [fd] []);
     s \<leftarrow> State_Monad.get;
     case r of
       Inl e \<Rightarrow> ret (Fail e)
     | Inr b \<Rightarrow> do {
         b2 \<leftarrow> sv_ashmem_fstat_fixup w fd (sp_spoof_uid_gid (c_lib w) (c_env w) (ws_ids s) b);
         sp_fstat_hreg_fixup w fd b2
       }
   }"

definition fstat64 :: "wctx \<Rightarrow> int \<Rightarrow> stat_buf outcome wm" where
  "fstat64 w fd = fstat_body w ''fstat64'' fd"

definition fstat :: "wctx \<Rightarrow> int \<Rightarrow> stat_buf outcome wm" where
  "fstat w fd = fstat_body w ''fstat'' fd"

definition memfd_create :: "wctx \<Rightarrow> cptr \<Rightarrow> u32 \<Rightarrow> int outcome wm" where
  "memfd_create w nm flags = do {
     r \<leftarrow> ask (k_int (c_k w)) (req ''memfd_create'' [] [uint flags] [nm]);
     case r of
       Inr fd \<Rightarrow> ret (Done fd)
     | Inl saved \<Rightarrow>
         if getenv (c_env w) ''SPROUT_ASHMEM_MEMFD'' = None \<or> saved \<notin> {ENOSYS, ENODEV, EINVAL} then ret (Fail saved)
         else do {
           a \<leftarrow> ask (k_int (c_k w)) (req ''open'' [(AT_FDCWD, Some ''/dev/ashmem'')] [0x80002, 0x180] []);
           case a of
             Inl _ \<Rightarrow> ret (Fail saved)
           | Inr afd \<Rightarrow> do {
               _ \<leftarrow> ask_int w (req ''ioctl'' [] [afd, 0x41007701]
                      [Some (snprintf_s 256 (case nm of Some (c # cs) \<Rightarrow> c # cs | _ \<Rightarrow> ''memfd''))]);
               pg \<leftarrow> ask (k_int (c_k w)) (req ''sysconf'' [] [30] []);
               _ \<leftarrow> ask_int w (req ''ioctl'' [] [afd, 0x40087703, case pg of Inr n \<Rightarrow> n | Inl _ \<Rightarrow> - 1] []);
               State_Monad.update (sv_ashmem_track afd);
               ret (Done afd)
             }
         }
   }"

text \<open>The frozen entry points of old programs drop their version argument.\<close>

definition lxstat64 :: "wctx \<Rightarrow> int \<Rightarrow> cptr \<Rightarrow> stat_buf outcome wm" where
  "lxstat64 w ver path = lstat64 w path"

definition lxstat :: "wctx \<Rightarrow> int \<Rightarrow> cptr \<Rightarrow> stat_buf outcome wm" where
  "lxstat w ver path = lstatc w path"

definition xstat64 :: "wctx \<Rightarrow> int \<Rightarrow> cptr \<Rightarrow> stat_buf outcome wm" where
  "xstat64 w ver path = stat64 w path"

definition xstat :: "wctx \<Rightarrow> int \<Rightarrow> cptr \<Rightarrow> stat_buf outcome wm" where
  "xstat w ver path = stat w path"

definition fxstat64 :: "wctx \<Rightarrow> int \<Rightarrow> int \<Rightarrow> stat_buf outcome wm" where
  "fxstat64 w ver fd = fstat64 w fd"

definition fxstat :: "wctx \<Rightarrow> int \<Rightarrow> int \<Rightarrow> stat_buf outcome wm" where
  "fxstat w ver fd = fstat w fd"

definition fxstatat64 :: "wctx \<Rightarrow> int \<Rightarrow> int \<Rightarrow> cptr \<Rightarrow> u32 \<Rightarrow> stat_buf outcome wm" where
  "fxstatat64 w ver dirfd path flags = fstatat64 w dirfd path flags"

definition fxstatat :: "wctx \<Rightarrow> int \<Rightarrow> int \<Rightarrow> cptr \<Rightarrow> u32 \<Rightarrow> stat_buf outcome wm" where
  "fxstatat w ver dirfd path flags = fstatat w dirfd path flags"

section \<open>Answers that are paths\<close>

text \<open>
  \<^verbatim>\<open>sp_reverse\<close> with its source and destination in one buffer, as the two forms of readlink call it: in the branch of a bind
  the guest prefix is written over the host path before the rest of that path is copied. The copies that overlap are read as
  copies of the bytes there at the time.
\<close>

definition sp_reverse_same :: "sp_config \<Rightarrow> cstr \<Rightarrow> nat \<Rightarrow> cstr option" where
  "sp_reverse_same cfg host outsz =
     (case best_bind None (binds cfg) host of
        None \<Rightarrow> sp_reverse cfg host outsz
      | Some b \<Rightarrow>
          if length (rootfs cfg) > length (bind_host b) \<and> path_within (rootfs cfg) host then sp_reverse cfg host outsz
          else
            (let g = bind_guest b; hl = length (bind_host b);
                 total = min (length g + (length host - hl)) (outsz - 1) in
             if outsz = 0 \<or> total < length g then None
             else Some (g @ map (\<lambda>i. if i < length g then g ! i else host ! i) [hl ..< hl + (total - length g)])))"

definition link_answer :: "wctx \<Rightarrow> nat \<Rightarrow> errno + cstr \<Rightarrow> cstr outcome" where
  "link_answer w bufsiz r =
     (case r of
        Inl e \<Rightarrow> Fail e
      | Inr h \<Rightarrow>
          (let target = take (SP_PATH_MAX - 1) h in
           if target = [] then Done []
           else case sp_reverse_same (x_cfg (c_x w)) target SP_PATH_MAX of
                  None \<Rightarrow> Crash
                | Some g \<Rightarrow> Done (take bufsiz g)))"

definition ask_str :: "wctx \<Rightarrow> req \<Rightarrow> (errno + cstr) wm" where
  "ask_str w r = ask (k_str (c_k w)) r"

definition readlink :: "wctx \<Rightarrow> cptr \<Rightarrow> nat \<Rightarrow> cstr outcome wm" where
  "readlink w path bufsiz =
     (if bufsiz = 0 then do { r \<leftarrow> ask_str w (req ''readlink'' [(AT_FDCWD, path)] [0] []); ret (result r) }
      else case nonempty_or (sp_self_exe_answer (c_env w) (c_pid w) path bufsiz) None of
        Some e \<Rightarrow> ret (Done e)
      | None \<Rightarrow> do {
          p \<leftarrow> xl w False path;
          r \<leftarrow> ask_str w (req ''readlink'' [(AT_FDCWD, ptr p)] [int SP_PATH_MAX - 1] []);
          ret (link_answer w bufsiz r)
        })"

definition readlinkat :: "wctx \<Rightarrow> int \<Rightarrow> cptr \<Rightarrow> nat \<Rightarrow> cstr outcome wm" where
  "readlinkat w dirfd path bufsiz =
     (case nonempty_or (sp_self_exe_answer (c_env w) (c_pid w) path bufsiz) None of
        Some e \<Rightarrow> ret (Done e)
      | None \<Rightarrow>
          if path = None then ret (Fail EFAULT)
          else if fd_relative dirfd path \<or> bufsiz = 0
          then do { r \<leftarrow> ask_str w (req ''readlinkat'' [(dirfd, path)] [int bufsiz] []); ret (result r) }
          else do {
            p \<leftarrow> xl w False path;
            r \<leftarrow> ask_str w (req ''readlinkat'' [(dirfd, ptr p)] [int SP_PATH_MAX - 1] []);
            ret (link_answer w bufsiz r)
          })"

definition readlink_chk :: "wctx \<Rightarrow> cptr \<Rightarrow> nat \<Rightarrow> nat \<Rightarrow> cstr outcome wm" where
  "readlink_chk w path len max_len =
     (case nonempty_or (sp_self_exe_answer (c_env w) (c_pid w) path len) None of
        Some e \<Rightarrow> ret (Done e)
      | None \<Rightarrow> do {
          r \<leftarrow> ask_str w (req ''__readlink_chk'' [(AT_FDCWD, path)] [int len, int max_len] []);
          ret (result r)
        })"

text \<open>\<open>resolved\<close> tells whether the caller gave a buffer; the fortified form also its size.\<close>

definition realpath :: "wctx \<Rightarrow> cptr \<Rightarrow> bool \<Rightarrow> cstr outcome wm" where
  "realpath w path resolved = do {
     p \<leftarrow> xl w True path;
     r \<leftarrow> ask_str w (req ''realpath'' [(AT_FDCWD, ptr p)] [] []);
     ret (case r of
            Inl e \<Rightarrow> Fail e
          | Inr h \<Rightarrow>
              (case sp_reverse (x_cfg (c_x w)) h SP_PATH_MAX of
                 None \<Rightarrow> Crash
               | Some g \<Rightarrow> if \<not> resolved \<and> \<not> c_alloc w (length g + 1) then Fail ENOMEM else Done g))
   }"

definition realpath_chk :: "wctx \<Rightarrow> cptr \<Rightarrow> nat option \<Rightarrow> cstr outcome wm" where
  "realpath_chk w path resolved =
     (if path = None then ret (Fail EFAULT)
      else do {
        p \<leftarrow> xl w True path;
        r \<leftarrow> ask_str w (req ''__realpath_chk'' [(AT_FDCWD, ptr p)] [int SP_PATH_MAX + 7] []);
        ret (case r of
               Inl e \<Rightarrow> Fail e
             | Inr h \<Rightarrow>
                 (case sp_reverse (x_cfg (c_x w)) h (SP_PATH_MAX + 7) of
                    None \<Rightarrow> Crash
                  | Some g \<Rightarrow>
                      if (case resolved of Some n \<Rightarrow> n < length g + 1 | None \<Rightarrow> \<not> c_alloc w (length g + 1)) then Fail ENOMEM
                      else Done g))
      })"

text \<open>\<open>buf\<close> tells whether the caller gave a buffer, of \<open>sz\<close> bytes.\<close>

definition getcwd :: "wctx \<Rightarrow> bool \<Rightarrow> nat \<Rightarrow> cstr outcome wm" where
  "getcwd w buf sz = do {
     r \<leftarrow> ask_str w (req ''getcwd'' [] [int SP_PATH_MAX] []);
     ret (case r of
            Inl e \<Rightarrow> Fail e
          | Inr h \<Rightarrow>
              (case sp_reverse (x_cfg (c_x w)) h SP_PATH_MAX of
                 None \<Rightarrow> Crash
               | Some g \<Rightarrow>
                   if buf then (if sz < length g + 1 then Fail ERANGE else Done g)
                   else if c_alloc w (max sz (length g + 1)) then Done g else Fail ENOMEM))
   }"

section \<open>System calls by number\<close>

text \<open>
  The numbers are those of aarch64. \<open>p1\<close> and \<open>p2\<close> are the strings at the first and second argument, \<open>how\<close> the structure at
  the third. The answer is a number, a filled status buffer, or what was stored for a robust list.
\<close>

datatype sysans = Num int | Status stat_buf | Robust "u64 list option" "nat option"

fun map_outcome :: "('a \<Rightarrow> 'b) \<Rightarrow> 'a outcome \<Rightarrow> 'b outcome" where
  "map_outcome f Crash = Crash"
| "map_outcome f (Fail e) = Fail e"
| "map_outcome f (Done v) = Done (f v)"

definition fmap :: "('a \<Rightarrow> 'b) \<Rightarrow> 'a outcome wm \<Rightarrow> 'b outcome wm" where
  "fmap f m = do { r \<leftarrow> m; ret (map_outcome f r) }"

definition user_ptr :: "u64 \<Rightarrow> bool" where
  "user_ptr a \<longleftrightarrow> a \<noteq> 0 \<and> a < 0x800000000000"

definition raw_syscall :: "wctx \<Rightarrow> int \<Rightarrow> u64 list \<Rightarrow> cptr \<Rightarrow> cptr \<Rightarrow> sysans outcome wm" where
  "raw_syscall w nr a p1 p2 = fmap Num (ask_int w (req ''syscall'' [] (nr # map sint a) [p1, p2]))"

definition syscall :: "wctx \<Rightarrow> int \<Rightarrow> u64 list \<Rightarrow> cptr \<Rightarrow> cptr \<Rightarrow> (u64 \<times> u64 \<times> u64) option \<Rightarrow> sysans outcome wm" where
  "syscall w nr a p1 p2 how =
     (let fd = sint (ucast (a ! 0) :: u32);
          q2 = (case sp_self_exe_guest_path (c_env w) (c_pid w) p2 of None \<Rightarrow> p2 | Some g \<Rightarrow> Some g) in
      if nr = 99 then ret (Done (Num 0))
      else if nr = 100 then
        ret (Done (Robust (if user_ptr (a ! 1) then Some [- 1, - 32, 0, 0] else None) (if user_ptr (a ! 2) then Some 24 else None)))
      else if nr \<in> {40, 39, 41, 224, 225, 89} then ret (Fail EPERM)
      else if nr = 437 then
        (if a ! 3 \<noteq> 24 then ret (Fail EINVAL)
         else case how of
           None \<Rightarrow> ret (Fail EFAULT)
         | Some (hf, hm, _) \<Rightarrow> fmap Num (openat w fd p2 (ucast hf) (ucast hm)))
      else if nr = 291 then fmap Status (statx w fd q2 (ucast (a ! 2)) (ucast (a ! 3)))
      else if nr = 79 then
        (if q2 = None \<or> fd_relative (sint (a ! 0)) q2 then raw_syscall w nr a p1 p2
         else do {
           p \<leftarrow> xl w False q2;
           fmap Num (ask_int w (req ''syscall'' [(sint (a ! 0), ptr p)] [79, sint (a ! 2), sint (a ! 3)] []))
         })
      else if nr \<in> {49, 51, 45, 43} then
        (case p1 of
           None \<Rightarrow> raw_syscall w nr a p1 p2
         | Some q \<Rightarrow>
             if char_at q 0 \<noteq> slash then raw_syscall w nr a p1 p2
             else do {
               p \<leftarrow> xl w True p1;
               fmap Num (ask_int w (req ''syscall'' [(AT_FDCWD, ptr p)] (nr # map sint (drop 1 a)) []))
             })
      else raw_syscall w nr a p1 p2)"

section \<open>Notions for the properties\<close>

text \<open>
  The arguments of a call, each wrapper taking those it has; and the table of the modelled wrappers that take a path or a
  descriptor, by the symbol they export. \<^verbatim>\<open>syscall\<close>, whose arguments have no types, and \<^verbatim>\<open>memfd_create\<close>, which takes no path,
  are not in it.
\<close>

record gargs =
  a_dirfd :: int
  a_path :: cptr
  a_dirfd2 :: int
  a_path2 :: cptr
  a_flags :: u32
  a_mode :: u32
  a_uid :: u32
  a_gid :: u32
  a_num1 :: int
  a_num2 :: int
  a_str :: cptr
  a_stream :: u64
  a_size :: nat
  a_num :: nat
  a_dst :: bool
  a_dstlen :: "nat option"

definition void :: "'a wm \<Rightarrow> unit wm" where
  "void m = do { _ \<leftarrow> m; ret () }"

definition wrappers :: "wctx \<Rightarrow> gargs \<Rightarrow> (cstr \<times> unit wm) list" where
  "wrappers w a =
     [(''open'', void (openc w (a_path a) (a_flags a) (a_mode a))), (''open64'', void (open64 w (a_path a) (a_flags a) (a_mode a))),
      (''openat'', void (openat w (a_dirfd a) (a_path a) (a_flags a) (a_mode a))),
      (''openat64'', void (openat64 w (a_dirfd a) (a_path a) (a_flags a) (a_mode a))),
      (''__open64_nocancel'', void (open64_nocancel w (a_path a) (a_flags a) (a_mode a))),
      (''__openat64_nocancel'', void (openat64_nocancel w (a_dirfd a) (a_path a) (a_flags a) (a_mode a))),
      (''__open64'', void (uu_open64 w (a_path a) (a_flags a) (a_mode a))),
      (''__openat64'', void (uu_openat64 w (a_dirfd a) (a_path a) (a_flags a) (a_mode a))),
      (''fopen'', void (fopen w (a_path a) (a_str a))), (''fopen64'', void (fopen64 w (a_path a) (a_str a))),
      (''freopen'', void (freopen w (a_path a) (a_str a) (a_stream a))),
      (''freopen64'', void (freopen64 w (a_path a) (a_str a) (a_stream a))), (''opendir'', void (opendir w (a_path a))),
      (''access'', void (access w (a_path a) (a_mode a))), (''eaccess'', void (eaccess w (a_path a) (a_mode a))),
      (''faccessat'', void (faccessat w (a_dirfd a) (a_path a) (a_mode a) (a_flags a))),
      (''faccessat2'', void (faccessat2 w (a_dirfd a) (a_path a) (a_mode a) (a_flags a))),
      (''mkstemp'', void (mkstemp w (a_path a))), (''mkostemp'', void (mkostemp w (a_path a) (a_flags a))),
      (''mkstemp64'', void (mkstemp64 w (a_path a))), (''mkostemp64'', void (mkostemp64 w (a_path a) (a_flags a))),
      (''mkdtemp64'', void (mkdtemp64 w (a_path a))), (''mkdtemp'', void (mkdtemp w (a_path a))),
      (''chmod'', void (chmod w (a_path a) (a_mode a))),
      (''fchmodat'', void (fchmodat w (a_dirfd a) (a_path a) (a_mode a) (a_flags a))),
      (''lchmod'', void (lchmod w (a_path a) (a_mode a))),
      (''inotify_add_watch'', void (inotify_add_watch w (a_dirfd a) (a_path a) (a_flags a))),
      (''chown'', void (chown w (a_path a) (a_uid a) (a_gid a))), (''lchown'', void (lchown w (a_path a) (a_uid a) (a_gid a))),
      (''fchownat'', void (fchownat w (a_dirfd a) (a_path a) (a_uid a) (a_gid a) (a_flags a))),
      (''fchown'', void (fchown w (a_dirfd a) (a_uid a) (a_gid a))), (''truncate'', void (truncatec w (a_path a) (a_num1 a))),
      (''utimes'', void (utimes w (a_path a) (a_num1 a))),
      (''utimensat'', void (utimensat w (a_dirfd a) (a_path a) (a_num1 a) (a_flags a))),
      (''lutimes'', void (lutimes w (a_path a) (a_num1 a))), (''statvfs'', void (statvfs w (a_path a) (a_num1 a))),
      (''statvfs64'', void (statvfs64 w (a_path a) (a_num1 a))), (''statfs'', void (statfs w (a_path a) (a_num1 a))),
      (''statfs64'', void (statfs64 w (a_path a) (a_num1 a))),
      (''setxattr'', void (setxattr w (a_path a) (a_str a) (a_num1 a) (a_num2 a) (a_flags a))),
      (''lsetxattr'', void (lsetxattr w (a_path a) (a_str a) (a_num1 a) (a_num2 a) (a_flags a))),
      (''getxattr'', void (getxattr w (a_path a) (a_str a) (a_num1 a) (a_num2 a))),
      (''lgetxattr'', void (lgetxattr w (a_path a) (a_str a) (a_num1 a) (a_num2 a))),
      (''listxattr'', void (listxattr w (a_path a) (a_num1 a) (a_num2 a))),
      (''llistxattr'', void (llistxattr w (a_path a) (a_num1 a) (a_num2 a))),
      (''removexattr'', void (removexattr w (a_path a) (a_str a))), (''lremovexattr'', void (lremovexattr w (a_path a) (a_str a))),
      (''mkdirat'', void (mkdirat w (a_dirfd a) (a_path a) (a_mode a))),
      (''unlinkat'', void (unlinkat w (a_dirfd a) (a_path a) (a_flags a))), (''chdir'', void (chdir w (a_path a))),
      (''unlink'', void (unlink w (a_path a))), (''rmdir'', void (rmdir w (a_path a))),
      (''mkdir'', void (mkdir w (a_path a) (a_mode a))), (''rename'', void (rename w (a_path a) (a_path2 a))),
      (''renameat'', void (renameat w (a_dirfd a) (a_path a) (a_dirfd2 a) (a_path2 a))),
      (''renameat2'', void (renameat2 w (a_dirfd a) (a_path a) (a_dirfd2 a) (a_path2 a) (a_flags a))),
      (''symlink'', void (symlink w (a_str a) (a_path a))), (''symlinkat'', void (symlinkat w (a_str a) (a_dirfd a) (a_path a))),
      (''stat'', void (stat w (a_path a))), (''lstat'', void (lstatc w (a_path a))), (''stat64'', void (stat64 w (a_path a))),
      (''lstat64'', void (lstat64 w (a_path a))), (''fstatat64'', void (fstatat64 w (a_dirfd a) (a_path a) (a_flags a))),
      (''fstatat'', void (fstatat w (a_dirfd a) (a_path a) (a_flags a))),
      (''newfstatat'', void (newfstatat w (a_dirfd a) (a_path a) (a_flags a))),
      (''statx'', void (statx w (a_dirfd a) (a_path a) (a_flags a) (a_mode a))), (''fstat64'', void (fstat64 w (a_dirfd a))),
      (''fstat'', void (fstat w (a_dirfd a))), (''__lxstat64'', void (lxstat64 w (a_num1 a) (a_path a))),
      (''__lxstat'', void (lxstat w (a_num1 a) (a_path a))), (''__xstat64'', void (xstat64 w (a_num1 a) (a_path a))),
      (''__xstat'', void (xstat w (a_num1 a) (a_path a))), (''__fxstat64'', void (fxstat64 w (a_num1 a) (a_dirfd a))),
      (''__fxstat'', void (fxstat w (a_num1 a) (a_dirfd a))),
      (''__fxstatat64'', void (fxstatat64 w (a_num1 a) (a_dirfd a) (a_path a) (a_flags a))),
      (''__fxstatat'', void (fxstatat w (a_num1 a) (a_dirfd a) (a_path a) (a_flags a))),
      (''readlink'', void (readlink w (a_path a) (a_size a))),
      (''readlinkat'', void (readlinkat w (a_dirfd a) (a_path a) (a_size a))),
      (''__readlink_chk'', void (readlink_chk w (a_path a) (a_size a) (a_num a))),
      (''realpath'', void (realpath w (a_path a) (a_dst a))), (''__realpath_chk'', void (realpath_chk w (a_path a) (a_dstlen a))),
      (''getcwd'', void (getcwd w (a_dst a) (a_size a)))]"

text \<open>The translation of a path, as it is without the cache.\<close>

definition tr :: "wctx \<Rightarrow> bool \<Rightarrow> cptr \<Rightarrow> cptr" where
  "tr w follow q = ptr (fst (sp_translate_xf (c_x w) x_empty q follow))"

text \<open>
  The paths that a call may hand on: translations of its own paths (or of the image that a name of the process's own image
  stands for), its own paths relative to an open directory, and the link of its own descriptor.
\<close>

definition own :: "wctx \<Rightarrow> gargs \<Rightarrow> cptr list" where
  "own w a = [a_path a, a_path2 a, self_exe w (a_path a)]"

definition path_ok :: "wctx \<Rightarrow> gargs \<Rightarrow> int \<times> cptr \<Rightarrow> bool" where
  "path_ok w a dp =
     (case dp of (d, p) \<Rightarrow>
        list_ex (\<lambda>q. p = tr w True q \<or> p = tr w False q) (own w a)
        \<or> fd_relative d p \<and> (dp = (a_dirfd a, a_path a) \<or> dp = (a_dirfd2 a, a_path2 a))
        \<or> p = Some (fd_link (a_dirfd a)))"

definition confined :: "wctx \<Rightarrow> gargs \<Rightarrow> req \<Rightarrow> bool" where
  "confined w a r \<longleftrightarrow> list_all (path_ok w a) (rq_paths r)"

text \<open>
  The calls that the code passes on as the guest spelled them: the fortified \<^verbatim>\<open>readlink\<close>; a link read into a buffer without room;
  and a rename of which exactly one path is relative to a descriptor.
\<close>

definition unrouted :: "cstr \<Rightarrow> gargs \<Rightarrow> bool" where
  "unrouted nm a \<longleftrightarrow> nm = ''__readlink_chk'' \<or> nm \<in> {''readlink'', ''readlinkat''} \<and> a_size a = 0
     \<or> nm \<in> {''renameat'', ''renameat2''} \<and> fd_relative (a_dirfd a) (a_path a) \<noteq> fd_relative (a_dirfd2 a) (a_path2 a)"

definition spelled :: "gargs \<Rightarrow> req \<Rightarrow> bool" where
  "spelled a r \<longleftrightarrow>
     list_all (\<lambda>dp. dp \<in> {(AT_FDCWD, a_path a), (a_dirfd a, a_path a), (a_dirfd2 a, a_path2 a)}) (rq_paths r)"

text \<open>The paths of the call fit the buffers of the interposer.\<close>

definition short :: "cptr \<Rightarrow> bool" where
  "short p = (case p of None \<Rightarrow> True | Some q \<Rightarrow> length q < SP_PATH_MAX)"

definition args_ok :: "gargs \<Rightarrow> bool" where
  "args_ok a \<longleftrightarrow> short (a_path a) \<and> short (a_path2 a)"

text \<open>The invariant of a call that began with the calls \<open>L\<close>.\<close>

definition call_inv :: "wctx \<Rightarrow> gargs \<Rightarrow> req list \<Rightarrow> wst \<Rightarrow> bool" where
  "call_inv w a L s \<longleftrightarrow>
     in_buffers (c_x w) \<and> short (a_path a) \<and> short (a_path2 a) \<and> xc.sound (x_value (c_x w)) (ws_xc s)
     \<and> (\<exists>later. ws_log s = L @ later \<and> list_all (confined w a) later)"

text \<open>And of one that passes its paths on unrouted.\<close>

definition spelled_inv :: "wctx \<Rightarrow> gargs \<Rightarrow> req list \<Rightarrow> wst \<Rightarrow> bool" where
  "spelled_inv w a L s \<longleftrightarrow>
     xc.sound (x_value (c_x w)) (ws_xc s) \<and> (\<exists>later. ws_log s = L @ later \<and> list_all (spelled a) later)"

section \<open>Programs that keep an invariant\<close>

locale state_invariant =
  fixes inv :: "'s \<Rightarrow> bool"
begin

definition keeps :: "('s, 'a) state \<Rightarrow> bool" where
  "keeps m \<longleftrightarrow> (\<forall>s. inv s \<longrightarrow> inv (snd (run_state m s)))"

lemma keeps_return: "keeps (State_Monad.return v)"
  by (simp add: keeps_def State_Monad.return_def)

lemma keeps_get: "keeps State_Monad.get"
  by (simp add: keeps_def State_Monad.get_def)

lemma keeps_State: "(\<And>s. inv s \<Longrightarrow> inv (snd (g s))) \<Longrightarrow> keeps (State g)"
  by (simp add: keeps_def)

lemma run_bind: "run_state (State_Monad.bind m f) s = (case run_state m s of (v, t) \<Rightarrow> run_state (f v) t)"
  by (simp add: State_Monad.bind_def split: prod.split)

text \<open>The result of the first program, with what is known about it, is available to the second.\<close>

lemma keeps_bind_post:
  assumes "\<And>s. inv s \<Longrightarrow> inv (snd (run_state m s)) \<and> P (fst (run_state m s))" "\<And>v. P v \<Longrightarrow> keeps (f v)"
  shows "keeps (State_Monad.bind m f)"
  using assms by (fastforce simp: keeps_def run_bind split: prod.split)

lemma keeps_bind: "keeps m \<Longrightarrow> (\<And>v. keeps (f v)) \<Longrightarrow> keeps (State_Monad.bind m f)"
  by (rule keeps_bind_post [where P = "\<lambda>_. True"]) (auto simp: keeps_def)

lemma keeps_if: "(b \<Longrightarrow> keeps m) \<Longrightarrow> (\<not> b \<Longrightarrow> keeps n) \<Longrightarrow> keeps (if b then m else n)"
  by simp

lemma keeps_option:
  "keeps m \<Longrightarrow> (\<And>v. keeps (f v)) \<Longrightarrow> keeps (case x of None \<Rightarrow> m | Some v \<Rightarrow> f v)"
  by (simp split: option.split)

lemma keeps_sum:
  "(\<And>e. keeps (g e)) \<Longrightarrow> (\<And>v. keeps (f v)) \<Longrightarrow> keeps (case x of Inl e \<Rightarrow> g e | Inr v \<Rightarrow> f v)"
  by (simp split: sum.split)

lemma keeps_prod: "(\<And>u v. keeps (f u v)) \<Longrightarrow> keeps (case x of (u, v) \<Rightarrow> f u v)"
  by (simp split: prod.split)

lemma keeps_outcome:
  "keeps m \<Longrightarrow> (\<And>e. keeps (g e)) \<Longrightarrow> (\<And>v. keeps (f v)) \<Longrightarrow> keeps (case x of Crash \<Rightarrow> m | Fail e \<Rightarrow> g e | Done v \<Rightarrow> f v)"
  by (simp split: outcome.split)

lemmas keeps_rules = keeps_return keeps_get keeps_if keeps_option keeps_sum keeps_prod keeps_outcome

end

interpretation rt: state_invariant "call_inv w a L" for w a L .

interpretation un: state_invariant "spelled_inv w a L" for w a L .

section \<open>Lemmas\<close>

text \<open>A translation that follows links fits a path buffer.\<close>

interpretation l2s: hop_invariant "l2s_step x" "\<lambda>b. length b < SP_PATH_MAX" "\<lambda>b. length b < SP_PATH_MAX" for x
proof unfold_locales
  have pos: "0 < SP_PATH_MAX" by (simp add: sp_const)
  show "length b' < SP_PATH_MAX" if "length b < SP_PATH_MAX" "l2s_step x b = Continue b'" for b b'
    using that(2) length_snprintf_s [OF pos]
    by (auto simp: l2s_step_def Let_def not_le split: node.splits if_splits option.splits)
  show "length r < SP_PATH_MAX" if "length b < SP_PATH_MAX" "l2s_step x b = Return r" for b r
    using that(1) l2s_step_Return [OF that(2)] by simp
qed

lemma l2s_loop_fits:
  assumes "length b < SP_PATH_MAX"
  shows "length (l2s_loop x b) < SP_PATH_MAX"
proof (cases "hop_loop (l2s_step x) 8 b")
  case (Return r)
  have "length r < SP_PATH_MAX" by (rule l2s.loop_return [OF assms Return])
  then show ?thesis by (simp only: l2s_loop_def Return hop.case)
next
  case (Continue c)
  have "length c < SP_PATH_MAX" by (rule l2s.loop_continue [OF assms Continue])
  then show ?thesis by (simp only: l2s_loop_def Continue hop.case)
qed

lemma tr_fits:
  assumes "in_buffers (c_x w)" "short q"
  shows "short (tr w True q)"
proof (cases q)
  case None
  then show ?thesis by (simp add: tr_def sp_translate_xf_def short_def)
next
  case (Some p0)
  obtain p joined shadowed where r: "xf_resolve (c_x w) p0 = (p, joined, shadowed)" by (cases "xf_resolve (c_x w) p0")
  have len: "length p < SP_PATH_MAX" using xf_resolve_fits [OF assms(1) _ r] assms(2) Some by (simp add: short_def)
  have e: "sp_xcache_get x_empty p = None" unfolding x_empty_def by (rule xc.get_empty)
  have "length b < SP_PATH_MAX" if "x_translate (c_x w) p True = Some b" for b
    using assms(1) that by (auto simp: in_buffers_def)
  then show ?thesis
    using len by (auto simp: tr_def Some sp_translate_xf_def r e xf_miss_def short_def Let_def l2s_loop_fits split: option.split)
qed

lemma ptr_content: "ptr r = (case content r of Inl e \<Rightarrow> None | Inr p \<Rightarrow> Some p)"
  by (cases r) simp_all

lemma own_short: "call_inv w a L s \<Longrightarrow> q \<in> set (own w a) \<Longrightarrow> short q"
  by (auto simp: call_inv_def own_def self_exe_def short_def sp_const split: option.splits)

text \<open>A translation by the cache is the translation without it.\<close>

lemma run_xl:
  assumes "call_inv w a L s" "q \<in> set (own w a)"
  shows "call_inv w a L (snd (run_state (xl w follow q) s)) \<and> ptr (fst (run_state (xl w follow q) s)) = tr w follow q
    \<and> short (tr w True q)"
proof -
  have b: "in_buffers (c_x w)" and c: "xc.sound (x_value (c_x w)) (ws_xc s)" using assms(1) by (simp_all add: call_inv_def)
  have l: "short q" by (rule own_short [OF assms])
  have "xc.sound (x_value (c_x w)) (snd (sp_translate_xf (c_x w) (ws_xc s) q follow))
      \<and> ptr (fst (sp_translate_xf (c_x w) (ws_xc s) q follow)) = tr w follow q"
    using xf_transparent [OF c b, of _ follow] c l
    by (cases q) (simp_all add: sp_translate_xf_def [of _ _ None] tr_def short_def ptr_content)
  then show ?thesis
    using assms(1) tr_fits [OF b l]
    by (cases "sp_translate_xf (c_x w) (ws_xc s) q follow") (simp add: xl_def call_inv_def)
qed

lemma keeps_xl:
  assumes "q \<in> set (own w a)"
    and "\<And>r. ptr r = tr w follow q \<Longrightarrow> short (tr w True q) \<Longrightarrow> rt.keeps w a L (f r)"
  shows "rt.keeps w a L (State_Monad.bind (xl w follow q) f)"
proof (rule rt.keeps_bind_post [where P = "\<lambda>r. ptr r = tr w follow q \<and> short (tr w True q)"])
  show "call_inv w a L (snd (run_state (xl w follow q) s))
      \<and> ptr (fst (run_state (xl w follow q) s)) = tr w follow q \<and> short (tr w True q)" if "call_inv w a L s" for s
    by (rule run_xl [OF that assms(1)])
  show "rt.keeps w a L (f r)" if "ptr r = tr w follow q \<and> short (tr w True q)" for r
    using that by (intro assms(2)) simp_all
qed

lemma keeps_ask: "confined w a r \<Longrightarrow> rt.keeps w a L (ask k r)"
  unfolding ask_def by (rule rt.keeps_State) (auto simp: call_inv_def)

lemma confined_req: "confined w a (req f ps ints ss) \<longleftrightarrow> list_all (path_ok w a) ps"
  by (simp add: confined_def req_def)

lemma path_ok_tr: "q \<in> set (own w a) \<Longrightarrow> path_ok w a (d, tr w follow q)"
  by (cases follow) (auto simp: path_ok_def list_ex_iff)

lemma path_ok_relative:
  "fd_relative (a_dirfd a) (a_path a) \<Longrightarrow> path_ok w a (a_dirfd a, a_path a)"
  "fd_relative (a_dirfd2 a) (a_path2 a) \<Longrightarrow> path_ok w a (a_dirfd2 a, a_path2 a)"
  by (simp_all add: path_ok_def)

lemma path_ok_link: "path_ok w a (d, Some (fd_link (a_dirfd a)))"
  by (simp add: path_ok_def)

lemma own_paths: "a_path a \<in> set (own w a)" "a_path2 a \<in> set (own w a)" "self_exe w (a_path a) \<in> set (own w a)"
  by (simp_all add: own_def)

lemmas route = confined_req path_ok_tr path_ok_relative path_ok_link own_paths

lemma keeps_ask_int: "confined w a r \<Longrightarrow> rt.keeps w a L (ask_int w r)"
  unfolding ask_int_def by (intro rt.keeps_bind keeps_ask rt.keeps_return)

lemma keeps_fake_open: "rt.keeps w a L (fake_open w q)"
  unfolding fake_open_def by (rule rt.keeps_State) (simp add: call_inv_def split: prod.split)

lemma keeps_mend: "rt.keeps w a L (mend w lnk q r)"
  unfolding mend_def by (rule rt.keeps_State) simp

lemma keeps_at_x: "q \<in> set (own w a) \<Longrightarrow> rt.keeps w a L (at_x w f follow d q ints ss)"
  unfolding at_x_def by (rule keeps_xl, assumption, rule keeps_ask_int) (simp add: route)

lemma keeps_plain: "q \<in> set (own w a) \<Longrightarrow> rt.keeps w a L (plain w f follow q ints ss)"
  unfolding plain_def by (rule keeps_at_x)

lemma keeps_guarded: "rt.keeps w a L (guarded w f follow (a_dirfd a) (a_path a) ints)"
  unfolding guarded_def by (intro rt.keeps_rules keeps_ask_int keeps_at_x) (simp_all add: route)

lemma keeps_open_body: "rt.keeps w a L (open_body w f (a_path a) flags mode)"
  unfolding open_body_def Let_def by (intro rt.keeps_rules rt.keeps_bind keeps_fake_open keeps_plain) (simp_all add: route)

lemma keeps_openat_body: "rt.keeps w a L (openat_body w f (a_dirfd a) (a_path a) flags mode)"
  unfolding openat_body_def Let_def
  by (intro rt.keeps_rules rt.keeps_bind keeps_fake_open keeps_at_x keeps_ask_int) (simp_all add: route)

lemma keeps_open64_nocancel: "rt.keeps w a L (open64_nocancel w (a_path a) flags mode)"
  unfolding open64_nocancel_def by (intro rt.keeps_rules rt.keeps_bind keeps_fake_open keeps_plain) (simp_all add: route)

lemma keeps_openat64_nocancel: "rt.keeps w a L (openat64_nocancel w d (a_path a) flags mode)"
  unfolding openat64_nocancel_def Let_def
  by (intro rt.keeps_rules rt.keeps_bind keeps_fake_open keeps_at_x) (simp_all add: route)

lemma keeps_access_body: "rt.keeps w a L (access_body w d (a_path a) mode flags use_eid)"
  unfolding access_body_def emulate_access_def
  by (rule keeps_xl, simp add: route, intro rt.keeps_bind rt.keeps_return keeps_ask) (simp add: route)

lemma keeps_fakeproc_first: "rt.keeps w a L m \<Longrightarrow> rt.keeps w a L (fakeproc_first q mode m)"
  unfolding fakeproc_first_def Let_def by (intro rt.keeps_rules)

lemma keeps_faccessat: "rt.keeps w a L (faccessat w d (a_path a) mode flags)"
  unfolding faccessat_def Let_def by (intro rt.keeps_rules keeps_fakeproc_first keeps_access_body)

lemma keeps_chown_body: "rt.keeps w a L (chown_body w f follow (a_path a) uid gid)"
  unfolding chown_body_def by (rule keeps_xl, simp add: route, intro rt.keeps_rules keeps_ask_int) (simp add: route)

lemma keeps_rename: "rt.keeps w a L (rename w (a_path a) (a_path2 a))"
  unfolding rename_def
  by (rule keeps_xl, simp add: route, rule keeps_xl, simp add: route, rule keeps_ask_int) (simp add: route)

lemma keeps_renameat_body:
  assumes "fd_relative (a_dirfd a) (a_path a) \<longleftrightarrow> fd_relative (a_dirfd2 a) (a_path2 a)"
  shows "rt.keeps w a L (renameat_body w f (a_dirfd a) (a_path a) (a_dirfd2 a) (a_path2 a) ints)"
  unfolding renameat_body_def
proof (rule rt.keeps_if)
  show "rt.keeps w a L (ask_int w (req f [(a_dirfd a, a_path a), (a_dirfd2 a, a_path2 a)] ints []))"
    if "fd_relative (a_dirfd a) (a_path a) \<or> fd_relative (a_dirfd2 a) (a_path2 a)"
    using that assms by (intro keeps_ask_int) (auto simp: route)
qed (rule keeps_xl, simp add: route, rule keeps_xl, simp add: route, rule keeps_ask_int, simp add: route)

lemma keeps_symlinkat: "rt.keeps w a L (symlinkat w target (a_dirfd a) (a_path a))"
  unfolding symlinkat_def by (intro rt.keeps_rules keeps_ask_int keeps_at_x) (simp_all add: route)

lemma keeps_tmp_body: "rt.keeps w a L (tmp_body w f null_ok (a_path a) ints)"
  unfolding tmp_body_def
proof (rule keeps_xl, simp add: route)
  fix r assume r: "ptr r = tr w True (a_path a)" and fits: "short (tr w True (a_path a))"
  have ok: "path_ok w a (d, ptr r)" for d unfolding r by (simp add: route)
  have cut: "strncpy_z SP_PATH_MAX p = p" if "ptr r = Some p" for p
    using fits that unfolding r [symmetric] by (simp add: short_def strncpy_z_fits)
  have none: "path_ok w a (d, None)" if "a_path a = None" for d
    using path_ok_tr [OF own_paths(1), of w a d True] that by (simp add: tr_def sp_translate_xf_def)
  show "rt.keeps w a L (case a_path a of None \<Rightarrow> do {
         (r, u) \<leftarrow> ask (k_tmp (c_k w)) (req f [(AT_FDCWD, None)] ints []);
         ret (case r of Inl e \<Rightarrow> Fail e | Inr _ \<Rightarrow> null_ok, None)
       }
     | Some t \<Rightarrow>
         (case r of
            XErr e \<Rightarrow> ret (Crash, a_path a)
          | Caller _ \<Rightarrow> do {
              (r, u) \<leftarrow> ask (k_tmp (c_k w)) (req f [(AT_FDCWD, ptr r)] ints []);
              ret (result r, Some u)
            }
          | _ \<Rightarrow> do {
              (r, u) \<leftarrow> ask (k_tmp (c_k w)) (req f [(AT_FDCWD, Some (strncpy_z SP_PATH_MAX (the (ptr r))))] ints []);
              ret (case r of Inl e \<Rightarrow> (Fail e, a_path a) | Inr fd \<Rightarrow> (Done fd, Some (mirror t u)))
            }))"
    using ok cut none
    by (cases r) (auto intro!: rt.keeps_return rt.keeps_bind rt.keeps_prod keeps_ask simp: route split: option.split)
qed

lemma keeps_stat_body: "rt.keeps w a L (stat_body w f follow (a_path a))"
  unfolding stat_body_def ask_stat_def
  by (rule keeps_xl, simp add: route, intro rt.keeps_bind keeps_mend keeps_ask) (simp add: route)

lemma keeps_fstatat64: "rt.keeps w a L (fstatat64 w d (a_path a) flags)"
  unfolding fstatat64_def ask_stat_def
  by (rule keeps_xl, simp add: route, intro rt.keeps_bind keeps_mend keeps_ask) (simp add: route)

lemma keeps_stat_relative:
  "fd_relative (a_dirfd a) (a_path a) \<Longrightarrow> rt.keeps w a L (do { r \<leftarrow> ask_stat w (req f [(a_dirfd a, a_path a)] ints []); ret (result r) })"
  unfolding ask_stat_def by (intro rt.keeps_bind rt.keeps_return keeps_ask) (simp add: route)

lemma keeps_fstatat_body: "rt.keeps w a L (fstatat_body w f (a_dirfd a) (a_path a) flags)"
  unfolding fstatat_body_def
proof (intro rt.keeps_if rt.keeps_return keeps_stat_relative)
  show "rt.keeps w a L (do {
      p \<leftarrow> xl w (\<not> no_follow flags) (a_path a);
      r \<leftarrow> ask_stat w (req f [(a_dirfd a, ptr p)] [uint flags] []);
      mend w (no_follow flags) (a_path a) r })"
    unfolding ask_stat_def by (rule keeps_xl, simp add: route, intro rt.keeps_bind keeps_mend keeps_ask) (simp add: route)
qed

lemma keeps_statx_emulate: "path_ok w a (d, q) \<Longrightarrow> rt.keeps w a L (sp_statx_emulate w d q flags)"
  unfolding sp_statx_emulate_def ask_stat_def by (intro rt.keeps_bind rt.keeps_return keeps_ask) (simp add: route)

lemma keeps_statx: "rt.keeps w a L (statx w (a_dirfd a) (a_path a) flags msk)"
  unfolding statx_def
proof (intro rt.keeps_if rt.keeps_return keeps_stat_relative)
  show "rt.keeps w a L (do {
      p \<leftarrow> xl w (flags AND AT_SYMLINK_FOLLOW \<noteq> 0) (a_path a);
      r \<leftarrow> ask_stat w (req ''statx'' [(a_dirfd a, ptr p)] [uint flags, uint msk] []);
      if r = Inl ENOSYS then do { r2 \<leftarrow> sp_statx_emulate w (a_dirfd a) (ptr p) flags; mend w False (a_path a) r2 }
      else mend w False (a_path a) r })"
    unfolding ask_stat_def
    by (rule keeps_xl, simp add: route, intro rt.keeps_bind rt.keeps_if keeps_mend keeps_ask keeps_statx_emulate) (simp_all add: route)
qed

lemma keeps_fstat_body: "rt.keeps w a L (fstat_body w f (a_dirfd a))"
  unfolding fstat_body_def sv_ashmem_fstat_fixup_def sp_fstat_hreg_fixup_def lseek_def ask_stat_def
  by (intro rt.keeps_rules rt.keeps_bind keeps_ask keeps_ask_int) (simp_all add: route)

lemma keeps_readlink: "0 < n \<Longrightarrow> rt.keeps w a L (readlink w (a_path a) n)"
  unfolding readlink_def ask_str_def
  by (rule rt.keeps_if, simp, intro rt.keeps_option rt.keeps_return,
      rule keeps_xl, simp add: route, intro rt.keeps_bind rt.keeps_return keeps_ask) (simp add: route)

lemma keeps_readlinkat: "0 < n \<Longrightarrow> rt.keeps w a L (readlinkat w (a_dirfd a) (a_path a) n)"
  unfolding readlinkat_def ask_str_def
proof (intro rt.keeps_option rt.keeps_if rt.keeps_return)
  show "rt.keeps w a L (do { r \<leftarrow> ask (k_str (c_k w)) (req ''readlinkat'' [(a_dirfd a, a_path a)] [int n] []); ret (result r) })"
    if "0 < n" "fd_relative (a_dirfd a) (a_path a) \<or> n = 0"
    using that by (intro rt.keeps_bind rt.keeps_return keeps_ask) (simp add: route)
  show "rt.keeps w a L (do {
      p \<leftarrow> xl w False (a_path a);
      r \<leftarrow> ask (k_str (c_k w)) (req ''readlinkat'' [(a_dirfd a, ptr p)] [int SP_PATH_MAX - 1] []);
      ret (link_answer w n r) })"
    by (rule keeps_xl, simp add: route, intro rt.keeps_bind rt.keeps_return keeps_ask) (simp add: route)
qed

lemma keeps_realpath: "rt.keeps w a L (realpath w (a_path a) resolved)" "rt.keeps w a L (realpath_chk w (a_path a) room)"
proof -
  show "rt.keeps w a L (realpath w (a_path a) resolved)"
    unfolding realpath_def ask_str_def
    by (rule keeps_xl, simp add: route, intro rt.keeps_bind rt.keeps_return keeps_ask) (simp add: route)
  show "rt.keeps w a L (realpath_chk w (a_path a) room)"
    unfolding realpath_chk_def ask_str_def
    by (intro rt.keeps_if rt.keeps_return, rule keeps_xl, simp add: route, intro rt.keeps_bind rt.keeps_return keeps_ask)
      (simp add: route)
qed

lemma keeps_getcwd: "rt.keeps w a L (getcwd w buf n)"
  unfolding getcwd_def ask_str_def by (intro rt.keeps_bind rt.keeps_return keeps_ask) (simp add: route)

lemma keeps_void: "rt.keeps w a L m \<Longrightarrow> rt.keeps w a L (void m)"
  unfolding void_def by (intro rt.keeps_bind rt.keeps_return)

lemmas keeps_shapes = keeps_plain keeps_guarded keeps_at_x keeps_ask_int keeps_open_body keeps_openat_body keeps_open64_nocancel
  keeps_openat64_nocancel keeps_access_body keeps_fakeproc_first keeps_faccessat keeps_chown_body keeps_rename keeps_renameat_body
  keeps_symlinkat keeps_tmp_body keeps_stat_body keeps_fstatat64 keeps_fstatat_body keeps_statx keeps_fstat_body keeps_readlink
  keeps_readlinkat keeps_realpath keeps_getcwd rt.keeps_return

lemmas wrapper_defs = openc_def open64_def openat_def openat64_def uu_open64_def uu_openat64_def fopen_def fopen64_def freopen_def
  freopen64_def opendir_def access_def eaccess_def faccessat2_def mkstemp_def mkostemp_def mkstemp64_def mkostemp64_def
  mkdtemp64_def mkdtemp_def chmod_def fchmodat_def lchmod_def inotify_add_watch_def chown_def lchown_def fchownat_def fchown_def
  truncatec_def utimes_def utimensat_def lutimes_def statvfs_def statvfs64_def statfs_def statfs64_def setxattr_def lsetxattr_def
  getxattr_def lgetxattr_def listxattr_def llistxattr_def removexattr_def lremovexattr_def mkdirat_def unlinkat_def chdir_def
  unlink_def rmdir_def mkdir_def renameat_def renameat2_def symlink_def stat_def lstatc_def stat64_def lstat64_def fstatat_def
  newfstatat_def fstat64_def fstat_def lxstat64_def lxstat_def xstat64_def xstat_def fxstat64_def fxstat_def fxstatat64_def
  fxstatat_def

lemma wrappers_keep: "list_all (\<lambda>(nm, m). \<not> unrouted nm a \<longrightarrow> rt.keeps w a L m) (wrappers w a)"
  unfolding wrappers_def list.pred_inject prod.case
  by (intro conjI impI TrueI keeps_void) (simp_all add: wrapper_defs keeps_shapes route unrouted_def)

text \<open>The calls that are passed on as they are.\<close>

lemma spelled_ask: "spelled a r \<Longrightarrow> un.keeps w a L (ask k r)"
  unfolding ask_def by (rule un.keeps_State) (auto simp: spelled_inv_def)

lemma spelled_req: "spelled a (req f ps ints ss) \<longleftrightarrow> list_all (\<lambda>dp. dp \<in> {(AT_FDCWD, a_path a), (a_dirfd a, a_path a), (a_dirfd2 a, a_path2 a)}) ps"
  by (simp add: spelled_def req_def)

lemma spelled_void: "un.keeps w a L m \<Longrightarrow> un.keeps w a L (void m)"
  unfolding void_def by (intro un.keeps_bind un.keeps_return)

lemma spelled_links:
  "un.keeps w a L (readlink w (a_path a) 0)" "un.keeps w a L (readlinkat w (a_dirfd a) (a_path a) 0)"
  "un.keeps w a L (readlink_chk w (a_path a) n k)"
proof -
  show "un.keeps w a L (readlink w (a_path a) 0)"
    unfolding readlink_def ask_str_def by (simp, intro un.keeps_bind un.keeps_return spelled_ask) (simp add: spelled_req)
  show "un.keeps w a L (readlinkat w (a_dirfd a) (a_path a) 0)"
    unfolding readlinkat_def ask_str_def
    by (intro un.keeps_option un.keeps_return, simp, intro conjI impI un.keeps_bind un.keeps_return spelled_ask) (simp add: spelled_req)
  show "un.keeps w a L (readlink_chk w (a_path a) n k)"
    unfolding readlink_chk_def ask_str_def by (intro un.keeps_option un.keeps_bind un.keeps_return spelled_ask) (simp add: spelled_req)
qed

lemma spelled_renameat_body:
  assumes "fd_relative (a_dirfd a) (a_path a) \<noteq> fd_relative (a_dirfd2 a) (a_path2 a)"
  shows "un.keeps w a L (renameat_body w f (a_dirfd a) (a_path a) (a_dirfd2 a) (a_path2 a) ints)"
proof -
  have r: "fd_relative (a_dirfd a) (a_path a) \<or> fd_relative (a_dirfd2 a) (a_path2 a)" using assms by blast
  show ?thesis
    unfolding renameat_body_def if_P [OF r] ask_int_def by (intro un.keeps_bind un.keeps_return spelled_ask) (simp add: spelled_req)
qed

lemma unrouted_keep:
  assumes "(nm, m) \<in> set (wrappers w a)" "unrouted nm a"
  shows "un.keeps w a L m"
proof -
  have "list_all (\<lambda>(nm, m). unrouted nm a \<longrightarrow> un.keeps w a L m) (wrappers w a)"
    unfolding wrappers_def list.pred_inject prod.case
    by (intro conjI impI TrueI spelled_void)
       (simp_all add: unrouted_def spelled_links renameat_def renameat2_def spelled_renameat_body)
  then show ?thesis using assms by (auto simp: list_all_iff)
qed

section \<open>Properties\<close>

text \<open>C6: Where the paths of a call go. For every wrapper of the table and whatever the library and the kernel answer: every path
  that the wrapper hands to them is the translation of one of the call's own paths, as it is without the cache, or such a path
  relative to a descriptor the guest has open, or the link of the descriptor in \<^verbatim>\<open>/proc/self/fd\<close>. The exceptions are exactly the
  calls of \<open>unrouted\<close>, the fortified \<^verbatim>\<open>readlink\<close>, a link read into no room and a rename with one path relative to a descriptor:
  these hand on the call's paths as the guest spelled them. The translate cache is sound afterwards in all cases.\<close>

theorem wrapper_confined:
  assumes "(nm, m) \<in> set (wrappers w a)" "args_ok a" "in_buffers (c_x w)" "xc.sound (x_value (c_x w)) (ws_xc s)"
  shows "(\<exists>later. ws_log (snd (run_state m s)) = ws_log s @ later
      \<and> list_all (if unrouted nm a then spelled a else confined w a) later)
    \<and> xc.sound (x_value (c_x w)) (ws_xc (snd (run_state m s)))"
proof (cases "unrouted nm a")
  case True
  have "un.keeps w a (ws_log s) m" by (rule unrouted_keep [OF assms(1) True])
  moreover have "spelled_inv w a (ws_log s) s" using assms(4) by (simp add: spelled_inv_def)
  ultimately show ?thesis using True by (simp add: un.keeps_def spelled_inv_def)
next
  case False
  have "rt.keeps w a (ws_log s) m" using wrappers_keep [of a w "ws_log s"] assms(1) False by (auto simp: list_all_iff)
  moreover have "call_inv w a (ws_log s) s" using assms(2-4) by (simp add: call_inv_def args_ok_def)
  ultimately show ?thesis using False by (simp add: rt.keeps_def call_inv_def)
qed

definition demo_w :: wctx where
  "demo_w = \<lparr>c_x = demo_x, c_env = [], c_pid = 7, c_auxv = - 1, c_dup = (\<lambda>_. - 1), c_memfd = (\<lambda>_. - 1),
     c_si = \<lparr>boot_secs = None, mono_secs = 0, epoch = 0, uts = None\<rparr>, c_lib = demo_lib, c_stdio = [], c_alloc = (\<lambda>_. True),
     c_k = \<lparr>k_int = (\<lambda>_ _. Inr 3), k_stat = (\<lambda>_ _. Inl ENOENT), k_str = (\<lambda>_ _. Inl ENOENT), k_tmp = (\<lambda>_ _. (Inl ENOENT, []))\<rparr>\<rparr>"

definition demo_a :: gargs where
  "demo_a = \<lparr>a_dirfd = AT_FDCWD, a_path = Some ''/b'', a_dirfd2 = AT_FDCWD, a_path2 = None, a_flags = 0, a_mode = 0, a_uid = 0,
     a_gid = 0, a_num1 = 0, a_num2 = 0, a_str = None, a_stream = 0, a_size = 1, a_num = 1, a_dst = True, a_dstlen = None\<rparr>"

definition demo_ws :: wst where
  "demo_ws = \<lparr>ws_xc = sp_xcache_put x_empty ''/b'' ''/r/b'', ws_fp = fakeproc_init, ws_hreg = [], ws_ids = ids_init,
     ws_ash = replicate 16 0, ws_ashpos = 0, ws_log = []\<rparr>"

theorem wrapper_confined_witness:
  "ws_log (snd (run_state (void (openc demo_w (Some ''/b'') 0 0)) demo_ws)) = [req ''open'' [(AT_FDCWD, Some ''/r/b'')] [0, 0] []]
   \<and> list_all (confined demo_w demo_a) (ws_log (snd (run_state (void (openc demo_w (Some ''/b'') 0 0)) demo_ws)))"
proof -
  have "(''open'', void (openc demo_w (a_path demo_a) (a_flags demo_a) (a_mode demo_a))) \<in> set (wrappers demo_w demo_a)"
    by (simp add: wrappers_def)
  moreover have "args_ok demo_a" by (simp add: args_ok_def demo_a_def short_def sp_const)
  moreover have "\<not> unrouted ''open'' demo_a" by (simp add: unrouted_def)
  moreover have "in_buffers (c_x demo_w)" using demo_in_buffers by (simp add: demo_w_def)
  moreover have "xc.sound (x_value (c_x demo_w)) (ws_xc demo_ws)" using demo_cache_sound by (simp add: demo_w_def demo_ws_def)
  ultimately have "list_all (confined demo_w demo_a) (ws_log (snd (run_state (void (openc demo_w (a_path demo_a) (a_flags demo_a) (a_mode demo_a))) demo_ws)))"
    using wrapper_confined [of "''open''" _ demo_w demo_a demo_ws] by (force simp: demo_ws_def)
  moreover have "ws_log (snd (run_state (void (openc demo_w (Some ''/b'') 0 0)) demo_ws)) = [req ''open'' [(AT_FDCWD, Some ''/r/b'')] [0, 0] []]"
    by code_simp
  ultimately show ?thesis by (simp add: demo_a_def)
qed

section \<open>Observations\<close>

text \<open>One relative path makes \<^verbatim>\<open>renameat\<close> pass on the other one, which may be absolute, as the guest spelled it.\<close>

lemma renameat_leaks:
  "ws_log (snd (run_state (renameat demo_w AT_FDCWD (Some ''/b'') 5 (Some ''x'')) demo_ws))
     = [req ''renameat'' [(AT_FDCWD, Some ''/b''), (5, Some ''x'')] [] []]"
  by code_simp

text \<open>The fortified \<^verbatim>\<open>readlink\<close> passes the guest's path on.\<close>

lemma readlink_chk_leaks:
  "ws_log (snd (run_state (readlink_chk demo_w (Some ''/b'') 9 9) demo_ws)) = [req ''__readlink_chk'' [(AT_FDCWD, Some ''/b'')] [9, 9] []]"
  by code_simp

text \<open>So does \<^verbatim>\<open>syscall\<close> for the numbers it does not know, 56 (\<^verbatim>\<open>openat\<close>) among them.\<close>

lemma syscall_leaks:
  "ws_log (snd (run_state (syscall demo_w 56 [- 100, 1, 0, 0, 0, 0] None (Some ''/b'') None) demo_ws))
     = [req ''syscall'' [] [56, - 100, 1, 0, 0, 0, 0] [None, Some ''/b'']]"
  by code_simp

text \<open>A path relative to a descriptor is looked up in the working directory by the wrappers that have no guard.\<close>

lemma unguarded_relative:
  "ws_log (snd (run_state (fstatat64 (demo_w\<lparr>c_x := demo_x\<lparr>x_cwd := Some ''/r/d''\<rparr>\<rparr>) 5 (Some ''x'') 0) demo_ws))
     = [req ''fstatat64'' [(5, Some ''/r/d/x'')] [0] []]"
  by code_simp

text \<open>A synthetic file that may not be written makes \<^verbatim>\<open>access\<close> return 1, not \<^verbatim>\<open>-1\<close>; descriptor 0 counts as an ashmem one from the start.\<close>

lemma access_denied_returns_1: "fst (run_state (access demo_w (Some ''/proc/stat'') 2) demo_ws) = Done 1"
  by code_simp

lemma ashmem_tracks_0: "sv_ashmem_is_tracked demo_ws 0"
  by code_simp

text \<open>
  The reverse translation in place is the reverse translation as long as no bind has a guest side longer than its host side.
  Otherwise the guest side runs over the bytes that are copied next.
\<close>

lemma copy_in_place:
  assumes "length g \<le> hl" "hl + n \<le> length h"
  shows "map (\<lambda>i. if i < length g then g ! i else h ! i) [hl ..< hl + n] = take n (drop hl h)"
  using assms by (intro nth_equalityI) auto

lemma clipped_copy:
  "(let total = min (length g + length r) (outsz - 1) in
      if outsz = 0 \<or> total < length g then None else Some (g @ take (total - length g) r))
   = (if outsz = 0 then None
      else if length g + length r + 1 > outsz \<and> outsz - 1 < length g then None
      else reverse_copy (g @ r) outsz)"
proof (cases "length g + length r < outsz")
  case True
  then show ?thesis by (simp add: Let_def reverse_copy_def)
next
  case False
  then have "min (length g + length r) (outsz - 1) = outsz - 1" by simp
  then show ?thesis using False by (simp only: Let_def reverse_copy_def) auto
qed

lemma sp_reverse_same_eq:
  assumes "list_all (\<lambda>b. length (bind_guest b) \<le> length (bind_host b)) (binds cfg)"
  shows "sp_reverse_same cfg host outsz = sp_reverse cfg host outsz"
proof (cases "best_bind None (binds cfg) host")
  case None
  then show ?thesis by (simp add: sp_reverse_same_def)
next
  case (Some b)
  have b: "b \<in> set (binds cfg)" "path_within (bind_host b) host" using best_bind_SomeD [OF Some] by auto
  then have l: "length (bind_guest b) \<le> length (bind_host b)" using assms by (auto simp: list_all_iff)
  have hl: "length (bind_host b) \<le> length host"
    using path_within_prefixD [OF b(2)] by (metis le_add1 length_append)
  show ?thesis
  proof (cases "length (rootfs cfg) > length (bind_host b) \<and> path_within (rootfs cfg) host")
    case True
    then show ?thesis using Some by (simp add: sp_reverse_same_def)
  next
    case False
    let ?g = "bind_guest b" and ?rest = "drop (length (bind_host b)) host"
    have r: "length host - length (bind_host b) = length ?rest" by simp
    have c: "map (\<lambda>i. if i < length ?g then ?g ! i else host ! i) [length (bind_host b) ..< length (bind_host b) + n] = take n ?rest"
      if "n \<le> length ?rest" for n
      using that hl by (intro copy_in_place [OF l]) simp
    have "sp_reverse_same cfg host outsz =
        (let total = min (length ?g + length ?rest) (outsz - 1) in
           if outsz = 0 \<or> total < length ?g then None else Some (?g @ take (total - length ?g) ?rest))"
      unfolding sp_reverse_same_def Some option.case if_not_P [OF False] Let_def r by (subst c) auto
    also have "\<dots> = sp_reverse cfg host outsz"
      unfolding sp_reverse_def Some option.case if_not_P [OF False] Let_def by (rule clipped_copy [unfolded Let_def])
    finally show ?thesis .
  qed
qed

lemma readlink_corrupts:
  "sp_reverse prefix_bind_cfg ''/sd/ab/c'' 16 = Some ''/usr/ab/c'' \<and> sp_reverse_same prefix_bind_cfg ''/sd/ab/c'' 16 = Some ''/usrrab/c''"
  by code_simp

end
