(* ===== verification/Sprout_Net.thy ===== *)
theory Sprout_Net
  imports Sprout_Wrappers
begin

text \<open>
  Sockets and mounts of the interposer: the addresses of local sockets, the ports below 1024 that \<^verbatim>\<open>bind\<close> moves and
  \<^verbatim>\<open>getsockname\<close> moves back, the credentials in messages and answers, the mount broker that asks the owner of the shadow
  table, and the calls that are refused. As in the theory of the wrappers, a function is a program over the state and the calls
  made so far, and the kernel is an arbitrary function of these calls.
\<close>

section \<open>Addresses, calls and answers\<close>

text \<open>
  An address by family. For a local one the string at \<^verbatim>\<open>sun_path\<close>, empty for the abstract name space; ports are in host order.
  \<^verbatim>\<open>sun_path\<close> begins at offset 2 and has 108 bytes.
\<close>

datatype sockaddr = Sun cstr | Sin u16 u32 | Sin6 u16 "u8 list" | Saother nat

text \<open>The control messages of a message: credentials (process, user, group), or anything else.\<close>

datatype cmsg = Creds u32 u32 u32 | Cother "u8 list"

record msghdr =
  msg_name :: "(sockaddr \<times> nat) option"
  msg_control :: "cmsg list option"
  msg_controllen :: nat
  msg_data :: "u8 list"

datatype nreq = NBind int "sockaddr option" nat | NConnect int "sockaddr option" nat | NSendto int "u8 list" u32 "sockaddr option" nat
  | NSendmsg int "msghdr option" u32 | NRecvfrom int nat u32 | NRecvmsg int u32 | NAccept4 int u32 | NSocket int int int
  | NGetsockopt int int int | NGetsockname int | NGetpeername int | NClose int | NWrite int cstr | NRead int nat | NUname

record utsname =
  sysname :: cstr
  release :: cstr
  machine :: cstr

text \<open>The answers: a number; a number with the address that was stored; credentials; bytes; the system's names.\<close>

record nkernel =
  kn_int :: "nreq list \<Rightarrow> nreq \<Rightarrow> errno + int"
  kn_addr :: "nreq list \<Rightarrow> nreq \<Rightarrow> errno + int \<times> sockaddr \<times> nat"
  kn_cred :: "nreq list \<Rightarrow> nreq \<Rightarrow> errno + (u32 \<times> u32 \<times> u32) \<times> nat"
  kn_str :: "nreq list \<Rightarrow> nreq \<Rightarrow> errno + cstr"
  kn_uts :: "nreq list \<Rightarrow> nreq \<Rightarrow> errno + utsname"

record nctx =
  n_w :: wctx
  n_emu32 :: bool
  n_k :: nkernel

record nst =
  ns_w :: wst
  ns_pmap :: "(int \<times> u16) list"
  ns_calls :: "nreq list"

type_synonym 'a nm = "(nst, 'a) state"

definition nask :: "(nreq list \<Rightarrow> nreq \<Rightarrow> 'a) \<Rightarrow> nreq \<Rightarrow> 'a nm" where
  "nask k r = State (\<lambda>s. (k (ns_calls s) r, s\<lparr>ns_calls := ns_calls s @ [r]\<rparr>))"

definition nint :: "nctx \<Rightarrow> nreq \<Rightarrow> int outcome nm" where
  "nint n r = do { v \<leftarrow> nask (kn_int (n_k n)) r; State_Monad.return (result v) }"

definition n_env :: "nctx \<Rightarrow> env" where
  "n_env n = c_env (n_w n)"

section \<open>Names of local sockets\<close>

text \<open>The address and length to use instead; \<open>None\<close> is the return value 0.\<close>

definition sp_addr_fwd_unix :: "nctx \<Rightarrow> sockaddr option \<Rightarrow> nat \<Rightarrow> (sockaddr \<times> nat) option" where
  "sp_addr_fwd_unix n addr len =
     (case addr of
        Some (Sun p) \<Rightarrow>
          if len \<le> 3 \<or> p = [] \<or> min (length p) (len - 2) = 0 then None
          else (case x_translate (c_x (n_w n)) p True of
                  None \<Rightarrow> None
                | Some x \<Rightarrow> if 2 + length x + 1 > 108 + 2 then None else Some (Sun x, 2 + length x + 1))
      | _ \<Rightarrow> None)"

definition sp_addr_rev_unix :: "nctx \<Rightarrow> sockaddr \<times> nat \<Rightarrow> sockaddr \<times> nat" where
  "sp_addr_rev_unix n al =
     (case al of
        (Sun p, len) \<Rightarrow>
          if len \<le> 3 \<or> p = [] then al
          else (case sp_reverse (x_cfg (c_x (n_w n))) p SP_PATH_MAX of
                  None \<Rightarrow> al
                | Some out \<Rightarrow> if out = [] \<or> 2 + length out + 1 > len then al else (Sun out, 2 + length out + 1))
      | _ \<Rightarrow> al)"

section \<open>The port table\<close>

definition SP_PMAP_MAX :: nat where "SP_PMAP_MAX = 256"

definition pmap_init :: "(int \<times> u16) list" where
  "pmap_init = replicate SP_PMAP_MAX (0, 0)"

text \<open>The slot: the first that is free or holds the descriptor, else slot 0.\<close>

fun pmap_slot :: "(int \<times> u16) list \<Rightarrow> int \<Rightarrow> nat option" where
  "pmap_slot [] fd = None"
| "pmap_slot (e # t) fd = (if fst e < 0 \<or> fst e = fd then Some 0 else map_option Suc (pmap_slot t fd))"

definition sp_pmap_remember :: "int \<Rightarrow> u16 \<Rightarrow> (int \<times> u16) list \<Rightarrow> (int \<times> u16) list" where
  "sp_pmap_remember fd orig t =
     (if fd < 0 \<or> orig = 0 then t
      else t[(case pmap_slot t fd of Some i \<Rightarrow> i | None \<Rightarrow> 0) := (fd, orig)])"

fun sp_pmap_lookup :: "(int \<times> u16) list \<Rightarrow> int \<Rightarrow> u16" where
  "sp_pmap_lookup [] fd = 0"
| "sp_pmap_lookup (e # t) fd = (if fst e = fd then snd e else sp_pmap_lookup t fd)"

definition sp_pmap_forget :: "int \<Rightarrow> (int \<times> u16) list \<Rightarrow> (int \<times> u16) list" where
  "sp_pmap_forget fd t = map (\<lambda>e. if fst e = fd then (- 1, snd e) else e) t"

definition portmap_on :: "nctx \<Rightarrow> bool" where
  "portmap_on n \<longleftrightarrow> getenv (n_env n) ''SPROUT_PORTMAP'' \<noteq> None"

definition portmap_base :: "nctx \<Rightarrow> int" where
  "portmap_base n =
     (let b = (case nonempty_or (getenv (n_env n) ''SPROUT_PORTMAP_BASE'') None of None \<Rightarrow> 1024 | Some s \<Rightarrow> atoi s)
      in if b \<le> 1024 then 1024 else b)"

definition low_port :: "u16 \<Rightarrow> bool" where
  "low_port port \<longleftrightarrow> 0 < port \<and> port < 1024"

definition moved :: "nctx \<Rightarrow> u16 \<Rightarrow> u16" where
  "moved n port = word_of_int (portmap_base n + uint port)"

definition bind_moved :: "nctx \<Rightarrow> int \<Rightarrow> u16 \<Rightarrow> sockaddr \<Rightarrow> nat \<Rightarrow> int outcome nm" where
  "bind_moved n fd port a len = do {
     r \<leftarrow> nint n (NBind fd (Some a) len);
     case r of
       Done v \<Rightarrow> do {
         State_Monad.update (\<lambda>s. s\<lparr>ns_pmap := sp_pmap_remember fd port (ns_pmap s)\<rparr>);
         State_Monad.return r
       }
     | _ \<Rightarrow> State_Monad.return r
   }"

definition bindc :: "nctx \<Rightarrow> int \<Rightarrow> sockaddr option \<Rightarrow> nat \<Rightarrow> int outcome nm" where
  "bindc n fd addr len =
     (case sp_addr_fwd_unix n addr len of
        Some (x, xlen) \<Rightarrow> nint n (NBind fd (Some x) xlen)
      | None \<Rightarrow>
          if \<not> portmap_on n then nint n (NBind fd addr len)
          else (case addr of
                  Some (Sin port ip) \<Rightarrow>
                    if low_port port then bind_moved n fd port (Sin (moved n port) ip) 16 else nint n (NBind fd addr len)
                | Some (Sin6 port rest) \<Rightarrow>
                    if low_port port then bind_moved n fd port (Sin6 (moved n port) rest) 28 else nint n (NBind fd addr len)
                | _ \<Rightarrow> nint n (NBind fd addr len)))"

definition close :: "nctx \<Rightarrow> int \<Rightarrow> int outcome nm" where
  "close n fd = do {
     r \<leftarrow> nint n (NClose fd);
     case r of
       Done v \<Rightarrow> do { State_Monad.update (\<lambda>s. s\<lparr>ns_pmap := sp_pmap_forget fd (ns_pmap s)\<rparr>); State_Monad.return r }
     | _ \<Rightarrow> State_Monad.return r
   }"

text \<open>The address and its length as stored for the caller, who gave room for both.\<close>

definition with_port :: "u16 \<Rightarrow> sockaddr \<Rightarrow> sockaddr" where
  "with_port p a = (case a of Sin _ ip \<Rightarrow> Sin p ip | Sin6 _ rest \<Rightarrow> Sin6 p rest | _ \<Rightarrow> a)"

definition getsockname :: "nctx \<Rightarrow> int \<Rightarrow> (sockaddr \<times> nat) outcome nm" where
  "getsockname n fd = do {
     r \<leftarrow> nask (kn_addr (n_k n)) (NGetsockname fd);
     s \<leftarrow> State_Monad.get;
     State_Monad.return (case r of
         Inl e \<Rightarrow> Fail e
       | Inr (_, al) \<Rightarrow>
           (let (a, len) = sp_addr_rev_unix n al; orig = sp_pmap_lookup (ns_pmap s) fd
            in Done (if portmap_on n \<and> orig \<noteq> 0 then with_port orig a else a, len)))
   }"

definition getpeername :: "nctx \<Rightarrow> int \<Rightarrow> (sockaddr \<times> nat) outcome nm" where
  "getpeername n fd = do {
     r \<leftarrow> nask (kn_addr (n_k n)) (NGetpeername fd);
     State_Monad.return (case r of Inl e \<Rightarrow> Fail e | Inr (_, al) \<Rightarrow> Done (sp_addr_rev_unix n al))
   }"

section \<open>Traffic\<close>

definition connectc :: "nctx \<Rightarrow> int \<Rightarrow> sockaddr option \<Rightarrow> nat \<Rightarrow> int outcome nm" where
  "connectc n fd addr len =
     (case sp_addr_fwd_unix n addr len of
        Some (x, xlen) \<Rightarrow> nint n (NConnect fd (Some x) xlen)
      | None \<Rightarrow> nint n (NConnect fd addr len))"

definition sendto :: "nctx \<Rightarrow> int \<Rightarrow> u8 list \<Rightarrow> u32 \<Rightarrow> sockaddr option \<Rightarrow> nat \<Rightarrow> int outcome nm" where
  "sendto n fd buf flags addr len =
     (case sp_addr_fwd_unix n addr len of
        Some (x, xlen) \<Rightarrow> nint n (NSendto fd buf flags (Some x) xlen)
      | None \<Rightarrow> nint n (NSendto fd buf flags addr len))"

text \<open>
  \<^verbatim>\<open>sp_cmsg_creds_truth\<close> on the messages that the walk reaches: the rewritten ones, and the old credentials with their places, at
  most four. \<^verbatim>\<open>CMSG_LEN(sizeof(struct ucred))\<close> is 28. The ids are the kernel's own.
\<close>

fun creds_loop :: "u32 \<Rightarrow> u32 \<Rightarrow> u32 \<Rightarrow> nat \<Rightarrow> nat \<Rightarrow> cmsg list \<Rightarrow> cmsg list \<times> (nat \<times> cmsg) list" where
  "creds_loop pid uid gid k i [] = ([], [])"
| "creds_loop pid uid gid k i (c # cs) =
     (if k \<ge> 4 then (c # cs, [])
      else case c of
        Creds p u g \<Rightarrow>
          (let (new, old) = creds_loop pid uid gid (k + 1) (i + 1) cs in (Creds pid uid gid # new, (i, c) # old))
      | Cother _ \<Rightarrow> (let (new, old) = creds_loop pid uid gid k (i + 1) cs in (c # new, old)))"

definition sp_cmsg_creds_truth :: "nctx \<Rightarrow> msghdr \<Rightarrow> cmsg list \<Rightarrow> cmsg list \<times> (nat \<times> cmsg) list" where
  "sp_cmsg_creds_truth n m cs =
     (if \<not> sp_fakeroot_on (n_env n) \<or> msg_controllen m < 28 then (cs, [])
      else creds_loop (word_of_nat (c_pid (n_w n))) (lib_uid (c_lib (n_w n))) (lib_gid (c_lib (n_w n))) 0 0 cs)"

text \<open>The loop that puts the old credentials back, from the last to the first.\<close>

definition creds_restore :: "(nat \<times> cmsg) list \<Rightarrow> cmsg list \<Rightarrow> cmsg list" where
  "creds_restore old cs = fold (\<lambda>(i, c) l. l[i := c]) (rev old) cs"

text \<open>The result, and the control messages of the guest afterwards.\<close>

definition sendmsg :: "nctx \<Rightarrow> int \<Rightarrow> msghdr option \<Rightarrow> u32 \<Rightarrow> (int outcome \<times> cmsg list option) nm" where
  "sendmsg n fd msg flags =
     (case msg of
        None \<Rightarrow> do { r \<leftarrow> nint n (NSendmsg fd None flags); State_Monad.return (r, None) }
      | Some m \<Rightarrow>
          (let m1 = (case msg_name m of
                       None \<Rightarrow> m
                     | Some (a, len) \<Rightarrow>
                         (case sp_addr_fwd_unix n (Some a) len of None \<Rightarrow> m | Some x \<Rightarrow> m\<lparr>msg_name := Some x\<rparr>))
           in case msg_control m1 of
                None \<Rightarrow> do { r \<leftarrow> nint n (NSendmsg fd (Some m1) flags); State_Monad.return (r, None) }
              | Some cs \<Rightarrow>
                  (let (new, old) = sp_cmsg_creds_truth n m1 cs in do {
                     r \<leftarrow> nint n (NSendmsg fd (Some (m1\<lparr>msg_control := Some new\<rparr>)) flags);
                     State_Monad.return (r, Some (creds_restore old new))
                   })))"

definition recvfrom :: "nctx \<Rightarrow> int \<Rightarrow> nat \<Rightarrow> u32 \<Rightarrow> (int \<times> sockaddr \<times> nat) outcome nm" where
  "recvfrom n fd len flags = do {
     r \<leftarrow> nask (kn_addr (n_k n)) (NRecvfrom fd len flags);
     State_Monad.return (case r of Inl e \<Rightarrow> Fail e | Inr (v, al) \<Rightarrow> Done (v, sp_addr_rev_unix n al))
   }"

definition recvmsg :: "nctx \<Rightarrow> int \<Rightarrow> u32 \<Rightarrow> (int \<times> sockaddr \<times> nat) outcome nm" where
  "recvmsg n fd flags = do {
     r \<leftarrow> nask (kn_addr (n_k n)) (NRecvmsg fd flags);
     State_Monad.return (case r of Inl e \<Rightarrow> Fail e | Inr (v, al) \<Rightarrow> Done (v, sp_addr_rev_unix n al))
   }"

definition accept :: "nctx \<Rightarrow> int \<Rightarrow> int outcome nm" where
  "accept n fd = nint n (NAccept4 fd 0)"

text \<open>\<^verbatim>\<open>AF_NETLINK\<close> is 16, \<^verbatim>\<open>NETLINK_AUDIT\<close> 9.\<close>

definition socket :: "nctx \<Rightarrow> int \<Rightarrow> int \<Rightarrow> int \<Rightarrow> int outcome nm" where
  "socket n domain ty protocol = do {
     r \<leftarrow> nint n (NSocket domain ty protocol);
     State_Monad.return (if r = Fail EACCES \<and> domain = 16 \<and> protocol = 9 then Fail EPROTONOSUPPORT else r)
   }"

text \<open>\<^verbatim>\<open>SOL_SOCKET\<close> is 1, \<^verbatim>\<open>SO_PEERCRED\<close> 17, the credentials have 12 bytes.\<close>

definition getsockopt :: "nctx \<Rightarrow> int \<Rightarrow> int \<Rightarrow> int \<Rightarrow> ((u32 \<times> u32 \<times> u32) \<times> nat) outcome nm" where
  "getsockopt n fd level optname = do {
     r \<leftarrow> nask (kn_cred (n_k n)) (NGetsockopt fd level optname);
     s \<leftarrow> State_Monad.get;
     State_Monad.return (case r of
         Inl e \<Rightarrow> Fail e
       | Inr ((pid, uid, gid), optlen) \<Rightarrow>
           if level = 1 \<and> optname = 17 \<and> 12 \<le> optlen \<and> sp_fakeroot_on (n_env n)
           then Done ((pid, g_fake_uid (ws_ids (ns_w s)), g_fake_gid (ws_ids (ns_w s))), optlen)
           else Done ((pid, uid, gid), optlen))
   }"

text \<open>The fields of \<^verbatim>\<open>utsname\<close> have 65 bytes.\<close>

definition uname :: "nctx \<Rightarrow> utsname outcome nm" where
  "uname n = do {
     r \<leftarrow> nask (kn_uts (n_k n)) NUname;
     State_Monad.return (case r of
         Inl e \<Rightarrow> Fail e
       | Inr b \<Rightarrow>
           (let b1 = (case nonempty_or (getenv (n_env n) ''SPROUT_KERNEL_RELEASE'') None of
                        None \<Rightarrow> b
                      | Some e \<Rightarrow> b\<lparr>release := strncpy_z 65 e\<rparr>)
            in Done (if n_emu32 n then b1\<lparr>machine := ''i686''\<rparr> else b1)))
   }"

section \<open>The mount broker\<close>

text \<open>
  A line for the owner of the shadow table and its reply, over the interposer's own \<^verbatim>\<open>socket\<close>, \<^verbatim>\<open>connect\<close> and
  \<^verbatim>\<open>close\<close>. \<^verbatim>\<open>SOCK_STREAM | SOCK_CLOEXEC\<close> is 0x80001, a \<^verbatim>\<open>sockaddr_un\<close> has 110 bytes.
\<close>

definition ctl_path :: "env \<Rightarrow> cptr" where
  "ctl_path e =
     (case getenv e ''SPROUT_SHADOW_FILE'' of
        None \<Rightarrow> None
      | Some sf \<Rightarrow>
          (let ctl = snprintf_s SP_PATH_MAX sf in
           case strrchr ctl slash of None \<Rightarrow> None | Some i \<Rightarrow> Some (take (i + 1) ctl @ ''shadow.ctl'')))"

definition give_up :: "nctx \<Rightarrow> int \<Rightarrow> cptr nm" where
  "give_up n fd = do { _ \<leftarrow> close n fd; State_Monad.return None }"

definition sp_ctl_call :: "nctx \<Rightarrow> cstr \<Rightarrow> nat \<Rightarrow> cptr nm" where
  "sp_ctl_call n line rcap =
     (case ctl_path (n_env n) of
        None \<Rightarrow> State_Monad.return None
      | Some ctl \<Rightarrow> do {
          f \<leftarrow> socket n 1 0x80001 0;
          case f of
            Done fd \<Rightarrow> do {
              c \<leftarrow> connectc n fd (Some (Sun (strncpy_z 108 ctl))) 110;
              case c of
                Done _ \<Rightarrow> do {
                  v \<leftarrow> nint n (NWrite fd line);
                  if v \<noteq> Done (int (length line)) then give_up n fd
                  else do {
                    r \<leftarrow> nask (kn_str (n_k n)) (NRead fd (rcap - 1));
                    _ \<leftarrow> close n fd;
                    State_Monad.return (case r of Inl _ \<Rightarrow> None | Inr b \<Rightarrow> if b = [] then None else Some (take (rcap - 1) b))
                  }
                }
              | _ \<Rightarrow> give_up n fd
            }
          | _ \<Rightarrow> State_Monad.return None
        })"

definition says_ok :: "cptr \<Rightarrow> bool" where
  "says_ok reply = (case reply of None \<Rightarrow> False | Some r \<Rightarrow> strncmp_eq r ''ok'' 2)"

text \<open>What a mount shows: virtual file systems their own directory, a bind its source. \<^verbatim>\<open>MS_BIND\<close> is 4096.\<close>

definition mount_source :: "cptr \<Rightarrow> cptr \<Rightarrow> u64 \<Rightarrow> cptr" where
  "mount_source src fstype flags =
     (if fstype = Some ''proc'' then Some ''/proc''
      else if fstype = Some ''sysfs'' then Some ''/sys''
      else if fstype \<in> {Some ''devtmpfs'', Some ''devpts'', Some ''dev''} then Some ''/dev''
      else if fstype = Some ''mqueue'' then Some ''/dev/mqueue''
      else if fstype = Some ''shm'' then Some ''/dev/shm''
      else if flags AND 4096 \<noteq> 0 \<or> (case src of None \<Rightarrow> False | Some s \<Rightarrow> char_at s 0 = slash) then src
      else None)"

text \<open>The part of the host path below the share directory, empty when it is not there.\<close>

definition share_part :: "cptr \<Rightarrow> cptr \<Rightarrow> cstr" where
  "share_part hp0 sf0 =
     (case (hp0, sf0) of
        (Some hp, Some sf) \<Rightarrow>
          (let d = snprintf_s SP_PATH_MAX sf;
               dir = (case strrchr d slash of None \<Rightarrow> d | Some i \<Rightarrow> take i d);
               dl = length dir in
           if strncmp_eq hp dir dl \<and> char_at hp dl = slash \<and> strncmp_eq (drop (dl + 1) hp) ''share/'' 6
           then snprintf_s SP_PATH_MAX (drop (dl + 7) hp) else [])
      | _ \<Rightarrow> [])"

definition nxl :: "nctx \<Rightarrow> bool \<Rightarrow> cptr \<Rightarrow> xres nm" where
  "nxl n follow path = State (\<lambda>s. let (r, v) = run_state (xl (n_w n) follow path) (ns_w s) in (r, s\<lparr>ns_w := v\<rparr>))"

definition bind_line :: "cstr \<Rightarrow> cstr \<Rightarrow> cstr \<Rightarrow> cstr" where
  "bind_line target src host =
     snprintf_s (3 * SP_PATH_MAX) (''bind '' @ target @ '' '' @ src @ (if host \<noteq> [] then '' '' @ host else []) @ nl)"

definition mount :: "nctx \<Rightarrow> cptr \<Rightarrow> cptr \<Rightarrow> cptr \<Rightarrow> u64 \<Rightarrow> int outcome nm" where
  "mount n src target fstype flags =
     (case target of
        None \<Rightarrow> State_Monad.return (Fail EINVAL)
      | Some t \<Rightarrow>
          if char_at t 0 \<noteq> slash then State_Monad.return (Fail EINVAL)
          else if fstype = Some ''tmpfs'' \<or> fstype = Some ''ramfs'' then State_Monad.return (Done 0)
          else (case mount_source src fstype flags of
                  None \<Rightarrow> State_Monad.return (Fail EPERM)
                | Some q \<Rightarrow> do {
                    hp \<leftarrow> nxl n True (Some q);
                    let line = bind_line t q (share_part (ptr hp) (getenv (n_env n) ''SPROUT_SHADOW_FILE''));
                    reply \<leftarrow> sp_ctl_call n line 128;
                    if says_ok reply then State_Monad.return (Done 0)
                    else if getenv (n_env n) ''SPROUT_DEBUG'' \<noteq> None
                    then do { _ \<leftarrow> sp_ctl_call n line 128; State_Monad.return (Fail EPERM) }
                    else State_Monad.return (Fail EPERM)
                  }))"

definition umount :: "nctx \<Rightarrow> cptr \<Rightarrow> int outcome nm" where
  "umount n target =
     (case target of
        None \<Rightarrow> State_Monad.return (Fail EINVAL)
      | Some t \<Rightarrow> do {
          reply \<leftarrow> sp_ctl_call n (snprintf_s (SP_PATH_MAX + 16) (''unbind '' @ t @ nl)) 128;
          if says_ok reply then State_Monad.return (Done 0)
          else do {
            pong \<leftarrow> sp_ctl_call n (''ping'' @ nl) 128;
            State_Monad.return (Fail (if pong \<noteq> None then EINVAL else EPERM))
          }
        })"

definition umount2 :: "nctx \<Rightarrow> cptr \<Rightarrow> u32 \<Rightarrow> int outcome nm" where
  "umount2 n target flags = umount n target"

text \<open>Calls that the host would kill the process for.\<close>

definition swapon :: "cptr \<Rightarrow> u32 \<Rightarrow> int outcome nm" where
  "swapon path flags = State_Monad.return (Fail EPERM)"

definition swapoff :: "cptr \<Rightarrow> int outcome nm" where
  "swapoff path = State_Monad.return (Fail EPERM)"

definition acct :: "cptr \<Rightarrow> int outcome nm" where
  "acct path = State_Monad.return (Fail EPERM)"

definition pivot_root :: "cptr \<Rightarrow> cptr \<Rightarrow> int outcome nm" where
  "pivot_root new_root put_old = State_Monad.return (Fail EPERM)"

section \<open>Notions for the properties\<close>

text \<open>The port table as a function: the port a descriptor is reported with, 0 for the kernel's.\<close>

definition ports :: "nst \<Rightarrow> int \<Rightarrow> u16" where
  "ports s fd = sp_pmap_lookup (ns_pmap s) fd"

text \<open>Some slot is marked free, or holds the descriptor already. In the table of a fresh process no slot is marked free.\<close>

definition has_room :: "nst \<Rightarrow> int \<Rightarrow> bool" where
  "has_room s fd \<longleftrightarrow> pmap_slot (ns_pmap s) fd \<noteq> None"

text \<open>The ports of the descriptors other than \<open>fd\<close> after a bind of \<open>fd\<close> is remembered: without room the entry of slot 0 is gone.\<close>

definition other_ports :: "nst \<Rightarrow> int \<Rightarrow> int \<Rightarrow> u16" where
  "other_ports s fd fd' = (if has_room s fd then ports s fd' else sp_pmap_lookup (tl (ns_pmap s)) fd')"

text \<open>The port of an internet address of either version, and the size of its structure.\<close>

definition port_of :: "sockaddr \<Rightarrow> u16 option" where
  "port_of a = (case a of Sin p _ \<Rightarrow> Some p | Sin6 p _ \<Rightarrow> Some p | _ \<Rightarrow> None)"

definition addr_size :: "sockaddr \<Rightarrow> nat" where
  "addr_size a = (case a of Sin6 _ _ \<Rightarrow> 28 | _ \<Rightarrow> 16)"

section \<open>Lemmas\<close>

lemmas nrun = nint_def nask_def State_Monad.bind_def State_Monad.return_def State_Monad.get_def State_Monad.update_def State_Monad.set_def

lemma lookup_slot:
  "pmap_slot t fd = Some i \<Longrightarrow> sp_pmap_lookup (t[i := (fd, p)]) fd = p"
  "pmap_slot t fd = Some i \<Longrightarrow> fd' \<noteq> fd \<Longrightarrow> 0 \<le> fd' \<Longrightarrow> sp_pmap_lookup (t[i := (fd, p)]) fd' = sp_pmap_lookup t fd'"
  by (induction t arbitrary: i) (auto split: if_splits)

lemma lookup_remember:
  assumes "0 \<le> fd" "p \<noteq> 0" "t \<noteq> []"
  shows "sp_pmap_lookup (sp_pmap_remember fd p t) fd = p"
proof (cases "pmap_slot t fd")
  case None
  then show ?thesis using assms by (cases t) (auto simp: sp_pmap_remember_def)
next
  case (Some i)
  then show ?thesis using assms lookup_slot(1) [OF Some] by (simp add: sp_pmap_remember_def)
qed

lemma lookup_remember_other:
  assumes "fd' \<noteq> fd" "0 \<le> fd" "0 \<le> fd'" "p \<noteq> 0"
  shows "sp_pmap_lookup (sp_pmap_remember fd p (ns_pmap s)) fd' = other_ports s fd fd'"
proof (cases "pmap_slot (ns_pmap s) fd")
  case None
  then show ?thesis using assms by (cases "ns_pmap s") (auto simp: sp_pmap_remember_def other_ports_def has_room_def ports_def)
next
  case (Some i)
  then show ?thesis
    using assms lookup_slot(2) [OF Some] by (simp add: sp_pmap_remember_def other_ports_def has_room_def ports_def)
qed

lemma lookup_forget:
  "0 \<le> fd' \<Longrightarrow> sp_pmap_lookup (sp_pmap_forget fd t) fd' = (if fd' = fd then 0 else sp_pmap_lookup t fd')"
  by (induction t) (auto simp: sp_pmap_forget_def)

lemma run_bind_moved:
  "run_state (bind_moved n fd port a len) s =
     (case kn_int (n_k n) (ns_calls s) (NBind fd (Some a) len) of
        Inl e \<Rightarrow> (Fail e, s\<lparr>ns_calls := ns_calls s @ [NBind fd (Some a) len]\<rparr>)
      | Inr v \<Rightarrow> (Done v, s\<lparr>ns_calls := ns_calls s @ [NBind fd (Some a) len], ns_pmap := sp_pmap_remember fd port (ns_pmap s)\<rparr>))"
  by (simp add: bind_moved_def nrun split: sum.split)

lemma bind_low_port:
  assumes "portmap_on n" "port_of a = Some port" "low_port port"
  shows "bindc n fd (Some a) len = bind_moved n fd port (with_port (moved n port) a) (addr_size a)"
  using assms by (cases a) (simp_all add: bindc_def sp_addr_fwd_unix_def port_of_def with_port_def addr_size_def)

lemma run_close:
  "run_state (close n fd) s =
     (case kn_int (n_k n) (ns_calls s) (NClose fd) of
        Inl e \<Rightarrow> (Fail e, s\<lparr>ns_calls := ns_calls s @ [NClose fd]\<rparr>)
      | Inr v \<Rightarrow> (Done v, s\<lparr>ns_calls := ns_calls s @ [NClose fd], ns_pmap := sp_pmap_forget fd (ns_pmap s)\<rparr>))"
  by (simp add: close_def nrun split: sum.split)

lemma run_getsockname:
  assumes "portmap_on n" "kn_addr (n_k n) (ns_calls s) (NGetsockname fd) = Inr (x, ka, len)" "port_of ka = Some kp"
  shows "fst (run_state (getsockname n fd) s) = Done (with_port (if ports s fd \<noteq> 0 then ports s fd else kp) ka, len)"
  using assms
  by (cases ka) (simp_all add: getsockname_def nrun sp_addr_rev_unix_def with_port_def ports_def port_of_def)

text \<open>The guest finds its control messages after \<^verbatim>\<open>sendmsg\<close> as it left them.\<close>

lemma creds_loop_restores:
  assumes "creds_loop pid uid gid k i cs = (new, old)" "length pre = i"
  shows "creds_restore old (pre @ new) = pre @ cs"
  using assms
proof (induction cs arbitrary: k i new old pre)
  case Nil
  then show ?case by (simp add: creds_restore_def)
next
  case (Cons c cs)
  show ?case
  proof (cases "k \<ge> 4")
    case True
    then show ?thesis using Cons.prems by (simp add: creds_restore_def)
  next
    case False
    note k = False
    show ?thesis
    proof (cases c)
      case (Creds p u g)
      obtain n2 o2 where r: "creds_loop pid uid gid (k + 1) (i + 1) cs = (n2, o2)" by (cases "creds_loop pid uid gid (k + 1) (i + 1) cs")
      have new: "new = Creds pid uid gid # n2" "old = (i, c) # o2" using Cons.prems k Creds r by simp_all
      have "creds_restore o2 ((pre @ [Creds pid uid gid]) @ n2) = (pre @ [Creds pid uid gid]) @ cs"
        by (rule Cons.IH [OF r]) (use Cons.prems in simp)
      then show ?thesis unfolding Cons.prems(2) [symmetric] by (simp add: new Cons.prems(2) [symmetric] creds_restore_def list_update_append)
    next
      case (Cother b)
      obtain n2 o2 where r: "creds_loop pid uid gid k (i + 1) cs = (n2, o2)" by (cases "creds_loop pid uid gid k (i + 1) cs")
      have new: "new = c # n2" "old = o2" using Cons.prems k Cother r by simp_all
      have "creds_restore o2 ((pre @ [c]) @ n2) = (pre @ [c]) @ cs" by (rule Cons.IH [OF r]) (use Cons.prems in simp)
      then show ?thesis by (simp add: new)
    qed
  qed
qed

lemma creds_truth_restores: "sp_cmsg_creds_truth n m cs = (new, old) \<Longrightarrow> creds_restore old new = cs"
  using creds_loop_restores [of _ _ _ 0 0 cs new old "[]"]
  by (auto simp: sp_cmsg_creds_truth_def creds_restore_def split: if_splits)

lemma sendmsg_restores: "snd (fst (run_state (sendmsg n fd (Some m) flags) s)) = msg_control m"
proof -
  define m1 where "m1 = (case msg_name m of None \<Rightarrow> m | Some (a, len) \<Rightarrow>
    (case sp_addr_fwd_unix n (Some a) len of None \<Rightarrow> m | Some x \<Rightarrow> m\<lparr>msg_name := Some x\<rparr>))"
  have c: "msg_control m1 = msg_control m" by (simp add: m1_def split: option.split prod.split)
  show ?thesis
    using creds_truth_restores [of n m1]
    by (auto simp: sendmsg_def Let_def m1_def [symmetric] c nrun split: option.split prod.split)
qed

section \<open>Properties\<close>

text \<open>C36: A guest that binds a port below 1024 of either internet family is told that port. After a successful bind, the kernel having
  been asked for the moved port, \<^verbatim>\<open>getsockname\<close> reports the port asked for. Every other descriptor is reported as before when the
  table has a slot that is marked free or holds the descriptor already; otherwise, which includes the table of a fresh process,
  whose slots are zero and not marked free, the entry of slot 0 is lost. Once the descriptor is closed the kernel's port is
  reported for it again.\<close>

theorem port_reported:
  assumes "portmap_on n" "port_of a = Some port" "low_port port" "0 \<le> fd" "0 \<le> fd'" "ns_pmap s \<noteq> []"
    and "run_state (bindc n fd (Some a) len) s = (Done v, s1)"
    and "kn_addr (n_k n) (ns_calls s1) (NGetsockname fd') = Inr (x, ka, klen)" "port_of ka = Some kp"
    and "run_state (close n fd) s1 = (Done u, s2)"
  shows "ns_calls s1 = ns_calls s @ [NBind fd (Some (with_port (moved n port) a)) (addr_size a)]
    \<and> fst (run_state (getsockname n fd') s1) =
        Done (with_port (if fd' = fd then port else if other_ports s fd fd' \<noteq> 0 then other_ports s fd fd' else kp) ka, klen)
    \<and> ports s2 fd' = (if fd' = fd then 0 else other_ports s fd fd')"
proof -
  have p: "port \<noteq> 0" using assms(3) by (auto simp: low_port_def)
  have s1: "ns_calls s1 = ns_calls s @ [NBind fd (Some (with_port (moved n port) a)) (addr_size a)]"
      "ns_pmap s1 = sp_pmap_remember fd port (ns_pmap s)"
    using assms(7) unfolding bind_low_port [OF assms(1-3)] run_bind_moved by (auto split: sum.splits)
  have s2: "ns_pmap s2 = sp_pmap_forget fd (ns_pmap s1)"
    using assms(10) unfolding run_close by (auto split: sum.splits)
  have q: "ports s1 fd' = (if fd' = fd then port else other_ports s fd fd')"
    using lookup_remember [OF assms(4) p assms(6)] lookup_remember_other [of fd' fd port s] assms(4,5) p by (auto simp: ports_def s1)
  have "ports s2 fd' = (if fd' = fd then 0 else ports s1 fd')"
    using lookup_forget [OF assms(5), of fd "ns_pmap s1"] by (simp add: ports_def s2)
  then show ?thesis using s1(1) q p by (auto simp: run_getsockname [OF assms(1,8,9)])
qed

definition demo_n :: nctx where
  "demo_n = \<lparr>n_w = demo_w\<lparr>c_env := [''SPROUT_PORTMAP=1'']\<rparr>, n_emu32 = False,
     n_k = \<lparr>kn_int = (\<lambda>_ _. Inr 0), kn_addr = (\<lambda>_ _. Inr (0, Sin 1104 0, 16)), kn_cred = (\<lambda>_ _. Inl EINVAL), kn_str = (\<lambda>_ _. Inl EINVAL),
       kn_uts = (\<lambda>_ _. Inl EFAULT)\<rparr>\<rparr>"

definition demo_ns :: nst where
  "demo_ns = \<lparr>ns_w = demo_ws, ns_pmap = pmap_init, ns_calls = []\<rparr>"

theorem port_reported_witness:
  "fst (run_state (getsockname demo_n 5) (snd (run_state (bindc demo_n 5 (Some (Sin 80 0)) 16) demo_ns))) = Done (Sin 80 0, 16)"
proof -
  let ?b = "run_state (bindc demo_n 5 (Some (Sin 80 0)) 16) demo_ns"
  have on: "portmap_on demo_n" by code_simp
  have lp: "port_of (Sin 80 0) = Some 80" "low_port 80" by code_simp+
  have ne: "ns_pmap demo_ns \<noteq> []" by (simp add: demo_ns_def pmap_init_def SP_PMAP_MAX_def)
  have b: "?b = (Done 0, snd ?b)" unfolding bind_low_port [OF on lp] run_bind_moved by (simp add: demo_n_def)
  have c: "run_state (close demo_n 5) (snd ?b) = (Done 0, snd (run_state (close demo_n 5) (snd ?b)))"
    unfolding run_close by (simp add: demo_n_def)
  have k: "kn_addr (n_k demo_n) (ns_calls (snd ?b)) (NGetsockname 5) = Inr (0, Sin 1104 0, 16)" by (simp add: demo_n_def)
  have kp: "port_of (Sin 1104 0) = Some 1104" by code_simp
  show ?thesis using port_reported [OF on lp _ _ ne b k kp c] by (simp add: with_port_def)
qed

section \<open>Observations\<close>

text \<open>
  The table starts with zeros, which are no free slots: until descriptor 0 is closed there is one usable slot, and a second
  remapped bind makes the first one forgotten.
\<close>

lemma second_bind_forgets:
  "sp_pmap_lookup (sp_pmap_remember 6 22 (sp_pmap_remember 5 80 pmap_init)) 5 = 0
   \<and> sp_pmap_lookup (sp_pmap_remember 6 22 (sp_pmap_remember 5 80 (sp_pmap_forget 0 pmap_init))) 5 = 80"
  by code_simp

text \<open>A socket's name is translated with its last link followed.\<close>

lemma socket_name_chased:
  "sp_addr_fwd_unix (demo_n\<lparr>n_w := demo_w\<rparr>) (Some (Sun ''/etc'')) 7 = Some (Sun ''/r/b'', 7)"
  by code_simp

end
