(* ===== verification/Sprout_Symfix.thy ===== *)
theory Sprout_Symfix
  imports Sprout_Identity "HOL-Library.Multiset"
begin

text \<open>
  The library that fills gaps of the 32-bit emulator (\<^verbatim>\<open>sprout-symfix/symfix.c\<close>): the expansion of compressed domain names, a
  stable merge sort with a context argument, bounded random numbers, the lookup of a service, and the wait with a timeout.
  Pointers are 4 bytes there.
\<close>

section \<open>Domain names\<close>

text \<open>
  \<^verbatim>\<open>dn_expand\<close>. The message is a list of bytes, a pointer an offset; a read outside the message and a write outside the
  destination are the result \<open>Fault\<close>. \<open>Bad\<close> is \<^verbatim>\<open>-1\<close>; \<open>Name\<close> has the number of bytes consumed and the name stored.
\<close>

datatype expanded = Fault | Bad | Name nat cstr

definition char_of_byte :: "u8 \<Rightarrow> char" where
  "char_of_byte b = char_of (unat b)"

function dn_loop :: "u8 list \<Rightarrow> nat \<Rightarrow> nat \<Rightarrow> nat \<Rightarrow> cstr \<Rightarrow> nat \<Rightarrow> nat option \<Rightarrow> bool \<Rightarrow> expanded" where
  "dn_loop msg src dstsiz p out hops consumed fst_lab =
     (if p < length msg then
        (case rd8 msg p of
           None \<Rightarrow> Fault
         | Some c \<Rightarrow>
             if c = 0 then
               (if length out < dstsiz then Name (case consumed of Some n \<Rightarrow> n | None \<Rightarrow> p + 1 - src) out else Fault)
             else if c AND 0xC0 = 0xC0 then
               (if length msg \<le> p + 1 then Bad
                else case rd8 msg (p + 1) of
                  None \<Rightarrow> Fault
                | Some d \<Rightarrow>
                    (let q = unat (c AND 0x3F) * 256 + unat d in
                     if 128 < hops + 1 \<or> length msg \<le> q then Bad
                     else dn_loop msg src dstsiz q out (hops + 1) (case consumed of Some n \<Rightarrow> Some n | None \<Rightarrow> Some (p + 2 - src)) fst_lab))
             else if 63 < c \<or> length msg < p + 1 + unat c then Bad
             else if \<not> fst_lab \<and> dstsiz \<le> length out then Bad
             else
               (let out1 = (if fst_lab then out else out @ ''.'') in
                if dstsiz \<le> length out1 + unat c then Bad
                else case rdn msg (p + 1) (unat c) of
                  None \<Rightarrow> Fault
                | Some bs \<Rightarrow> dn_loop msg src dstsiz (p + 1 + unat c) (out1 @ map char_of_byte bs) hops consumed False))
      else Bad)"
  by pat_completeness auto
termination
  by (relation "measures [\<lambda>(msg, src, dstsiz, p, out, hops, consumed, fst_lab). 129 - hops,
        \<lambda>(msg, src, dstsiz, p, out, hops, consumed, fst_lab). length msg - p]") auto

declare dn_loop.simps [simp del]

definition dn_expand :: "u8 list \<Rightarrow> nat \<Rightarrow> int \<Rightarrow> expanded" where
  "dn_expand msg src dstsiz = (if dstsiz \<le> 0 then Bad else dn_loop msg src (nat dstsiz) src [] 0 None True)"

section \<open>Sorting\<close>

text \<open>\<^verbatim>\<open>msr_merge\<close>: the loop that takes the right element only when it is smaller, then the two copies of what is left.\<close>

fun merge_runs :: "('a \<Rightarrow> 'a \<Rightarrow> int) \<Rightarrow> 'a list \<Rightarrow> 'a list \<Rightarrow> 'a list" where
  "merge_runs cmp [] r = r"
| "merge_runs cmp (x # l) [] = x # l"
| "merge_runs cmp (x # l) (y # r) =
     (if cmp y x < 0 then y # merge_runs cmp (x # l) r else x # merge_runs cmp l (y # r))"

function msr_merge :: "('a \<Rightarrow> 'a \<Rightarrow> int) \<Rightarrow> 'a list \<Rightarrow> 'a list" where
  "msr_merge cmp a =
     (if length a < 2 then a
      else (let h = length a div 2 in merge_runs cmp (msr_merge cmp (take h a)) (msr_merge cmp (drop h a))))"
  by pat_completeness auto
termination by (relation "measure (\<lambda>(cmp, a). length a)") auto

declare msr_merge.simps [simp del]

text \<open>\<open>tmp\<close> tells whether the scratch memory is available, \<open>sz\<close> is the size of an element.\<close>

definition qsort_r :: "bool \<Rightarrow> nat \<Rightarrow> ('a \<Rightarrow> 'a \<Rightarrow> int) \<Rightarrow> 'a list \<Rightarrow> 'a list" where
  "qsort_r tmp sz cmp base = (if length base < 2 \<or> sz = 0 then base else if \<not> tmp then base else msr_merge cmp base)"

section \<open>Random numbers\<close>

definition uniform_limit :: "u32 \<Rightarrow> u32" where
  "uniform_limit upper = 0xFFFFFFFF - (0xFFFFFFFF mod upper) - 1"

text \<open>The draws of \<^verbatim>\<open>arc4random_buf\<close> in their order; \<open>None\<close> when they are used up before one is small enough.\<close>

fun uniform_loop :: "u32 \<Rightarrow> u32 \<Rightarrow> u32 list \<Rightarrow> u32 option" where
  "uniform_loop upper lim [] = None"
| "uniform_loop upper lim (v # vs) = (if lim < v then uniform_loop upper lim vs else Some (v mod upper))"

definition arc4random_uniform :: "u32 \<Rightarrow> u32 list \<Rightarrow> u32 option" where
  "arc4random_uniform upper draws = (if upper < 2 then Some 0 else uniform_loop upper (uniform_limit upper) draws)"

section \<open>Services\<close>

text \<open>The port is the value that \<^verbatim>\<open>htons\<close> is applied to.\<close>

record servent =
  s_name :: cstr
  s_proto :: cstr
  s_port :: u16

definition service_blank :: "char \<Rightarrow> bool" where
  "service_blank c \<longleftrightarrow> c \<in> {CHR '' '', CHR 0x09, CHR 0x0D, CHR 0x0A}"

text \<open>A call of \<^verbatim>\<open>strtok\<close> with blanks as delimiters: the token and what follows its delimiter.\<close>

definition token :: "cstr \<Rightarrow> (cstr \<times> cstr) option" where
  "token s =
     (let t = dropWhile service_blank s in
      if t = [] then None
      else Some (takeWhile (\<lambda>c. \<not> service_blank c) t, drop 1 (dropWhile (\<lambda>c. \<not> service_blank c) t)))"

text \<open>The name, the text of the port and the protocol of a line.\<close>

definition service_line :: "cstr \<Rightarrow> (cstr \<times> cstr \<times> cstr) option" where
  "service_line line0 =
     (let line = takeWhile (\<lambda>c. c \<noteq> CHR ''#'') line0 in
      case token line of
        None \<Rightarrow> None
      | Some (nm, r) \<Rightarrow>
          (case token r of
             None \<Rightarrow> None
           | Some (pp, _) \<Rightarrow>
               (case strchr pp slash of None \<Rightarrow> None | Some i \<Rightarrow> Some (nm, take i pp, drop (i + 1) pp))))"

fun services_loop :: "cstr \<Rightarrow> cptr \<Rightarrow> nat \<Rightarrow> cstr list \<Rightarrow> errno + servent" where
  "services_loop nm proto buflen [] = Inl ENOENT"
| "services_loop nm proto buflen (l # ls) =
     (case service_line l of
        None \<Rightarrow> services_loop nm proto buflen ls
      | Some (n, pt, pr) \<Rightarrow>
          if n \<noteq> nm \<or> (case proto of None \<Rightarrow> False | Some q \<Rightarrow> pr \<noteq> q) then services_loop nm proto buflen ls
          else if buflen < length n + 1 + length pr + 1 + 4 then Inl ERANGE
          else Inr \<lparr>s_name = n, s_proto = pr, s_port = word_of_int (atoi pt)\<rparr>)"

text \<open>\<open>file\<close> is the content of \<^verbatim>\<open>/etc/services\<close>; the caller gave an entry and a buffer.\<close>

definition getservbyname_r :: "cptr \<Rightarrow> cptr \<Rightarrow> nat \<Rightarrow> cstr option \<Rightarrow> errno + servent" where
  "getservbyname_r nm proto buflen file =
     (case nm of
        None \<Rightarrow> Inl EINVAL
      | Some n \<Rightarrow> (case file of None \<Rightarrow> Inl ENOENT | Some f \<Rightarrow> services_loop n proto buflen (fgets_all 512 f)))"

section \<open>Waiting\<close>

text \<open>The timeout in milliseconds for the older call: whole milliseconds, at least one for a time that is not zero, cut to 32 bits.\<close>

definition epoll_timeout :: "(int \<times> int) option \<Rightarrow> int" where
  "epoll_timeout t =
     (case t of
        None \<Rightarrow> - 1
      | Some (sec, nsec) \<Rightarrow>
          (let m = sec * 1000 + sgn nsec * (\<bar>nsec\<bar> div 1000000);
               m1 = (if m = 0 \<and> (sec \<noteq> 0 \<or> nsec \<noteq> 0) then 1 else m)
           in sint (word_of_int m1 :: u32)))"

definition epoll_pwait2 :: "errno + int \<Rightarrow> (int \<Rightarrow> errno + int) \<Rightarrow> (int \<times> int) option \<Rightarrow> errno + int" where
  "epoll_pwait2 direct older timeout = (if direct = Inl ENOSYS then older (epoll_timeout timeout) else direct)"

section \<open>Fixed answers\<close>

definition symfix_lchmod :: "cptr \<Rightarrow> u32 \<Rightarrow> errno + int" where
  "symfix_lchmod path mode = Inl ENOSYS"

definition res_nquery :: "cptr \<Rightarrow> int" where
  "res_nquery dname = - 1"

section \<open>Notions for the properties\<close>

definition consistent :: "('a \<Rightarrow> 'a \<Rightarrow> int) \<Rightarrow> 'a list \<Rightarrow> bool" where
  "consistent cmp xs \<longleftrightarrow>
     (\<forall>x \<in> set xs. \<forall>y \<in> set xs. \<not> (cmp x y < 0 \<and> cmp y x < 0)) \<and>
     (\<forall>x \<in> set xs. \<forall>y \<in> set xs. \<forall>z \<in> set xs. \<not> cmp y x < 0 \<longrightarrow> \<not> cmp z y < 0 \<longrightarrow> \<not> cmp z x < 0)"

definition not_after :: "('a \<Rightarrow> 'a \<Rightarrow> int) \<Rightarrow> 'a \<Rightarrow> 'a \<Rightarrow> bool" where
  "not_after cmp x y \<longleftrightarrow> \<not> cmp y x < 0"

definition same_rank :: "('a \<Rightarrow> 'a \<Rightarrow> int) \<Rightarrow> 'a \<Rightarrow> 'a \<Rightarrow> bool" where
  "same_rank cmp x y \<longleftrightarrow> not_after cmp x y \<and> not_after cmp y x"

text \<open>A reference to an offset.\<close>

definition name_pointer :: "nat \<Rightarrow> u8 list" where
  "name_pointer off = [0xC0 OR word_of_nat (off div 256), word_of_nat (off mod 256)]"

section \<open>Lemmas: sorting\<close>

lemma mset_merge_runs [simp]: "mset (merge_runs cmp l r) = mset l + mset r"
  by (induction cmp l r rule: merge_runs.induct) auto

lemma mset_msr_merge: "mset (msr_merge cmp a) = mset a"
proof (induction cmp a rule: msr_merge.induct)
  case (1 cmp a)
  have "mset (take h a) + mset (drop h a) = mset a" for h by (metis append_take_drop_id mset_append)
  then show ?case using 1 by (subst msr_merge.simps) (auto simp: Let_def)
qed

lemma consistent_sub: "consistent cmp xs \<Longrightarrow> set ys \<subseteq> set xs \<Longrightarrow> consistent cmp ys"
  unfolding consistent_def by blast

lemma consistent_trans:
  "consistent cmp xs \<Longrightarrow> x \<in> set xs \<Longrightarrow> y \<in> set xs \<Longrightarrow> z \<in> set xs \<Longrightarrow> not_after cmp x y \<Longrightarrow> not_after cmp y z \<Longrightarrow> not_after cmp x z"
  unfolding consistent_def not_after_def by blast

lemma set_merge_runs: "set (merge_runs cmp l r) = set l \<union> set r"
  by (induction cmp l r rule: merge_runs.induct) auto

lemma merge_runs_sorted:
  "consistent cmp (l @ r) \<Longrightarrow> sorted_wrt (not_after cmp) l \<Longrightarrow> sorted_wrt (not_after cmp) r
   \<Longrightarrow> sorted_wrt (not_after cmp) (merge_runs cmp l r)"
proof (induction cmp l r rule: merge_runs.induct)
  case (3 cmp x l y r)
  show ?case
  proof (cases "cmp y x < 0")
    case True
    have yx: "not_after cmp y x" using 3(3) True by (auto simp: consistent_def not_after_def)
    have "not_after cmp y z" if "z \<in> set (x # l)" for z
      using that yx 3(4) consistent_trans [OF 3(3), of y x z] by (cases "z = x") auto
    moreover have "consistent cmp ((x # l) @ r)" by (rule consistent_sub [OF 3(3)]) auto
    then have "sorted_wrt (not_after cmp) (merge_runs cmp (x # l) r)" using 3(1) [OF True] 3(4,5) by simp
    ultimately show ?thesis using True 3(5) by (auto simp: set_merge_runs)
  next
    case False
    then have xy: "not_after cmp x y" by (simp add: not_after_def)
    have "not_after cmp x z" if "z \<in> set (y # r)" for z
      using that xy 3(5) consistent_trans [OF 3(3), of x y z] by (cases "z = y") auto
    moreover have "consistent cmp (l @ y # r)" by (rule consistent_sub [OF 3(3)]) auto
    then have "sorted_wrt (not_after cmp) (merge_runs cmp l (y # r))" using 3(2) [OF False] 3(4,5) by simp
    ultimately show ?thesis using False 3(4) by (auto simp: set_merge_runs)
  qed
qed auto

text \<open>Elements of one rank keep their order: none of the left run is behind one of the right.\<close>

lemma merge_runs_stable:
  "consistent cmp (v # l @ r) \<Longrightarrow> sorted_wrt (not_after cmp) l
   \<Longrightarrow> filter (same_rank cmp v) (merge_runs cmp l r) = filter (same_rank cmp v) l @ filter (same_rank cmp v) r"
proof (induction cmp l r rule: merge_runs.induct)
  case (3 cmp x l y r)
  show ?case
  proof (cases "cmp y x < 0")
    case True
    have none: "filter (same_rank cmp v) (x # l) = []" if "same_rank cmp v y"
    proof -
      have "\<not> same_rank cmp v z" if z: "z \<in> set (x # l)" for z
      proof
        assume "same_rank cmp v z"
        then have "not_after cmp z y" using \<open>same_rank cmp v y\<close> z consistent_trans [OF 3(3), of z v y] by (auto simp: same_rank_def)
        moreover have "not_after cmp x z \<or> z = x" using z 3(4) by auto
        ultimately have "not_after cmp x y" using z consistent_trans [OF 3(3), of x z y] by auto
        then show False using True by (simp add: not_after_def)
      qed
      then show ?thesis by (simp add: filter_empty_conv)
    qed
    have "consistent cmp (v # (x # l) @ r)" by (rule consistent_sub [OF 3(3)]) auto
    then have IH: "filter (same_rank cmp v) (merge_runs cmp (x # l) r) = filter (same_rank cmp v) (x # l) @ filter (same_rank cmp v) r"
      using 3(1) [OF True] 3(4) by blast
    show ?thesis using True IH none by (cases "same_rank cmp v y") (simp_all del: filter.simps(2) add: filter.simps(2) [of _ y])
  next
    case False
    have "consistent cmp (v # l @ y # r)" by (rule consistent_sub [OF 3(3)]) auto
    then show ?thesis using 3(2) [OF False] 3(4) False by simp
  qed
qed auto

lemma msr_merge_sorts:
  "consistent cmp (v # a) \<Longrightarrow> sorted_wrt (not_after cmp) (msr_merge cmp a)
     \<and> filter (same_rank cmp v) (msr_merge cmp a) = filter (same_rank cmp v) a"
proof (induction cmp a rule: msr_merge.induct)
  case (1 cmp a)
  show ?case
  proof (cases "length a < 2")
    case True
    then have "msr_merge cmp a = a" by (subst msr_merge.simps) simp
    then show ?thesis using True by (cases a) (auto simp: less_Suc_eq)
  next
    case False
    define h where "h = length a div 2"
    let ?l = "msr_merge cmp (take h a)" and ?r = "msr_merge cmp (drop h a)"
    have eq: "msr_merge cmp a = merge_runs cmp ?l ?r" using False by (subst msr_merge.simps) (simp add: h_def Let_def)
    have sets: "set ?l \<subseteq> set a" "set ?r \<subseteq> set a"
      using set_take_subset [of h a] set_drop_subset [of h a] mset_eq_setD [OF mset_msr_merge] by metis+
    have cl: "consistent cmp (v # take h a)" and cr: "consistent cmp (v # drop h a)"
      by (rule consistent_sub [OF 1(3)], use set_take_subset [of h a] set_drop_subset [of h a] in auto)+
    have L: "sorted_wrt (not_after cmp) ?l" "filter (same_rank cmp v) ?l = filter (same_rank cmp v) (take h a)"
      using 1(1) [OF False h_def cl] by simp_all
    have R: "sorted_wrt (not_after cmp) ?r" "filter (same_rank cmp v) ?r = filter (same_rank cmp v) (drop h a)"
      using 1(2) [OF False h_def cr] by simp_all
    have c: "consistent cmp (v # ?l @ ?r)" by (rule consistent_sub [OF 1(3)]) (use sets in auto)
    then have c2: "consistent cmp (?l @ ?r)" by (rule consistent_sub) auto
    have "filter (same_rank cmp v) (take h a) @ filter (same_rank cmp v) (drop h a) = filter (same_rank cmp v) a"
      by (simp flip: filter_append)
    then show ?thesis
      unfolding eq using merge_runs_sorted [OF c2 L(1) R(1)] merge_runs_stable [OF c L(1)] L(2) R(2) by simp
  qed
qed

section \<open>Lemmas: names\<close>

lemma char_of_byte_of: "char_of_byte (byte_of c) = c"
proof -
  have "unat (of_char c :: u8) = of_char c" by (cases c) (simp add: of_char_def)
  then show ?thesis by (simp add: char_of_byte_def byte_of_def)
qed

text \<open>What a run of the loop keeps: the name leaves room for its NUL, and what was consumed is inside the message.\<close>

definition dn_ok :: "u8 list \<Rightarrow> nat \<Rightarrow> nat \<Rightarrow> expanded \<Rightarrow> bool" where
  "dn_ok msg src dstsiz r =
     (case r of Fault \<Rightarrow> False | Bad \<Rightarrow> True | Name n out \<Rightarrow> length out < dstsiz \<and> 0 < n \<and> src + n \<le> length msg)"

lemma byte_63: "\<not> 63 < (c :: u8) \<Longrightarrow> unat c \<le> 63"
  by (simp add: word_less_nat_alt)

text \<open>One iteration on each kind of byte.\<close>

lemma dn_zero:
  "p < length msg \<Longrightarrow> msg ! p = 0 \<Longrightarrow> length out < dstsiz
   \<Longrightarrow> dn_loop msg src dstsiz p out hops consumed f = Name (case consumed of Some n \<Rightarrow> n | None \<Rightarrow> p + 1 - src) out"
  by (subst dn_loop.simps) (simp add: rd8_def)

lemma dn_jump:
  assumes "p + 1 < length msg" "msg ! p AND 0xC0 = 0xC0" "q = unat (msg ! p AND 0x3F) * 256 + unat (msg ! (p + 1))" "hops < 128" "q < length msg"
  shows "dn_loop msg src dstsiz p out hops consumed f =
    dn_loop msg src dstsiz q out (hops + 1) (case consumed of Some n \<Rightarrow> Some n | None \<Rightarrow> Some (p + 2 - src)) f"
proof -
  have "msg ! p \<noteq> 0" using assms(2) by auto
  then show ?thesis using assms by (subst dn_loop.simps) (simp add: rd8_def Let_def)
qed

lemma dn_label:
  assumes "msg ! p \<noteq> 0" "msg ! p AND 0xC0 \<noteq> 0xC0" "\<not> 63 < msg ! p" "p + 1 + unat (msg ! p) \<le> length msg"
    and "out1 = (if f then out else out @ ''.'')" "length out1 + unat (msg ! p) < dstsiz"
  shows "dn_loop msg src dstsiz p out hops consumed f =
    dn_loop msg src dstsiz (p + 1 + unat (msg ! p)) (out1 @ map char_of_byte (take (unat (msg ! p)) (drop (p + 1) msg))) hops consumed False"
proof -
  have "p < length msg" "f \<or> \<not> dstsiz \<le> length out" using assms(4-6) by auto
  then show ?thesis using assms by (subst dn_loop.simps) (auto simp: rd8_def rdn_def Let_def)
qed

lemma dn_loop_cases:
  assumes "length out < dstsiz"
  obtains (bad) "dn_loop msg src dstsiz p out hops consumed f = Bad"
    | (stop) "p < length msg" "dn_loop msg src dstsiz p out hops consumed f = Name (case consumed of Some n \<Rightarrow> n | None \<Rightarrow> p + 1 - src) out"
    | (jump) q where "p + 1 < length msg" "hops < 128" "dn_loop msg src dstsiz p out hops consumed f =
        dn_loop msg src dstsiz q out (hops + 1) (case consumed of Some n \<Rightarrow> Some n | None \<Rightarrow> Some (p + 2 - src)) f"
    | (lab) n out1 where "p + 1 + n \<le> length msg" "length out1 < dstsiz"
        "dn_loop msg src dstsiz p out hops consumed f = dn_loop msg src dstsiz (p + 1 + n) out1 hops consumed False"
proof (cases "p < length msg")
  case False
  then show ?thesis by (intro bad) (subst dn_loop.simps, simp)
next
  case p: True
  define q where "q = unat (msg ! p AND 0x3F) * 256 + unat (msg ! (p + 1))"
  define o1 where "o1 = (if f then out else out @ ''.'')"
  consider "msg ! p = 0" | "msg ! p AND 0xC0 = 0xC0" | "msg ! p \<noteq> 0" "msg ! p AND 0xC0 \<noteq> 0xC0" by blast
  then show ?thesis
  proof cases
    case 1
    then show ?thesis by (intro stop p dn_zero assms)
  next
    case 2
    then have z: "msg ! p \<noteq> 0" by auto
    show ?thesis
    proof (cases "p + 1 < length msg \<and> hops < 128 \<and> q < length msg")
      case True
      then show ?thesis using 2 by (intro jump [of q] dn_jump) (simp_all add: q_def)
    next
      case False
      then show ?thesis using p 2 z by (intro bad) (subst dn_loop.simps, auto simp: rd8_def Let_def q_def)
    qed
  next
    case 3
    show ?thesis
    proof (cases "\<not> 63 < msg ! p \<and> p + 1 + unat (msg ! p) \<le> length msg \<and> length o1 + unat (msg ! p) < dstsiz")
      case True
      then show ?thesis using 3
        by (intro lab [of "unat (msg ! p)" "o1 @ map char_of_byte (take (unat (msg ! p)) (drop (p + 1) msg))"] dn_label) (auto simp: o1_def min_def)
    next
      case False
      then show ?thesis using p 3 by (intro bad) (subst dn_loop.simps, auto simp: rd8_def Let_def o1_def)
    qed
  qed
qed

definition dn_left :: "u8 list \<Rightarrow> nat \<Rightarrow> nat \<Rightarrow> nat" where
  "dn_left msg p hops = (129 - hops) * (length msg + 1) + (length msg - p)"

lemma dn_left_jump:
  assumes "hops < 128"
  shows "dn_left msg q (hops + 1) < dn_left msg p hops"
proof -
  have "129 - hops = Suc (129 - (hops + 1))" using assms by simp
  then show ?thesis unfolding dn_left_def by (simp only: mult_Suc)
qed

lemma dn_loop_ok:
  assumes "length out < dstsiz" "case consumed of None \<Rightarrow> src \<le> p | Some n \<Rightarrow> 0 < n \<and> src + n \<le> length msg"
  shows "dn_ok msg src dstsiz (dn_loop msg src dstsiz p out hops consumed f)"
  using assms
proof (induction "dn_left msg p hops" arbitrary: p out hops consumed f rule: less_induct)
  case less
  from less.prems(1) show ?case
  proof (cases rule: dn_loop_cases [where msg = msg and src = src and p = p and hops = hops and consumed = consumed and f = f])
    case bad
    then show ?thesis by (simp add: dn_ok_def)
  next
    case stop
    then show ?thesis using less.prems by (auto simp: dn_ok_def split: option.splits)
  next
    case (jump q)
    show ?thesis unfolding jump(3)
      using less.prems jump(1,2) by (intro less.hyps dn_left_jump) (auto split: option.splits)
  next
    case (lab n out1)
    show ?thesis unfolding lab(3)
      using less.prems lab(1,2) by (intro less.hyps) (auto simp: dn_left_def split: option.splits)
  qed
qed

text \<open>The loop over encoded labels, and over a reference.\<close>

definition glue :: "cstr \<Rightarrow> bool \<Rightarrow> cstr list \<Rightarrow> cstr" where
  "glue out f ls = (if ls = [] then out else (if f then out else out @ ''.'') @ dotted ls)"

lemma dotted_Cons: "ls \<noteq> [] \<Longrightarrow> dotted (l # ls) = l @ ''.'' @ dotted ls"
  by (cases ls) simp_all

lemma dotted_append: "ls \<noteq> [] \<Longrightarrow> rs \<noteq> [] \<Longrightarrow> dotted (ls @ rs) = dotted ls @ ''.'' @ dotted rs"
  by (induction ls rule: dotted.induct) (auto simp: dotted_Cons)

lemma glue_Cons: "glue ((if f then out else out @ ''.'') @ l) False ls = glue out f (l # ls)"
  by (cases ls) (auto simp: glue_def)

lemma glue_append: "glue (glue [] True ls) (ls = []) rs = dotted (ls @ rs)"
  by (auto simp: glue_def dotted_append)

lemma length_glue: "length ((if f then out else out @ ''.'') @ l) \<le> length (glue out f (l # ls))"
  by (cases ls) (auto simp: glue_def)

lemma dn_labels:
  assumes "list_all label_ok ls" "length (glue out f ls) < dstsiz" "msg = pre @ concat (map label ls) @ post"
  shows "dn_loop msg src dstsiz (length pre) out hops consumed f =
    dn_loop msg src dstsiz (length pre + length (concat (map label ls))) (glue out f ls) hops consumed (f \<and> ls = [])"
  using assms
proof (induction ls arbitrary: pre out f)
  case Nil
  then show ?case by (simp add: glue_def)
next
  case (Cons l ls)
  have l: "l \<noteq> []" "length l \<le> 63" using Cons.prems(1) by (auto simp: label_ok_def)
  let ?o = "if f then out else out @ ''.''"
  have m: "msg ! length pre = word_of_nat (length l)" by (simp add: Cons.prems(3) label_def)
  have b: "msg ! length pre \<noteq> 0" "msg ! length pre AND 0xC0 \<noteq> 0xC0" "unat (msg ! length pre) = length l"
    unfolding m using label_byte [of "length l"] l by simp_all
  have small: "\<not> 63 < msg ! length pre" using b(3) l(2) by (simp add: word_less_nat_alt)
  have t: "map char_of_byte (take (length l) (drop (length pre + 1) msg)) = l"
    by (simp add: Cons.prems(3) label_def char_of_byte_of comp_def)
  have "length ?o + length l < dstsiz" using length_glue [of f out l ls] Cons.prems(2) by simp
  then have "dn_loop msg src dstsiz (length pre) out hops consumed f =
      dn_loop msg src dstsiz (length (pre @ label l)) (?o @ l) hops consumed False"
    using dn_label [OF b(1,2) small _ refl, of f out dstsiz src hops consumed] t
    by (simp only: b(3)) (simp add: Cons.prems(3) label_def)
  also have "\<dots> = dn_loop msg src dstsiz (length (pre @ label l) + length (concat (map label ls))) (glue (?o @ l) False ls) hops consumed (False \<and> ls = [])"
    using Cons.prems by (intro Cons.IH) (simp_all add: glue_Cons)
  finally show ?case by (simp add: glue_Cons add.assoc)
qed

lemma name_pointer_bits:
  assumes "off < 0x4000"
  shows "(0xC0 OR word_of_nat (off div 256) :: u8) AND 0xC0 = 0xC0"
    "unat ((0xC0 OR word_of_nat (off div 256) :: u8) AND 0x3F) * 256 + unat (word_of_nat (off mod 256) :: u8) = off"
proof -
  let ?h = "word_of_nat (off div 256) :: u8"
  have c: "(0xC0 :: u8) = NOT (mask 6)" "(0x3F :: u8) = mask 6" by (simp_all add: mask_eq_exp_minus_1)
  have u: "unat ?h = off div 256" using assms by (intro unat_of_nat_small) simp
  have "take_bit 6 ?h = ?h" using u assms by (intro word_unat_eq_iff [THEN iffD2]) (simp add: take_bit_eq_mod unat_mod)
  then have low: "bit ?h n \<Longrightarrow> n < 6" for n by (metis bit_take_bit_iff)
  show "(0xC0 OR ?h) AND 0xC0 = 0xC0" by (rule bit_word_eqI) (auto simp: bit_and_iff bit_or_iff)
  have "(0xC0 OR ?h) AND 0x3F = ?h"
    unfolding c by (rule bit_word_eqI) (auto simp: bit_and_iff bit_or_iff bit_not_iff bit_mask_iff dest: low)
  then show "unat ((0xC0 OR ?h) AND 0x3F) * 256 + unat (word_of_nat (off mod 256) :: u8) = off"
    using unat_of_nat_small [of "off mod 256", where 'a = 8] by (simp add: u)
qed

lemma dn_expand_pos: "0 < d \<Longrightarrow> dn_expand msg src (int d) = dn_loop msg src d src [] 0 None True"
  by (simp add: dn_expand_def)

lemma dn_pointer:
  assumes "off < 0x4000" "msg = pre @ name_pointer off @ post" "hops < 128" "off < length msg"
  shows "dn_loop msg src d (length pre) out hops consumed f =
    dn_loop msg src d off out (hops + 1) (case consumed of Some n \<Rightarrow> Some n | None \<Rightarrow> Some (length pre + 2 - src)) f"
proof (rule dn_jump)
  have m: "msg ! length pre = 0xC0 OR word_of_nat (off div 256)" "msg ! (length pre + 1) = word_of_nat (off mod 256)"
    by (simp_all add: assms(2) name_pointer_def nth_append)
  show "msg ! length pre AND 0xC0 = 0xC0" "off = unat (msg ! length pre AND 0x3F) * 256 + unat (msg ! (length pre + 1))"
    unfolding m using name_pointer_bits [OF assms(1)] by simp_all
qed (use assms in \<open>simp_all add: name_pointer_def\<close>)

section \<open>Lemmas: the other calls\<close>

lemma uniform_loop_range: "0 < upper \<Longrightarrow> uniform_loop upper lim vs = Some r \<Longrightarrow> r < upper"
  by (induction vs) (auto split: if_splits simp: word_less_nat_alt unat_mod)

text \<open>
  The limit is one less than a multiple of the bound, so the accepted draws give every remainder equally often.
\<close>

lemma uniform_limit_multiple:
  assumes "2 \<le> upper"
  obtains k where "unat (uniform_limit upper) + 1 = k * unat upper" "0 < k" "0xFFFFFFFF < unat (uniform_limit upper) + 1 + unat upper"
proof -
  let ?m = "0xFFFFFFFF :: nat"
  have u: "2 \<le> unat upper" "unat upper \<le> ?m" using assms unsigned_less [of upper, where 'a = nat] by (simp_all add: word_le_nat_alt)
  have r: "unat (0xFFFFFFFF mod upper) = ?m mod unat upper" by (simp add: unat_mod)
  have lt: "?m mod unat upper < unat upper" using u by simp
  have eq: "?m = unat upper * (?m div unat upper) + ?m mod unat upper" by simp
  have pos: "0 < ?m div unat upper" using u by (simp add: div_greater_zero_iff)
  have le: "unat upper \<le> unat upper * (?m div unat upper)" using pos by simp
  have "unat (0xFFFFFFFF - 0xFFFFFFFF mod upper :: u32) = ?m - ?m mod unat upper"
    using r by (subst unat_sub) (simp_all add: word_le_nat_alt)
  moreover have "?m - ?m mod unat upper = unat upper * (?m div unat upper)" using eq by linarith
  ultimately have a: "unat (0xFFFFFFFF - 0xFFFFFFFF mod upper :: u32) = unat upper * (?m div unat upper)" by simp
  then have "unat (uniform_limit upper) = unat upper * (?m div unat upper) - 1"
    unfolding uniform_limit_def using u le by (subst unat_sub) (simp_all add: word_le_nat_alt)
  then show ?thesis using that [of "?m div unat upper"] pos le u lt eq by (simp add: mult.commute)
qed

text \<open>When no source of randomness works every draw is the same; it is accepted, so the call still returns.\<close>

lemma uniform_fallback_returns:
  assumes "2 \<le> upper"
  shows "arc4random_uniform upper [0x5A5A5A5A] = Some (0x5A5A5A5A mod upper)"
proof -
  obtain k where k: "unat (uniform_limit upper) + 1 = k * unat upper" "0 < k" "0xFFFFFFFF < unat (uniform_limit upper) + 1 + unat upper"
    using uniform_limit_multiple [OF assms] by blast
  have "unat upper \<le> k * unat upper" using k(2) by simp
  then have "\<not> unat (uniform_limit upper) < 0x5A5A5A5A" using k(1,3) by linarith
  then have "\<not> uniform_limit upper < 0x5A5A5A5A" by (simp add: word_less_nat_alt)
  then show ?thesis using leD [OF assms] by (simp add: arc4random_uniform_def)
qed

text \<open>A service that is returned is named by a line of the file, with the protocol asked for, and its strings fit into the buffer.\<close>

lemma services_loop_found:
  "services_loop nm proto buflen ls = Inr e
   \<Longrightarrow> (\<exists>l \<in> set ls. \<exists>pt. service_line l = Some (nm, pt, s_proto e) \<and> s_port e = word_of_int (atoi pt))
     \<and> s_name e = nm \<and> (proto = None \<or> proto = Some (s_proto e)) \<and> length nm + length (s_proto e) + 6 \<le> buflen"
  by (induction ls) (auto split: option.splits if_splits)

text \<open>The array stays as it is, and no error is reported, when the scratch memory cannot be allocated.\<close>

lemma qsort_r_gives_up: "qsort_r False 4 (\<lambda>x y. x - y) [2, 1 :: int] = [2, 1]"
  by (simp add: qsort_r_def)

text \<open>A wait of 50 days is cut to 32 bits and becomes a wait of some hours; one of 25 days becomes an endless wait.\<close>

lemma epoll_timeout_wraps:
  "epoll_timeout (Some (4320000, 0)) = 25032704" "epoll_timeout (Some (2160000, 0)) = - 2134967296"
  by (simp_all add: epoll_timeout_def Let_def sint_uint)

section \<open>Properties\<close>

text \<open>
  C38: \<^verbatim>\<open>dn_expand\<close> on every message, valid or not: it ends, reads no byte outside the message, and writes no byte outside the destination. When it
  reports success the name and its NUL fit into the destination, and the count it returns is positive and stays inside the message.
\<close>

theorem dn_expand_safe: "dn_ok msg src (nat dstsiz) (dn_expand msg src dstsiz)"
proof (cases "dstsiz \<le> 0")
  case True
  then show ?thesis by (simp add: dn_expand_def dn_ok_def)
next
  case False
  then show ?thesis unfolding dn_expand_def by (simp add: dn_loop_ok)
qed

text \<open>
  C39: \<^verbatim>\<open>dn_expand\<close> inverts name compression: labels followed by a reference to a name that stands earlier in the message expand to
  the dotted name of both, and the count is what the labels and the two bytes of the reference take.
\<close>

theorem dn_expand_decompresses:
  assumes "list_all label_ok (ls @ rest)" "length (dotted (ls @ rest)) < d" "length pre < 0x4000"
    and msg: "msg = pre @ concat (map label rest) @ 0 # mid @ concat (map label ls) @ name_pointer (length pre) @ post"
    and src: "src = length pre + length (concat (map label rest)) + 1 + length mid"
  shows "dn_expand msg src (int d) = Name (length (concat (map label ls)) + 2) (dotted (ls @ rest))"
proof -
  let ?R = "concat (map label rest)" and ?L = "concat (map label ls)"
  have ok: "list_all label_ok ls" "list_all label_ok rest" using assms(1) by simp_all
  have g: "length (glue [] True ls) < d" using assms(2) by (cases "ls = [] \<or> rest = []") (auto simp: glue_def dotted_append)
  have g2: "length (glue (glue [] True ls) (ls = []) rest) < d" using assms(2) by (simp only: glue_append)
  have "dn_expand msg src (int d) = dn_loop msg src d src [] 0 None True" using assms(2) by (intro dn_expand_pos) simp
  also have "\<dots> = dn_loop msg src d (src + length ?L) (glue [] True ls) 0 None (ls = [])"
    using dn_labels [OF ok(1) g, of msg "pre @ ?R @ 0 # mid" "name_pointer (length pre) @ post"] by (simp add: msg src ac_simps)
  also have "\<dots> = dn_loop msg src d (length pre) (glue [] True ls) 1 (Some (length ?L + 2)) (ls = [])"
    using dn_pointer [OF assms(3), of msg "pre @ ?R @ 0 # mid @ ?L" post 0] by (simp add: msg src ac_simps)
  also have "\<dots> = dn_loop msg src d (length pre + length ?R) (dotted (ls @ rest)) 1 (Some (length ?L + 2)) (ls = [] \<and> rest = [])"
    using dn_labels [OF ok(2) g2, of msg pre "0 # mid @ ?L @ name_pointer (length pre) @ post"] by (simp only: msg glue_append append_assoc append_Cons)
  also have "\<dots> = Name (length ?L + 2) (dotted (ls @ rest))"
    using assms(2) by (subst dn_zero) (simp_all add: msg nth_append)
  finally show ?thesis .
qed

theorem dn_expand_decompresses_witness:
  "dn_expand ([7] @ concat (map label [''org'']) @ 0 # [9, 9] @ concat (map label [''a'', ''bc'']) @ name_pointer 1 @ [5]) 8 (int 9)
     = Name 7 ''a.bc.org''"
  using dn_expand_decompresses [of "[''a'', ''bc'']" "[''org'']" 9 "[7]" _ "[9, 9]" "[5]" 8]
  by (simp add: label_ok_def label_def)

text \<open>
  C40: \<^verbatim>\<open>qsort_r\<close> with a consistent comparison and scratch memory: the array holds the same elements, in order, and elements that compare
  equal keep the order they had.
\<close>

theorem qsort_r_sorts:
  assumes "consistent cmp base" "0 < sz"
  shows "mset (qsort_r True sz cmp base) = mset base \<and> sorted_wrt (not_after cmp) (qsort_r True sz cmp base)
    \<and> (\<forall>v \<in> set base. filter (same_rank cmp v) (qsort_r True sz cmp base) = filter (same_rank cmp v) base)"
proof -
  have eq: "qsort_r True sz cmp base = msr_merge cmp base" using assms(2) by (simp add: qsort_r_def msr_merge.simps)
  have c: "consistent cmp (v # base)" if "v \<in> set base" for v by (rule consistent_sub [OF assms(1)]) (use that in auto)
  show ?thesis
  proof (cases base)
    case Nil
    then show ?thesis by (simp add: qsort_r_def)
  next
    case (Cons v b)
    then show ?thesis unfolding eq using msr_merge_sorts [OF c] mset_msr_merge [of cmp base] by auto
  qed
qed

theorem qsort_r_sorts_witness:
  "sorted_wrt (not_after (\<lambda>x y. fst x - fst y)) (qsort_r True 8 (\<lambda>x y. fst x - fst y) [(2, CHR ''a''), (1 :: int, CHR ''b''), (2, CHR ''c'')])
   \<and> filter (same_rank (\<lambda>x y. fst x - fst y) (2, CHR ''a'')) (qsort_r True 8 (\<lambda>x y. fst x - fst y) [(2, CHR ''a''), (1 :: int, CHR ''b''), (2, CHR ''c'')])
     = [(2, CHR ''a''), (2, CHR ''c'')]"
  using qsort_r_sorts [of "\<lambda>x y. fst x - fst y" "[(2, CHR ''a''), (1 :: int, CHR ''b''), (2, CHR ''c'')]" 8]
  by (simp add: consistent_def same_rank_def not_after_def)

end
