(* ===== verification/Sprout_Image.thy ===== *)
theory Sprout_Image
  imports Sprout_Xlate
begin

text \<open>
  Program images, as the exec chain of \<^verbatim>\<open>sprout_preload.c\<close> inspects and derives them: the
  classification of a file as script, dynamic or static ELF (\<^verbatim>\<open>sp_classify_host\<close>), the ELF identity
  (\<^verbatim>\<open>sp_elf_meta\<close>), the test for a bionic interpreter, the abi-clean copy and the
  derivative of an emulator whose PT_INTERP names the sanitized loader. A file is the list of its
  bytes; \<^verbatim>\<open>fread\<close> or \<^verbatim>\<open>pread\<close> at an offset gives the bytes that are there, possibly fewer than asked for.
\<close>

unbundle bit_operations_syntax

section \<open>Bytes of a file\<close>

type_synonym bytes = "u8 list"

definition byte_char :: "u8 \<Rightarrow> char" where
  "byte_char b = char_of (unat b)"

definition char_byte :: "char \<Rightarrow> u8" where
  "char_byte c = word_of_nat (of_char c)"

text \<open>The C string that starts a buffer.\<close>

definition cstr_of :: "bytes \<Rightarrow> cstr" where
  "cstr_of bs = map byte_char (takeWhile (\<lambda>b. b \<noteq> 0) bs)"

definition bytes_of :: "cstr \<Rightarrow> bytes" where
  "bytes_of s = map char_byte s"

definition read_at :: "bytes \<Rightarrow> nat \<Rightarrow> nat \<Rightarrow> bytes" where
  "read_at f off n = take n (drop off f)"

fun le_val :: "bytes \<Rightarrow> nat" where
  "le_val [] = 0"
| "le_val (b # bs) = unat b + 256 * le_val bs"

definition le_at :: "bytes \<Rightarrow> nat \<Rightarrow> nat \<Rightarrow> nat" where
  "le_at f off n = le_val (read_at f off n)"

fun le_bytes :: "nat \<Rightarrow> nat \<Rightarrow> bytes" where
  "le_bytes 0 v = []"
| "le_bytes (Suc n) v = word_of_nat (v mod 256) # le_bytes n (v div 256)"

text \<open>\<^verbatim>\<open>pwrite\<close> inside a file.\<close>

definition write_at :: "bytes \<Rightarrow> nat \<Rightarrow> bytes \<Rightarrow> bytes" where
  "write_at f off new = take off f @ new @ drop (off + length new) f"

definition elf_magic :: bytes where
  "elf_magic = [0x7f, 0x45, 0x4c, 0x46]"

definition PT_LOAD :: nat where "PT_LOAD = 1"
definition PT_INTERP :: nat where "PT_INTERP = 3"

section \<open>sp_classify_host\<close>

datatype hclass = NotElf | ElfDynamic cstr | ElfStatic | Script cstr cstr

definition blank_byte :: "u8 \<Rightarrow> bool" where
  "blank_byte b \<longleftrightarrow> b = 0x20 \<or> b = 0x09"

definition eol_byte :: "u8 \<Rightarrow> bool" where
  "eol_byte b \<longleftrightarrow> b = 0x0A \<or> b = 0x0D"

text \<open>The interpreter word and the rest of the line, without trailing blanks, as one argument.\<close>

definition parse_shebang :: "bytes \<Rightarrow> hclass" where
  "parse_shebang head =
     (let r = dropWhile blank_byte (drop 2 head);
          word = takeWhile (\<lambda>b. \<not> blank_byte b \<and> \<not> eol_byte b) r;
          r2 = dropWhile blank_byte (drop (length word) r);
          opt = takeWhile (\<lambda>b. \<not> eol_byte b) r2 in
      Script (cstr_of word) (cstr_of (rev (dropWhile blank_byte (rev opt)))))"

text \<open>
  The scan of the program headers. The offset of entry \<open>i\<close> is computed in 32 bits; a short read, an
  oversized or empty PT_INTERP or an offset beyond \<open>2 ^ 63\<close> leaves the loop.
\<close>

fun classify_phdrs :: "bytes \<Rightarrow> u32 \<Rightarrow> u32 \<Rightarrow> nat \<Rightarrow> nat \<Rightarrow> hclass" where
  "classify_phdrs f phoff entsz 0 i = ElfStatic"
| "classify_phdrs f phoff entsz (Suc n) i =
     (let ph = read_at f (unat (phoff + word_of_nat i * entsz)) 56 in
      if length ph \<noteq> 56 then ElfStatic
      else if le_at ph 0 4 \<noteq> PT_INTERP then classify_phdrs f phoff entsz n (Suc i)
      else
        (let off = le_at ph 8 8; sz = le_at ph 32 8; s = read_at f off sz in
         if sz = 0 \<or> SP_PATH_MAX \<le> sz then ElfStatic
         else if 2 ^ 63 \<le> off then ElfStatic
         else if length s \<noteq> sz then ElfStatic
         else (let interp = cstr_of (take (sz - 1) s) in if interp \<noteq> [] then ElfDynamic interp else NotElf)))"

definition sp_classify_host :: "bytes option \<Rightarrow> hclass" where
  "sp_classify_host file =
     (case file of
        None \<Rightarrow> NotElf
      | Some f \<Rightarrow>
          (let head = read_at f 0 256 in
           if 2 \<le> length head \<and> head ! 0 = 0x23 \<and> head ! 1 = 0x21 then parse_shebang head
           else if length head < 64 \<or> take 4 head \<noteq> elf_magic \<or> head ! 4 \<noteq> 2 then NotElf
           else
             (let phoff = word_of_nat (le_at head 32 8) :: u32;
                  entsz = le_at head 54 2; num = le_at head 56 2 in
              if entsz < 56 \<or> num = 0 \<or> 64 < num then NotElf
              else classify_phdrs f phoff (word_of_nat entsz) num 0)))"

section \<open>sp_elf_meta and sp_elf_interp_bionic\<close>

record elf_meta =
  e_class :: u8
  e_machine :: nat
  has_interp :: bool

text \<open>The entries are read one after the other; fewer than four bytes end the scan.\<close>

fun meta_phdrs :: "bytes \<Rightarrow> nat \<Rightarrow> nat \<Rightarrow> nat \<Rightarrow> bool" where
  "meta_phdrs f off entsz 0 = False"
| "meta_phdrs f off entsz (Suc n) =
     (let ph = read_at f off entsz in
      if length ph < 4 then False
      else if le_at ph 0 4 = PT_INTERP then True
      else meta_phdrs f (off + length ph) entsz n)"

definition sp_elf_meta :: "bytes option \<Rightarrow> elf_meta option" where
  "sp_elf_meta file =
     (case file of
        None \<Rightarrow> None
      | Some f \<Rightarrow>
          (let head = read_at f 0 64; n = length head in
           if n < 20 \<or> take 4 head \<noteq> elf_magic then None
           else
             (let cl = head ! 4; mach = le_at head 18 2;
                  scan = (\<lambda>phoff entsz num.
                    0 < num \<and> num \<le> 256 \<and> 4 \<le> entsz \<and> entsz \<le> 128 \<and> phoff < 2 ^ 63 \<and> meta_phdrs f phoff entsz num) in
              Some \<lparr>e_class = cl, e_machine = mach,
                    has_interp =
                      (if cl = 2 \<and> 58 \<le> n then scan (le_at head 32 8) (le_at head 54 2) (le_at head 56 2)
                       else if cl = 1 \<and> 44 \<le> n then scan (le_at head 28 4) (le_at head 42 2) (le_at head 44 2)
                       else False)\<rparr>)))"

fun bionic_phdrs :: "bytes \<Rightarrow> u64 \<Rightarrow> nat \<Rightarrow> nat \<Rightarrow> nat \<Rightarrow> bool" where
  "bionic_phdrs f phoff entsz 0 i = False"
| "bionic_phdrs f phoff entsz (Suc n) i =
     (let off = unat (phoff + word_of_nat i * word_of_nat entsz); ph = read_at f off 56 in
      if 2 ^ 63 \<le> off \<or> length ph \<noteq> 56 then False
      else if le_at ph 0 4 \<noteq> PT_INTERP then bionic_phdrs f phoff entsz n (Suc i)
      else
        (let sz = min 220 (le_at ph 32 4); s = read_at f (le_at ph 8 4) sz in
         length s = sz \<and> strstr (cstr_of s) ''/system/bin/linker''))"

definition sp_elf_interp_bionic :: "bytes option \<Rightarrow> bool" where
  "sp_elf_interp_bionic file =
     (case file of
        None \<Rightarrow> False
      | Some f \<Rightarrow>
          (let eh = read_at f 0 64 in
           length eh = 64 \<and> take 4 eh = elf_magic \<and> eh ! 4 = 2
           \<and> bionic_phdrs f (word_of_nat (le_at eh 32 8)) (le_at eh 54 2) (min 16 (le_at eh 56 2)) 0))"

section \<open>The abi-clean copy\<close>

definition fnv_step :: "u64 \<Rightarrow> u64 \<Rightarrow> u64" where
  "fnv_step h v = (h XOR v) * 1099511628211"

definition FNV_BASIS :: u64 where
  "FNV_BASIS = 1469598103934665603"

definition sp_fnv1a :: "cstr \<Rightarrow> u64" where
  "sp_fnv1a s = foldl (\<lambda>h c. fnv_step h (of_char c)) FNV_BASIS s"

text \<open>\<^verbatim>\<open>%llx\<close> and \<^verbatim>\<open>%016llx\<close>.\<close>

definition hexdig :: "nat \<Rightarrow> char" where
  "hexdig n = (if n < 10 then char_of (48 + n) else char_of (87 + n))"

fun hex :: "nat \<Rightarrow> cstr" where
  "hex n = (if n < 16 then [hexdig n] else hex (n div 16) @ [hexdig (n mod 16)])"

declare hex.simps [simp del]

definition hex16 :: "u64 \<Rightarrow> cstr" where
  "hex16 w = (let h = hex (unat w) in replicate (16 - length h) (CHR ''0'') @ h)"

record fstat =
  st_ino :: u64
  st_size :: u64
  st_mtime :: u64

definition abi_dirty :: "bytes \<Rightarrow> bool" where
  "abi_dirty f \<longleftrightarrow> 16 \<le> length f \<and> take 4 f = elf_magic \<and> (\<exists>k \<in> set [8..<16]. f ! k \<noteq> 0)"

definition abi_hash :: "bytes \<Rightarrow> fstat \<Rightarrow> u64" where
  "abi_hash f st =
     fnv_step (fnv_step (foldl (\<lambda>h b. fnv_step h (ucast b)) FNV_BASIS (take 16 f)) (st_size st)) (st_mtime st)"

definition abi_copy_path :: "cstr \<Rightarrow> bytes \<Rightarrow> fstat \<Rightarrow> cstr" where
  "abi_copy_path ld f st =
     (let dl = (case strrchr ld slash of None \<Rightarrow> 0 | Some i \<Rightarrow> i) in
      snprintf_s SP_PATH_MAX (take dl ld @ ''/abifix-'' @ hex16 (abi_hash f st) @ ''.bin''))"

definition abi_copy :: "bytes \<Rightarrow> bytes" where
  "abi_copy f = take 8 f @ replicate 8 0 @ drop 16 f"

text \<open>
  \<^verbatim>\<open>sp_abi_cleanse\<close> with its one-entry memo; \<open>file\<close> is the content of the image, None when it cannot be opened,
  \<open>made p\<close> tells whether the copy at \<open>p\<close> can be statted after the attempt to write it.
\<close>

definition sp_abi_cleanse ::
  "cptr \<Rightarrow> (cstr \<Rightarrow> bytes option) \<Rightarrow> (cstr \<Rightarrow> fstat) \<Rightarrow> (cstr \<Rightarrow> bool) \<Rightarrow> cstr \<Rightarrow> cstr \<times> cstr \<Rightarrow> cstr \<times> cstr \<times> cstr" where
  "sp_abi_cleanse loader file stat made host prev =
     (let (last_in, last_out) = prev in
      if last_in \<noteq> [] \<and> host = last_in then (last_out, prev)
      else
        (let out = (case file host of
                      None \<Rightarrow> host
                    | Some f \<Rightarrow>
                        (if \<not> abi_dirty f then host
                         else (case nonempty_or loader None of
                                 None \<Rightarrow> host
                               | Some ld \<Rightarrow> let cp = abi_copy_path ld f (stat host) in if made cp then cp else host)));
             o2 = snprintf_s SP_PATH_MAX out in
         (o2, snprintf_s SP_PATH_MAX host, o2)))"

section \<open>The derivative of a fixed-base emulator\<close>

definition sp_emu_fixed_base :: "cstr \<Rightarrow> bool" where
  "sp_emu_fixed_base base \<longleftrightarrow> base = ''box64'' \<or> base = ''box32''"

definition basename :: "cstr \<Rightarrow> cstr" where
  "basename p = (case strrchr p slash of None \<Rightarrow> p | Some i \<Rightarrow> drop (Suc i) p)"

text \<open>The name of the derivative: directory of the loader, stem of the program, and a content key.\<close>

definition derivative_path :: "cstr \<Rightarrow> cstr \<Rightarrow> fstat \<Rightarrow> cstr option" where
  "derivative_path loader host st =
     (let d = snprintf_s SP_PATH_MAX loader in
      case strrchr d slash of
        None \<Rightarrow> None
      | Some i \<Rightarrow>
          if i = 0 then None
          else if 240 < length loader + 1 then None
          else
            (let stem = take 24 (takeWhile (\<lambda>c. c \<noteq> CHR ''.'') (basename host)) in
             Some (snprintf_s SP_PATH_MAX
               (take i d @ ''/emu-direct-'' @ stem @ ''-'' @ hex (unat (st_ino st)) @ ''-'' @ hex (unat (st_mtime st))
                 @ ''-'' @ hex (unat (st_size st)) @ ''-'' @ hex (unat (sp_fnv1a loader))))))"

record phscan =
  interp_at :: nat
  last_load_at :: nat
  last_load_off :: nat
  last_load_va :: nat

definition phscan0 :: phscan where
  "phscan0 = \<lparr>interp_at = 0, last_load_at = 0, last_load_off = 0, last_load_va = 0\<rparr>"

definition phdr_entry :: "bytes \<Rightarrow> nat \<Rightarrow> phscan \<Rightarrow> phscan" where
  "phdr_entry ph at s =
     (let s1 = (if le_at ph 0 4 = PT_LOAD \<and> last_load_off s \<le> le_at ph 8 8
                then s\<lparr>last_load_at := at, last_load_off := le_at ph 8 8, last_load_va := le_at ph 16 8\<rparr> else s) in
      if le_at ph 0 4 = PT_INTERP then s1\<lparr>interp_at := at\<rparr> else s1)"

fun scan_phdrs :: "bytes \<Rightarrow> nat \<Rightarrow> nat \<Rightarrow> nat \<Rightarrow> nat \<Rightarrow> phscan \<Rightarrow> phscan" where
  "scan_phdrs f phoff entsz 0 i s = s"
| "scan_phdrs f phoff entsz (Suc n) i s =
     (let at = phoff + i * entsz; ph = read_at f at 56 in
      if length ph \<noteq> 56 then s else scan_phdrs f phoff entsz n (Suc i) (phdr_entry ph at s))"

definition u64_bytes :: "nat \<Rightarrow> bytes" where
  "u64_bytes v = le_bytes 8 (v mod 2 ^ 64)"

definition interp_fields :: "nat \<Rightarrow> nat \<Rightarrow> nat \<Rightarrow> bytes" where
  "interp_fields eof str_va ilen =
     u64_bytes eof @ u64_bytes str_va @ u64_bytes str_va @ u64_bytes ilen @ u64_bytes ilen"

text \<open>
  The copy of the program with the loader's name appended, PT_INTERP pointed at it and the memory size of the last
  PT_LOAD set so that the name lies inside it; None when the headers do not allow it.
\<close>

definition patch_interp :: "bytes \<Rightarrow> cstr \<Rightarrow> bytes option" where
  "patch_interp img loader =
     (let nm = bytes_of loader @ [0]; ilen = length nm; eof = length img; f = img @ nm; eh = read_at f 0 64 in
      if length eh \<noteq> 64 \<or> take 4 eh \<noteq> elf_magic \<or> eh ! 4 \<noteq> 2 then None
      else
        (let s = scan_phdrs f (le_at eh 32 8) (le_at eh 54 2) (le_at eh 56 2) 0 phscan0;
             str_va = last_load_va s + (eof + 2 ^ 64 - last_load_off s);
             need = eof + ilen + 2 ^ 64 - last_load_off s in
         if interp_at s = 0 \<or> last_load_at s = 0 then None
         else
           (let f1 = write_at f (interp_at s + 8) (interp_fields eof str_va ilen) in
            Some (write_at f1 (last_load_at s + 40) (u64_bytes need)))))"

text \<open>\<^verbatim>\<open>sp_emu_direct_derivative\<close>: the path, and the bytes written there when it does not exist yet.\<close>

definition sp_emu_direct_derivative ::
  "cptr \<Rightarrow> (cstr \<Rightarrow> bytes option) \<Rightarrow> (cstr \<Rightarrow> fstat option) \<Rightarrow> (cstr \<Rightarrow> bool) \<Rightarrow> (cstr \<Rightarrow> bool) \<Rightarrow> cstr \<Rightarrow>
   (cstr \<times> bytes option) option" where
  "sp_emu_direct_derivative loader file stat xok writable host =
     (case (loader, stat host) of
        (Some ld, Some st) \<Rightarrow>
          (case derivative_path ld host st of
             None \<Rightarrow> None
           | Some out \<Rightarrow>
               if xok out then Some (out, None)
               else (case file host of
                       None \<Rightarrow> None
                     | Some img \<Rightarrow>
                         (if \<not> writable out then None
                          else map_option (\<lambda>b. (out, Some b)) (patch_interp img ld))))
      | _ \<Rightarrow> None)"

section \<open>Lemmas on bytes\<close>

lemma length_le_bytes [simp]: "length (le_bytes n v) = n"
  by (induction n arbitrary: v) auto

lemma length_u64_bytes [simp]: "length (u64_bytes v) = 8"
  by (simp add: u64_bytes_def)

lemma le_val_le_bytes: "le_val (le_bytes n v) = v mod 256 ^ n"
proof (induction n arbitrary: v)
  case (Suc n)
  have "unat (word_of_nat (v mod 256) :: u8) = v mod 256" by (rule unat_of_nat_small) simp
  then show ?case using Suc by (simp add: mod_mult2_eq)
qed simp

lemma le_val_u64_bytes: "v < 2 ^ 64 \<Longrightarrow> le_val (u64_bytes v) = v"
  by (simp add: u64_bytes_def le_val_le_bytes)

lemma unat_char_byte: "unat (char_byte c) = of_char c"
  unfolding char_byte_def by (rule unat_of_nat_small) (use nat_of_char_less_256 [of c] in simp)

lemma byte_char_inverse [simp]: "byte_char (char_byte c) = c"
  by (simp add: byte_char_def unat_char_byte)

lemma char_byte_zero: "char_byte c = 0 \<longleftrightarrow> c = NUL"
proof
  assume "char_byte c = 0"
  then have "(of_char c :: nat) = of_char NUL" using unat_char_byte [of c] by simp
  then show "c = NUL" by (simp only: of_char_eq_iff)
qed (simp add: char_byte_def)

lemma length_bytes_of [simp]: "length (bytes_of s) = length s"
  by (simp add: bytes_of_def)

lemma cstr_of_bytes_of:
  assumes "NUL \<notin> set s"
  shows "cstr_of (bytes_of s) = s"
proof -
  have e: "takeWhile (\<lambda>b. b \<noteq> 0) (bytes_of s) = bytes_of s"
    using assms by (auto simp: bytes_of_def takeWhile_eq_all_conv char_byte_zero)
  show ?thesis unfolding cstr_of_def e by (simp add: bytes_of_def comp_def)
qed

lemma read_at_length: "off + n \<le> length f \<Longrightarrow> length (read_at f off n) = n"
  by (simp add: read_at_def)

lemma read_at_append: "off + n \<le> length f \<Longrightarrow> read_at (f @ g) off n = read_at f off n"
  by (simp add: read_at_def)

lemma read_at_read_at: "b + m \<le> n \<Longrightarrow> read_at (read_at f off n) b m = read_at f (off + b) m"
  by (simp add: read_at_def take_drop add.commute)

lemma length_write_at [simp]: "off + length new \<le> length f \<Longrightarrow> length (write_at f off new) = length f"
  by (simp add: write_at_def)

lemma read_write_apart:
  assumes "off + length new \<le> length f" "b + n \<le> off \<or> off + length new \<le> b"
  shows "read_at (write_at f off new) b n = read_at f b n"
  using assms(2)
proof
  assume "b + n \<le> off"
  then show ?thesis using assms(1) by (auto simp: read_at_def write_at_def take_drop min_def)
next
  assume h: "off + length new \<le> b"
  then obtain d where "b = off + length new + d" using le_Suc_ex by blast
  then show ?thesis using assms(1) by (simp add: read_at_def write_at_def min_def add.commute)
qed

lemma read_write_same:
  assumes "off + length new \<le> length f" "a + n \<le> length new"
  shows "read_at (write_at f off new) (off + a) n = read_at new a n"
proof -
  have "drop off (write_at f off new) = new @ drop (off + length new) f" using assms(1) by (simp add: write_at_def)
  then have "drop (off + a) (write_at f off new) = drop a (new @ drop (off + length new) f)"
    by (metis add.commute drop_drop)
  then show ?thesis using assms(2) by (simp add: read_at_def)
qed

lemma le_at_cong: "read_at f (a + b) n = read_at g (a + b) n \<Longrightarrow> b + n \<le> m \<Longrightarrow> le_at (read_at f a m) b n = le_at (read_at g a m) b n"
  by (simp add: le_at_def read_at_read_at)

lemma le_at_sub: "b + n \<le> m \<Longrightarrow> le_at (read_at f a m) b n = le_at f (a + b) n"
  by (simp add: le_at_def read_at_read_at)

section \<open>The derivative runs under the loader\<close>

text \<open>The offset and type of program header \<open>i\<close>.\<close>

abbreviation phoff_of :: "bytes \<Rightarrow> nat" where "phoff_of f \<equiv> le_at f 32 8"
abbreviation entsz_of :: "bytes \<Rightarrow> nat" where "entsz_of f \<equiv> le_at f 54 2"
abbreviation phnum_of :: "bytes \<Rightarrow> nat" where "phnum_of f \<equiv> le_at f 56 2"

definition ph_at :: "bytes \<Rightarrow> nat \<Rightarrow> nat" where
  "ph_at f i = phoff_of f + i * entsz_of f"

definition ph_type :: "bytes \<Rightarrow> nat \<Rightarrow> nat" where
  "ph_type f i = le_at f (ph_at f i) 4"

text \<open>
  A 64-bit image below 4 GB whose program headers lie behind the file header and inside the file, with one PT_INTERP
  and some PT_LOAD.
\<close>

definition elf64_ok :: "bytes \<Rightarrow> bool" where
  "elf64_ok f \<longleftrightarrow>
     64 \<le> length f \<and> take 4 f = elf_magic \<and> f ! 4 = 2 \<and> length f < 2 ^ 32
     \<and> 64 \<le> phoff_of f \<and> 56 \<le> entsz_of f \<and> 0 < phnum_of f \<and> phnum_of f \<le> 64
     \<and> phoff_of f + phnum_of f * entsz_of f \<le> length f
     \<and> (\<exists>!k. k < phnum_of f \<and> ph_type f k = PT_INTERP) \<and> (\<exists>m < phnum_of f. ph_type f m = PT_LOAD)"

lemma entry_inside:
  assumes "phoff + num * entsz \<le> n" "56 \<le> entsz" "i < (num :: nat)"
  shows "phoff + i * entsz + 56 \<le> (n :: nat)"
proof -
  have "(i + 1) * entsz \<le> num * entsz" using assms(3) by (intro mult_le_mono1) simp
  then show ?thesis using assms(1,2) by (simp add: algebra_simps)
qed

lemma entries_apart:
  assumes "56 \<le> (entsz :: nat)" "i < j"
  shows "phoff + i * entsz + 56 \<le> phoff + j * entsz"
proof -
  have "(i + 1) * entsz \<le> j * entsz" using assms(2) by (intro mult_le_mono1) simp
  then show ?thesis using assms(1) by (simp add: algebra_simps)
qed

text \<open>When every entry is inside the file the scan visits them all.\<close>

lemma scan_phdrs_fold:
  assumes "\<And>j. i \<le> j \<Longrightarrow> j < i + n \<Longrightarrow> phoff + j * entsz + 56 \<le> length f"
  shows "scan_phdrs f phoff entsz n i s =
    fold (\<lambda>j. phdr_entry (read_at f (phoff + j * entsz) 56) (phoff + j * entsz)) [i..<i + n] s"
  using assms
proof (induction n arbitrary: i s)
  case (Suc n)
  have "length (read_at f (phoff + i * entsz) 56) = 56" using Suc.prems [of i] by (intro read_at_length) simp
  moreover have "[i..<i + Suc n] = i # [Suc i..<Suc i + n]" by (simp add: upt_rec)
  ultimately show ?case using Suc.IH [of "Suc i"] Suc.prems by (simp add: Let_def del: upt.simps)
qed simp

lemma phdr_type: "le_at (read_at f at 56) 0 4 = le_at f at 4"
  using le_at_sub [of 0 4 56 f at] by simp

lemma scan_result:
  fixes phoff entsz :: nat and f :: bytes
  defines "at \<equiv> \<lambda>j. phoff + j * entsz"
  defines "r n \<equiv> fold (\<lambda>j. phdr_entry (read_at f (phoff + j * entsz) 56) (phoff + j * entsz)) [0..<n] phscan0"
  shows "(\<exists>j<n. le_at f (at j) 4 = PT_INTERP \<and> interp_at (r n) = at j) \<or> (\<forall>j<n. le_at f (at j) 4 \<noteq> PT_INTERP)"
    and "(\<exists>j<n. le_at f (at j) 4 = PT_LOAD \<and> last_load_at (r n) = at j)
      \<or> (\<forall>j<n. le_at f (at j) 4 \<noteq> PT_LOAD) \<and> last_load_off (r n) = 0"
proof (induction n)
  case 0
  { case 1 show ?case by simp next case 2 show ?case by (simp add: r_def phscan0_def) }
next
  case (Suc n)
  have r: "r (Suc n) = phdr_entry (read_at f (at n) 56) (at n) (r n)" by (simp add: r_def at_def)
  { case 1
    show ?case using Suc.IH(1) unfolding r
      by (auto simp: phdr_entry_def phdr_type Let_def less_Suc_eq)
  next
    case 2
    show ?case using Suc.IH(2) unfolding r
      by (auto simp: phdr_entry_def phdr_type Let_def less_Suc_eq) }
qed

lemma classify_phdrs_interp:
  assumes in32: "\<And>j. i \<le> j \<Longrightarrow> j \<le> k \<Longrightarrow> unat (phoff + word_of_nat j * entsz) = at j \<and> at j + 56 \<le> length f"
    and k: "i \<le> k" "k < i + n" "le_at f (at k) 4 = PT_INTERP"
    and before: "\<And>j. i \<le> j \<Longrightarrow> j < k \<Longrightarrow> le_at f (at j) 4 \<noteq> PT_INTERP"
    and sz: "le_at f (at k + 32) 8 = sz" "0 < sz" "sz < SP_PATH_MAX"
    and off: "le_at f (at k + 8) 8 = off" "off < 2 ^ 63" "length (read_at f off sz) = sz"
    and ne: "cstr_of (take (sz - 1) (read_at f off sz)) \<noteq> []"
  shows "classify_phdrs f phoff entsz n i = ElfDynamic (cstr_of (take (sz - 1) (read_at f off sz)))"
  using in32 k(1,2) before
proof (induction n arbitrary: i)
  case (Suc n)
  have a: "unat (phoff + word_of_nat i * entsz) = at i" "length (read_at f (at i) 56) = 56"
    using Suc.prems(1) [of i] Suc.prems(2) by (auto intro: read_at_length)
  show ?case
  proof (cases "i = k")
    case True
    have "le_at (read_at f (at k) 56) 8 8 = off" "le_at (read_at f (at k) 56) 32 8 = sz"
      using le_at_sub [of 8 8 56 f "at k"] le_at_sub [of 32 8 56 f "at k"] sz(1) off(1) by simp_all
    then show ?thesis using a True k(3) sz(2,3) off(2,3) ne by (simp add: phdr_type Let_def)
  next
    case False
    then have "le_at f (at i) 4 \<noteq> PT_INTERP" using Suc.prems(2,4) by simp
    moreover have "classify_phdrs f phoff entsz n (Suc i) = ElfDynamic (cstr_of (take (sz - 1) (read_at f off sz)))"
      by (rule Suc.IH) (use Suc.prems False in auto)
    ultimately show ?thesis using a by (simp add: phdr_type Let_def)
  qed
qed simp

lemma length_interp_fields [simp]: "length (interp_fields a b c) = 40"
  by (simp add: interp_fields_def)

lemma interp_fields_read:
  "eof < 2 ^ 64 \<Longrightarrow> le_at (interp_fields eof va n) 0 8 = eof"
  "n < 2 ^ 64 \<Longrightarrow> le_at (interp_fields eof va n) 24 8 = n"
  by (simp_all add: interp_fields_def le_at_def read_at_def le_val_u64_bytes)

text \<open>The two writes of the patch: what they leave alone and what they put into PT_INTERP.\<close>

lemma patch_writes:
  assumes "a + 48 \<le> length f" "m + 48 \<le> length f" "a + 56 \<le> m \<or> m + 56 \<le> a" "eof < 2 ^ 64" "n < 2 ^ 64"
    and b_def: "b = write_at (write_at f (a + 8) (interp_fields eof va n)) (m + 40) (u64_bytes need)"
  shows "length b = length f"
    and "le_at b (a + 8) 8 = eof" and "le_at b (a + 32) 8 = n"
    and "\<And>o' k. o' + k \<le> a + 8 \<or> a + 48 \<le> o' \<Longrightarrow> o' + k \<le> m + 40 \<or> m + 48 \<le> o' \<Longrightarrow> read_at b o' k = read_at f o' k"
proof -
  let ?f1 = "write_at f (a + 8) (interp_fields eof va n)"
  have l1: "length ?f1 = length f" using assms(1) by simp
  then show "length b = length f" using assms(2) by (simp add: b_def)
  have m: "m + 40 + length (u64_bytes need) \<le> length ?f1" using assms(2) l1 by simp
  show "read_at b o' k = read_at f o' k" if "o' + k \<le> a + 8 \<or> a + 48 \<le> o'" "o' + k \<le> m + 40 \<or> m + 48 \<le> o'" for o' k
    unfolding b_def using that assms(1) by (subst read_write_apart [OF m]) (auto intro: read_write_apart)
  have "read_at b (a + 8) 8 = read_at ?f1 (a + 8) 8" "read_at b (a + 32) 8 = read_at ?f1 (a + 32) 8"
    unfolding b_def using assms(3) by (auto intro!: read_write_apart [OF m])
  moreover have "read_at ?f1 (a + 8 + 0) 8 = read_at (interp_fields eof va n) 0 8"
    "read_at ?f1 (a + 8 + 24) 8 = read_at (interp_fields eof va n) 24 8"
    by (rule read_write_same; use assms(1) in simp)+
  ultimately show "le_at b (a + 8) 8 = eof" "le_at b (a + 32) 8 = n"
    using interp_fields_read [of eof va n] interp_fields_read(2) [of n eof va] assms(4,5)
    by (simp_all add: le_at_def add.commute [of 32])
qed

text \<open>Facts of a well-formed image, one by one.\<close>

lemma elf64_okD:
  assumes "elf64_ok img"
  shows "64 \<le> length img" "take 4 img = elf_magic" "img ! 4 = 2" "length img < 2 ^ 32" "64 \<le> phoff_of img" "56 \<le> entsz_of img"
    "0 < phnum_of img" "phnum_of img \<le> 64" "phoff_of img + phnum_of img * entsz_of img \<le> length img"
  using assms unfolding elf64_ok_def by blast+

lemma elf64_entry:
  assumes "elf64_ok img" "j < phnum_of img"
  shows "ph_at img j + 56 \<le> length img"
  unfolding ph_at_def using elf64_okD [OF assms(1)] assms(2) by (intro entry_inside) auto

lemma elf64_apart:
  assumes "elf64_ok img" "x \<noteq> y"
  shows "ph_at img x + 56 \<le> ph_at img y \<or> ph_at img y + 56 \<le> ph_at img x"
proof -
  note es = elf64_okD(6) [OF assms(1)]
  show ?thesis using entries_apart [OF es, of x y "phoff_of img"] entries_apart [OF es, of y x "phoff_of img"] assms(2)
    by (cases x y rule: linorder_cases) (simp_all add: ph_at_def)
qed

lemma header_fields:
  "le_at (take 64 f) 32 8 = phoff_of f" "le_at (take 64 f) 54 2 = entsz_of f" "le_at (take 64 f) 56 2 = phnum_of f"
  using le_at_sub [of 32 8 64 f 0] le_at_sub [of 54 2 64 f 0] le_at_sub [of 56 2 64 f 0] by (simp_all add: read_at_def)

lemma same_header:
  assumes "take 64 b = take 64 img"
  shows "phoff_of b = phoff_of img" "entsz_of b = entsz_of img" "phnum_of b = phnum_of img"
  using header_fields [of b] header_fields [of img] assms by simp_all

text \<open>What the scan of the copy finds: the one PT_INTERP and some PT_LOAD.\<close>

lemma scan_elf64:
  assumes ok: "elf64_ok img" and s: "s = scan_phdrs (img @ rest) (phoff_of img) (entsz_of img) (phnum_of img) 0 phscan0"
  obtains k m where "k < phnum_of img" "ph_type img k = PT_INTERP" "\<And>j. j < phnum_of img \<Longrightarrow> ph_type img j = PT_INTERP \<Longrightarrow> j = k"
    "interp_at s = ph_at img k" "m < phnum_of img" "ph_type img m = PT_LOAD" "last_load_at s = ph_at img m"
proof -
  let ?f = "img @ rest" and ?num = "phnum_of img"
  have ty: "le_at ?f (ph_at img j) 4 = ph_type img j" if "j < ?num" for j
    using elf64_entry [OF ok that] read_at_append [of "ph_at img j" 4 img rest] by (simp add: le_at_def ph_type_def)
  have "phoff_of img + j * entsz_of img + 56 \<le> length ?f" if "j < 0 + ?num" for j
    using elf64_entry [OF ok, of j] that by (simp add: ph_at_def)
  then have sf: "s = fold (\<lambda>j. phdr_entry (read_at ?f (phoff_of img + j * entsz_of img) 56) (phoff_of img + j * entsz_of img)) [0..<?num] phscan0"
    unfolding s by (subst scan_phdrs_fold) simp_all
  have sr: "(\<exists>j<?num. le_at ?f (ph_at img j) 4 = PT_INTERP \<and> interp_at s = ph_at img j) \<or> (\<forall>j<?num. le_at ?f (ph_at img j) 4 \<noteq> PT_INTERP)"
    "(\<exists>j<?num. le_at ?f (ph_at img j) 4 = PT_LOAD \<and> last_load_at s = ph_at img j)
      \<or> (\<forall>j<?num. le_at ?f (ph_at img j) 4 \<noteq> PT_LOAD) \<and> last_load_off s = 0"
    unfolding sf ph_at_def by (rule scan_result)+
  have "\<exists>!k. k < ?num \<and> ph_type img k = PT_INTERP" and some: "\<exists>m < ?num. ph_type img m = PT_LOAD"
    using ok unfolding elf64_ok_def by blast+
  then obtain k where k: "k < ?num" "ph_type img k = PT_INTERP" "\<And>j. j < ?num \<Longrightarrow> ph_type img j = PT_INTERP \<Longrightarrow> j = k" by blast
  obtain j where j: "j < ?num" "le_at ?f (ph_at img j) 4 = PT_INTERP" "interp_at s = ph_at img j"
    using sr(1) k(1,2) ty [OF k(1)] by auto
  have "j = k" using k(3) [OF j(1)] ty [OF j(1)] j(2) by simp
  obtain m0 where m0: "m0 < ?num" "ph_type img m0 = PT_LOAD" using some by blast
  then have "le_at ?f (ph_at img m0) 4 = PT_LOAD" using ty by simp
  then obtain m where m: "m < ?num" "le_at ?f (ph_at img m) 4 = PT_LOAD" "last_load_at s = ph_at img m"
    using sr(2) m0(1) by blast
  show thesis using that [OF k _ m(1) _ m(3)] j(3) \<open>j = k\<close> ty [OF m(1)] m(2) by simp
qed

text \<open>The patched copy, and what it shares with the original.\<close>

definition patched :: "bytes \<Rightarrow> cstr \<Rightarrow> nat \<Rightarrow> nat \<Rightarrow> nat \<Rightarrow> nat \<Rightarrow> bytes" where
  "patched img loader k m va need =
     write_at (write_at (img @ bytes_of loader @ [0]) (ph_at img k + 8) (interp_fields (length img) va (Suc (length loader))))
       (ph_at img m + 40) (u64_bytes need)"

lemma patch_interp_elf64:
  assumes ok: "elf64_ok img"
  obtains k m va need where "k < phnum_of img" "ph_type img k = PT_INTERP"
    "\<And>j. j < phnum_of img \<Longrightarrow> ph_type img j = PT_INTERP \<Longrightarrow> j = k"
    "m < phnum_of img" "m \<noteq> k" "patch_interp img loader = Some (patched img loader k m va need)"
proof -
  let ?f = "img @ bytes_of loader @ [0]"
  define s where "s = scan_phdrs ?f (phoff_of img) (entsz_of img) (phnum_of img) 0 phscan0"
  obtain k m where km: "k < phnum_of img" "ph_type img k = PT_INTERP" "\<And>j. j < phnum_of img \<Longrightarrow> ph_type img j = PT_INTERP \<Longrightarrow> j = k"
    "interp_at s = ph_at img k" "m < phnum_of img" "ph_type img m = PT_LOAD" "last_load_at s = ph_at img m"
    using scan_elf64 [OF ok s_def] by blast
  have "m \<noteq> k" using km(2,6) by (auto simp: PT_LOAD_def PT_INTERP_def)
  moreover have "ph_at img k \<noteq> 0" "ph_at img m \<noteq> 0" using elf64_okD(5) [OF ok] by (auto simp: ph_at_def)
  moreover have "read_at ?f 0 64 = take 64 img" using elf64_okD(1) [OF ok] by (simp add: read_at_def)
  ultimately show thesis
    using that [OF km(1-3,5), of "last_load_va s + (length img + 2 ^ 64 - last_load_off s)"
        "length img + Suc (length loader) + 2 ^ 64 - last_load_off s"] km(4,7) elf64_okD [OF ok] header_fields [of img]
    by (simp add: patch_interp_def Let_def patched_def s_def [symmetric])
qed

lemma patched_facts:
  assumes ok: "elf64_ok img" and km: "k < phnum_of img" "m < phnum_of img" "m \<noteq> k" and n: "length loader < 240"
    and b: "b = patched img loader k m va need"
  shows "length b = length img + Suc (length loader)" "take 64 b = take 64 img"
    "\<And>j. j < phnum_of img \<Longrightarrow> le_at b (ph_at img j) 4 = ph_type img j"
    "read_at b (length img) (Suc (length loader)) = bytes_of loader @ [0]"
    "le_at b (ph_at img k + 8) 8 = length img" "le_at b (ph_at img k + 32) 8 = Suc (length loader)"
proof -
  let ?f = "img @ bytes_of loader @ [0]"
  have lk: "ph_at img k + 48 \<le> length ?f" "ph_at img m + 48 \<le> length ?f" "length img < 2 ^ 64" "Suc (length loader) < 2 ^ 64"
    using elf64_entry [OF ok km(1)] elf64_entry [OF ok km(2)] elf64_okD(4) [OF ok] n by auto
  note pw = patch_writes [OF lk(1,2) _ lk(3,4) b [unfolded patched_def]]
  have kma: "ph_at img k + 56 \<le> ph_at img m \<or> ph_at img m + 56 \<le> ph_at img k" using elf64_apart [OF ok km(3)] by blast
  have pos: "64 \<le> ph_at img j" for j using elf64_okD(5) [OF ok] by (simp add: ph_at_def)
  show "length b = length img + Suc (length loader)" using pw(1) [OF kma] by simp
  have "read_at b 0 64 = read_at ?f 0 64" using pos [of k] pos [of m] by (intro pw(4) [OF kma]) auto
  then show "take 64 b = take 64 img" using elf64_okD(1) [OF ok] by (simp add: read_at_def)
  show "le_at b (ph_at img j) 4 = ph_type img j" if j: "j < phnum_of img" for j
  proof -
    have "j = x \<or> ph_at img j + 56 \<le> ph_at img x \<or> ph_at img x + 56 \<le> ph_at img j" for x
      using elf64_apart [OF ok, of j x] by blast
    from this [of k] this [of m] have "read_at b (ph_at img j) 4 = read_at ?f (ph_at img j) 4"
      by (intro pw(4) [OF kma]) auto
    then show ?thesis using elf64_entry [OF ok j] read_at_append [of "ph_at img j" 4 img "bytes_of loader @ [0]"]
      by (simp add: le_at_def ph_type_def)
  qed
  have "read_at b (length img) (Suc (length loader)) = read_at ?f (length img) (Suc (length loader))"
    by (rule pw(4) [OF kma]) (use elf64_entry [OF ok km(1)] elf64_entry [OF ok km(2)] in auto)
  then show "read_at b (length img) (Suc (length loader)) = bytes_of loader @ [0]" by (simp add: read_at_def)
  show "le_at b (ph_at img k + 8) 8 = length img" "le_at b (ph_at img k + 32) 8 = Suc (length loader)"
    by (rule pw(2) [OF kma], rule pw(3) [OF kma])
qed

text \<open>A file with the header of a well-formed image is classified by its program headers.\<close>

lemma classify_elf64:
  assumes ok: "elf64_ok img" and h: "take 64 b = take 64 img" and lb: "64 \<le> length b"
  shows "sp_classify_host (Some b) = classify_phdrs b (word_of_nat (phoff_of img)) (word_of_nat (entsz_of img)) (phnum_of img) 0"
proof -
  have "take 4 b = take 4 (take 64 b)" "b ! 4 = take 64 b ! 4" by simp_all
  then have id: "take 4 b = elf_magic" "b ! 4 = 2" using elf64_okD(2,3) [OF ok] unfolding h by simp_all
  then have b0: "b ! 0 = 0x7f" using lb by (cases b) (auto simp: elf_magic_def)
  have flb: "le_at (read_at b 0 256) 32 8 = phoff_of img" "le_at (read_at b 0 256) 54 2 = entsz_of img"
    "le_at (read_at b 0 256) 56 2 = phnum_of img"
    using le_at_sub [of 32 8 256 b 0] le_at_sub [of 54 2 256 b 0] le_at_sub [of 56 2 256 b 0] same_header [OF h] by simp_all
  have "\<not> min (length b) 256 < 64" using lb by simp
  then show ?thesis using flb id lb b0 elf64_okD [OF ok] by (simp add: sp_classify_host_def Let_def read_at_def)
qed

lemma entry_offset_32:
  assumes "elf64_ok img" "j < phnum_of img"
  shows "unat ((word_of_nat (phoff_of img) :: u32) + word_of_nat j * word_of_nat (entsz_of img)) = ph_at img j"
proof -
  have "ph_at img j < 2 ^ 32" using elf64_entry [OF assms] elf64_okD(4) [OF assms(1)] by simp
  moreover have "(word_of_nat (phoff_of img) :: u32) + word_of_nat j * word_of_nat (entsz_of img) = word_of_nat (ph_at img j)"
    by (simp add: ph_at_def)
  ultimately show ?thesis using unat_of_nat_small [of "ph_at img j", where 'a = 32] by simp
qed

text \<open>C32: The derivative of a fixed-base emulator is a dynamic image that runs under the sanitized loader: for a well-formed
  64-bit image the patch succeeds, and the classification the exec chain itself uses then finds exactly the loader's path as its
  interpreter; the file header and the types of all program headers are those of the original.\<close>

theorem derivative_interp:
  assumes "elf64_ok img" "loader \<noteq> []" "NUL \<notin> set loader" "length loader < 240"
  shows "\<exists>b. patch_interp img loader = Some b \<and> sp_classify_host (Some b) = ElfDynamic loader
    \<and> take 64 b = take 64 img \<and> (\<forall>j < phnum_of img. ph_type b j = ph_type img j)"
proof -
  note ok = elf64_okD [OF assms(1)]
  obtain k m va need where km: "k < phnum_of img" "ph_type img k = PT_INTERP"
      "\<And>j. j < phnum_of img \<Longrightarrow> ph_type img j = PT_INTERP \<Longrightarrow> j = k"
      "m < phnum_of img" "m \<noteq> k" "patch_interp img loader = Some (patched img loader k m va need)"
    using patch_interp_elf64 [OF assms(1), of loader] by blast
  define b where "b = patched img loader k m va need"
  note pf = patched_facts [OF assms(1) km(1,4,5) assms(4) b_def]
  have c1: "unat ((word_of_nat (phoff_of img) :: u32) + word_of_nat j * word_of_nat (entsz_of img)) = ph_at img j
      \<and> ph_at img j + 56 \<le> length b" if "0 \<le> j" "j \<le> k" for j
    using entry_offset_32 [OF assms(1), of j] elf64_entry [OF assms(1), of j] that km(1) by (simp add: pf(1))
  have c2: "le_at b (ph_at img k) 4 = PT_INTERP" unfolding pf(3) [OF km(1)] by (rule km(2))
  have c3: "le_at b (ph_at img j) 4 \<noteq> PT_INTERP" if "0 \<le> j" "j < k" for j
    using km(1) km(3) [of j] pf(3) [of j] that by auto
  have tk: "cstr_of (take (Suc (length loader) - 1) (read_at b (length img) (Suc (length loader)))) = loader"
    unfolding pf(4) using cstr_of_bytes_of [OF assms(3)] by simp
  have c4: "cstr_of (take (Suc (length loader) - 1) (read_at b (length img) (Suc (length loader)))) \<noteq> []"
    unfolding tk by (rule assms(2))
  have c5: "Suc (length loader) < SP_PATH_MAX" "length img < 2 ^ 63" using assms(4) ok(4) by (simp_all add: SP_PATH_MAX_def)
  have c6: "length (read_at b (length img) (Suc (length loader))) = Suc (length loader)" unfolding pf(4) by simp
  have k0: "k < 0 + phnum_of img" using km(1) by simp
  note c = classify_phdrs_interp [OF c1 le0 k0 c2 c3 pf(6) zero_less_Suc c5(1) pf(5) c5(2) c6 c4, unfolded tk]
  have "sp_classify_host (Some b) = ElfDynamic loader"
    using classify_elf64 [OF assms(1) pf(2)] pf(1) ok(1) c by simp
  moreover have "ph_type b j = ph_type img j" if "j < phnum_of img" for j
    using pf(3) [OF that] same_header [OF pf(2)] by (simp add: ph_type_def [of b] ph_at_def)
  ultimately show ?thesis using km(6) pf(2) by (simp add: b_def [symmetric])
qed

text \<open>A small image: an interpreter header and one loadable segment.\<close>

definition demo_img :: bytes where
  "demo_img =
     [0x7f, 0x45, 0x4c, 0x46, 2] @ replicate 27 0 @ [64, 0, 0, 0, 0, 0, 0, 0] @ replicate 14 0 @ [56, 0, 2, 0] @ replicate 6 0
     @ [3, 0, 0, 0] @ replicate 4 0 @ [176, 0, 0, 0, 0, 0, 0, 0] @ replicate 16 0 @ [4, 0, 0, 0, 0, 0, 0, 0] @ replicate 16 0
     @ [1, 0, 0, 0] @ replicate 52 0 @ [0x2f, 0x61, 0x62, 0]"

lemma demo_img_ok: "elf64_ok demo_img"
proof -
  have n: "phnum_of demo_img = 2" "phoff_of demo_img = 64" "entsz_of demo_img = 56" "length demo_img = 180"
    by (simp_all add: demo_img_def le_at_def read_at_def)
  have t: "ph_type demo_img 0 = PT_INTERP" "ph_type demo_img 1 = PT_LOAD"
    by (simp_all add: ph_type_def ph_at_def n) (simp_all add: demo_img_def le_at_def read_at_def PT_INTERP_def PT_LOAD_def)
  then have t3: "ph_type demo_img 1 \<noteq> PT_INTERP" by (simp add: PT_INTERP_def PT_LOAD_def)
  have h: "take 4 demo_img = elf_magic" "demo_img ! 4 = 2" by (simp_all add: demo_img_def elf_magic_def)
  have one: "\<exists>!k. k < 2 \<and> ph_type demo_img k = PT_INTERP"
  proof (rule ex1I)
    show "0 < (2 :: nat) \<and> ph_type demo_img 0 = PT_INTERP" using t(1) by simp
    fix k :: nat
    assume k: "k < 2 \<and> ph_type demo_img k = PT_INTERP"
    then have "k \<noteq> 1" using t3 by blast
    then show "k = 0" using k by linarith
  qed
  have some: "\<exists>m<2. ph_type demo_img m = PT_LOAD" using t(2) by (intro exI [of _ 1]) (simp only: one_less_numeral_iff, simp)
  show ?thesis
    unfolding elf64_ok_def n by (intro conjI h one some) simp_all
qed

theorem derivative_interp_witness:
  "\<exists>b. patch_interp demo_img ''/c/ldso'' = Some b \<and> sp_classify_host (Some b) = ElfDynamic ''/c/ldso''"
proof -
  have "''/c/ldso'' \<noteq> []" "NUL \<notin> set ''/c/ldso''" "length ''/c/ldso'' < 240" by simp_all
  from derivative_interp [OF demo_img_ok this] show ?thesis by blast
qed

section \<open>Interpreter lines\<close>

lemma dropWhile_prefix: "list_all P xs \<Longrightarrow> ys = [] \<or> \<not> P (hd ys) \<Longrightarrow> dropWhile P (xs @ ys) = ys"
  by (induction xs) (auto simp: dropWhile_eq_self_iff)

lemma takeWhile_prefix: "list_all P xs \<Longrightarrow> ys = [] \<or> \<not> P (hd ys) \<Longrightarrow> takeWhile P (xs @ ys) = xs"
  by (induction xs) (auto simp: takeWhile_eq_Nil_iff)

lemma read_at_prefix: "n = length xs + m \<Longrightarrow> read_at (xs @ ys) 0 n = xs @ take m ys"
  by (simp add: read_at_def)

lemma blank_not_eol: "blank_byte b \<Longrightarrow> \<not> eol_byte b"
  by (auto simp: blank_byte_def eol_byte_def)

lemma blanks_not_eol: "list_all blank_byte bs \<Longrightarrow> list_all (\<lambda>b. \<not> eol_byte b) bs"
  by (auto simp: list_all_iff blank_not_eol)

lemma trim_blanks: "list_all blank_byte b \<Longrightarrow> s \<noteq> [] \<longrightarrow> \<not> blank_byte (last s) \<Longrightarrow> rev (dropWhile blank_byte (rev (s @ b))) = s"
  using dropWhile_prefix [of blank_byte "rev b" "rev s"] by (auto simp: hd_rev)

lemma parse_shebang_line:
  assumes b: "list_all blank_byte b1" "list_all blank_byte b2" "list_all blank_byte b3"
    and i: "i \<noteq> []" "list_all (\<lambda>b. \<not> blank_byte b \<and> \<not> eol_byte b) i"
    and opt: "list_all (\<lambda>b. \<not> eol_byte b) opt" "opt \<noteq> [] \<longrightarrow> b2 \<noteq> [] \<and> \<not> blank_byte (hd opt) \<and> \<not> blank_byte (last opt)"
    and eol: "eol_byte eol"
  shows "parse_shebang ([0x23, 0x21] @ b1 @ i @ b2 @ opt @ b3 @ eol # rest) = Script (cstr_of i) (cstr_of opt)"
proof -
  let ?t = "b2 @ opt @ b3 @ eol # rest"
  have "\<not> blank_byte (hd i)" using i by (cases i) auto
  then have r: "dropWhile blank_byte (b1 @ i @ ?t) = i @ ?t" using i(1) by (intro dropWhile_prefix [OF b(1)]) simp
  have "\<not> (\<not> blank_byte (hd ?t) \<and> \<not> eol_byte (hd ?t))"
  proof (cases b2)
    case Nil
    then show ?thesis using opt(2) b(3) eol by (cases b3) auto
  qed (use b(2) in simp)
  then have word: "takeWhile (\<lambda>b. \<not> blank_byte b \<and> \<not> eol_byte b) (i @ ?t) = i" by (intro takeWhile_prefix [OF i(2)]) simp
  have nb: "\<not> blank_byte eol" using eol blank_not_eol by blast
  define tail where "tail = (if opt = [] then eol # rest else opt @ b3 @ eol # rest)"
  have r2: "dropWhile blank_byte ?t = tail"
  proof (cases "opt = []")
    case True
    then show ?thesis using dropWhile_prefix [of blank_byte "b2 @ b3" "eol # rest"] b nb by (simp add: tail_def)
  next
    case False
    then show ?thesis using dropWhile_prefix [OF b(2), of "opt @ b3 @ eol # rest"] opt(2) by (simp add: tail_def)
  qed
  have "takeWhile (\<lambda>b. \<not> eol_byte b) tail = (if opt = [] then [] else opt @ b3)"
    using takeWhile_prefix [of "\<lambda>b. \<not> eol_byte b" "opt @ b3" "eol # rest"] opt(1) blanks_not_eol [OF b(3)] eol
    by (simp add: tail_def)
  moreover have "rev (dropWhile blank_byte (rev (if opt = [] then [] else opt @ b3))) = opt"
    using trim_blanks [OF b(3), of opt] opt(2) by simp
  ultimately show ?thesis by (simp add: parse_shebang_def r word r2)
qed

text \<open>C33: A script is recognised by its first line: \<open>#!\<close>, an interpreter word and at most one argument, the rest of the line
  without the blanks around it - inner blanks belong to the argument - for every spelling of the line that fits the 256 bytes read.\<close>

theorem sp_classify_shebang:
  assumes "list_all blank_byte b1" "list_all blank_byte b2" "list_all blank_byte b3"
    and "i \<noteq> []" "list_all (\<lambda>b. \<not> blank_byte b \<and> \<not> eol_byte b) i"
    and "list_all (\<lambda>b. \<not> eol_byte b) opt" "opt \<noteq> [] \<longrightarrow> b2 \<noteq> [] \<and> \<not> blank_byte (hd opt) \<and> \<not> blank_byte (last opt)"
    and "eol_byte eol" and "length (b1 @ i @ b2 @ opt @ b3) \<le> 253"
  shows "sp_classify_host (Some ([0x23, 0x21] @ b1 @ i @ b2 @ opt @ b3 @ eol # rest)) = Script (cstr_of i) (cstr_of opt)"
proof -
  let ?l = "[0x23, 0x21] @ b1 @ i @ b2 @ opt @ b3 @ [eol]"
  obtain m where "256 = length ?l + m" using assms(9) le_iff_add [of "length ?l" 256] by auto
  then have "read_at (?l @ rest) 0 256 = ?l @ take m rest" by (rule read_at_prefix)
  then have h: "read_at ([0x23, 0x21] @ b1 @ i @ b2 @ opt @ b3 @ eol # rest) 0 256
      = [0x23, 0x21] @ b1 @ i @ b2 @ opt @ b3 @ eol # take m rest" by simp
  then show ?thesis using parse_shebang_line [OF assms(1-8), of "take m rest"] by (simp add: sp_classify_host_def Let_def)
qed

theorem sp_classify_shebang_witness:
  "sp_classify_host (Some (bytes_of ''#! /bin/sh -e x '' @ [0x0A, 0x3A])) = Script ''/bin/sh'' ''-e x''"
proof -
  have l: "bytes_of ''#! /bin/sh -e x '' @ [0x0A, 0x3A]
      = [0x23, 0x21] @ [0x20] @ bytes_of ''/bin/sh'' @ [0x20] @ bytes_of ''-e x'' @ [0x20] @ 0x0A # [0x3A]" by code_simp
  have "sp_classify_host (Some ([0x23, 0x21] @ [0x20] @ bytes_of ''/bin/sh'' @ [0x20] @ bytes_of ''-e x'' @ [0x20] @ 0x0A # [0x3A]))
      = Script (cstr_of (bytes_of ''/bin/sh'')) (cstr_of (bytes_of ''-e x''))"
    by (rule sp_classify_shebang) code_simp+
  moreover have "cstr_of (bytes_of ''/bin/sh'') = ''/bin/sh''" "cstr_of (bytes_of ''-e x'') = ''-e x''" by code_simp+
  ultimately show ?thesis by (simp only: l)
qed

end
