(* ===== verification/Sprout_Exec.thy ===== *)
theory Sprout_Exec
  imports Sprout_Image
begin

text \<open>
  The exec chain of \<^verbatim>\<open>sprout_preload.c\<close> (\<^verbatim>\<open>sp_resolve_absolute_symlink\<close> to \<^verbatim>\<open>fexecve\<close>): how an exec
  of a guest program becomes an exec of the sanitized loader, of a supervisor or of an emulator. Allocation succeeds
  and the trace files are left out. The kernel's \<^verbatim>\<open>execve\<close> is a parameter that gives an error or, with
  None, replaces the process; the outcome \<open>Became\<close> records with which arguments.
  Where a search fails, the error number of its last probe is taken to be ENOENT.

  The levels of recursion are an argument that counts down: level 5 is \<^verbatim>\<open>depth == 0\<close> and level 0 is
  \<^verbatim>\<open>depth > 4\<close>.
\<close>

section \<open>The world of an exec\<close>

record xworld =
  w_x :: xctx
  w_env :: env
  w_snap :: "cstr list"
  w_pid :: nat
  w_cwd :: cptr
  w_cmdline :: cstr
  w_file :: "cstr \<Rightarrow> bytes option"
  w_ferr :: "cstr \<Rightarrow> errno"
  w_xok :: "cstr \<Rightarrow> bool"
  w_rok :: "cstr \<Rightarrow> bool"
  w_lnk :: "cstr \<Rightarrow> cptr"
  w_stat :: "cstr \<Rightarrow> fstat option"
  w_made :: "cstr \<Rightarrow> bool"
  w_writable :: "cstr \<Rightarrow> bool"
  w_kexec :: "cstr \<Rightarrow> cstr list \<Rightarrow> env \<Rightarrow> errno option"

record xst =
  s_x :: xcache
  s_e :: ecache
  s_abi :: "cstr \<times> cstr"

datatype xout = Became cstr "cstr list" env | Fail errno | Crash

definition sp_real_execve :: "xworld \<Rightarrow> cstr \<Rightarrow> cstr list \<Rightarrow> env \<Rightarrow> xout" where
  "sp_real_execve w p a e = (case w_kexec w p a e of None \<Rightarrow> Became p a e | Some err \<Rightarrow> Fail err)"

text \<open>\<^verbatim>\<open>sp_translate_x\<close> with the translate cache of the state.\<close>

definition xlate :: "xworld \<Rightarrow> xst \<Rightarrow> cstr \<Rightarrow> cstr \<times> xst" where
  "xlate w st p =
     (let (r, c) = sp_translate_x (w_x w) (s_x st) (Some p) in
      (case content r of Inl _ \<Rightarrow> ''(null)'' | Inr q \<Rightarrow> q, st\<lparr>s_x := c\<rparr>))"

text \<open>\<^verbatim>\<open>argv\<close> with its first entry replaced; an empty vector stays empty, its NULL overwrites the new entry.\<close>

definition argv_with :: "cstr \<Rightarrow> cstr list \<Rightarrow> cstr list" where
  "argv_with h argv = take (length argv) (h # tl argv)"

section \<open>Links and names\<close>

definition abs_link_step :: "xworld \<Rightarrow> cstr \<Rightarrow> (cstr, cstr) hop" where
  "abs_link_step w host =
     (case w_lnk w host of
        None \<Rightarrow> Return host
      | Some t \<Rightarrow>
          (let target = take (SP_PATH_MAX - 1) t in
           if char_at target 0 = slash then
             (case x_translate (w_x w) target True of
                None \<Rightarrow> Return host
              | Some tmp \<Rightarrow> Continue (snprintf_s SP_PATH_MAX tmp))
           else
             (case strrchr (snprintf_s SP_PATH_MAX host) slash of
                None \<Rightarrow> Return host
              | Some i \<Rightarrow>
                  (let j = take i host @ slash # target in
                   if SP_PATH_MAX \<le> length j then Return (snprintf_s SP_PATH_MAX j) else Continue j))))"

definition sp_resolve_absolute_symlink :: "xworld \<Rightarrow> cstr \<Rightarrow> cstr" where
  "sp_resolve_absolute_symlink w host =
     (case hop_loop (abs_link_step w) 8 host of Return h \<Rightarrow> h | Continue h \<Rightarrow> h)"

definition DEF_PATH :: cstr where
  "DEF_PATH = ''/usr/local/sbin:/usr/local/bin:/usr/sbin:/usr/bin:/sbin:/bin''"

fun search_dirs :: "xworld \<Rightarrow> cstr \<Rightarrow> u64 \<Rightarrow> cstr list \<Rightarrow> xst \<Rightarrow> cptr \<times> xst" where
  "search_dirs w nm pk [] st = (None, st)"
| "search_dirs w nm pk (dir # dirs) st =
     (let cand = (if dir \<noteq> [] then dir else ''.'') @ slash # nm in
      if SP_PATH_MAX \<le> length cand then search_dirs w nm pk dirs st
      else
        (let (hc, st1) = xlate w st cand in
         if w_xok w hc then
           (Some cand, if length nm < 96 then st1\<lparr>s_e := sp_ecache_put (s_e st1) nm pk cand\<rparr> else st1)
         else search_dirs w nm pk dirs st1))"

definition sp_guest_path_search :: "xworld \<Rightarrow> cstr \<Rightarrow> xst \<Rightarrow> cptr \<times> xst" where
  "sp_guest_path_search w nm st =
     (if slash \<in> set nm then
        (if SP_PATH_MAX \<le> length nm then (None, st)
         else (let (ha, st1) = xlate w st nm in (if w_xok w ha then Some nm else None, st1)))
      else
        (let path = (case getenv (w_env w) ''PATH'' of None \<Rightarrow> DEF_PATH | Some p \<Rightarrow> p);
             buf = snprintf_s 4096 path;
             pk = sp_pathver buf in
         case (if length nm < 96 then sp_ecache_get (s_e st) nm pk else None) of
           Some c \<Rightarrow> (Some c, st)
         | None \<Rightarrow> search_dirs w nm pk (strtok_all (CHR '':'') buf) st))"

section \<open>The chained environment\<close>

definition key_of :: "cstr \<Rightarrow> cstr option" where
  "key_of row = (case strchr row (CHR ''='') of None \<Rightarrow> None | Some i \<Rightarrow> Some (take i row))"

definition has_key :: "cstr \<Rightarrow> env \<Rightarrow> bool" where
  "has_key k e \<longleftrightarrow> list_ex (row_of_key k) e"

text \<open>The LD_PRELOAD of this interposer: the constructor's snapshot, else the live value.\<close>

definition our_preload :: "cstr list \<Rightarrow> cstr \<Rightarrow> cstr" where
  "our_preload snap live =
     (case filter (\<lambda>r. starts_with ''LD_PRELOAD='' r \<and> char_at r 11 \<noteq> NUL) snap of
        r # _ \<Rightarrow> drop 11 r | [] \<Rightarrow> live)"

definition MP_CAP :: nat where
  "MP_CAP = SP_PATH_MAX * 4 + 32"

definition merge_text :: "cstr \<Rightarrow> cstr \<Rightarrow> cstr" where
  "merge_text ours row =
     (let theirs = drop 11 row in ''LD_PRELOAD='' @ ours @ (if theirs \<noteq> [] then CHR '':'' # theirs else []))"

definition needs_merge :: "cstr \<Rightarrow> bool" where
  "needs_merge row \<longleftrightarrow> row_of_key ''LD_PRELOAD'' row \<and> \<not> strstr row ''libsprout-core''"

text \<open>
  The loop over the rows of LD_PRELOAD. The merged row lives in the one static buffer \<^verbatim>\<open>mp\<close>, so every
  row that points to it shows the text written last.
\<close>

definition merge_preload :: "cstr \<Rightarrow> env \<Rightarrow> env" where
  "merge_preload ours e2 =
     (case rev (filter needs_merge e2) of
        [] \<Rightarrow> e2
      | l # _ \<Rightarrow>
          map (\<lambda>r. if needs_merge r \<and> length (merge_text ours r) < MP_CAP then snprintf_s MP_CAP (merge_text ours l) else r) e2)"

definition inject_row :: "cstr list \<Rightarrow> cstr \<Rightarrow> cstr \<Rightarrow> env \<Rightarrow> env" where
  "inject_row snap pfx row e2 =
     (if \<not> length e2 < 500 then e2
      else if \<not> starts_with pfx row then e2
      else
        (case strchr row (CHR ''='') of
           None \<Rightarrow> e2
         | Some kl \<Rightarrow>
             (let k = take kl row in
              if \<not> has_key k e2 then e2 @ [row]
              else if k = ''LD_PRELOAD'' then
                (let ours = our_preload snap (drop (Suc kl) row) in
                 if ours = [] then e2 else merge_preload ours e2)
              else e2)))"

definition recover_row :: "cstr \<Rightarrow> env \<Rightarrow> env" where
  "recover_row row e2 =
     (if \<not> length e2 < 505 then e2
      else (case key_of row of None \<Rightarrow> e2 | Some k \<Rightarrow> if has_key k e2 then e2 else e2 @ [row]))"

definition sp_chain_env :: "env \<Rightarrow> cstr list \<Rightarrow> env \<Rightarrow> env" where
  "sp_chain_env environ snap envp =
     (let e0 = take 400 envp;
          e1 = fold (inject_row snap ''LD_'') environ e0;
          e2 = fold (inject_row snap ''SPROUT_'') environ e1 in
      fold recover_row snap e2)"

fun replace_first :: "(cstr \<Rightarrow> bool) \<Rightarrow> cstr \<Rightarrow> env \<Rightarrow> env option" where
  "replace_first P r [] = None"
| "replace_first P r (x # xs) = (if P x then Some (r # xs) else map_option (\<lambda>ys. x # ys) (replace_first P r xs))"

definition sp_stamp_exe :: "cstr \<Rightarrow> env \<Rightarrow> env" where
  "sp_stamp_exe gabs e =
     (if gabs = [] then e
      else
        (let row = snprintf_s (SP_PATH_MAX + 12) (''SPROUT_EXE='' @ gabs) in
         case replace_first (starts_with ''SPROUT_EXE='') row e of
           Some e' \<Rightarrow> e'
         | None \<Rightarrow> if length e < 510 then e @ [row] else e))"

section \<open>Library path and loader vector\<close>

definition sp_chain_libpath :: "env \<Rightarrow> env \<Rightarrow> cptr \<times> env" where
  "sp_chain_libpath environ e =
     (case (nonempty_or (getenv environ ''SPROUT_LIBRARY_PATH'') None,
            nonempty_or (case filter (starts_with ''LD_LIBRARY_PATH='') e of [] \<Rightarrow> None | r # _ \<Rightarrow> Some (drop 16 r)) None) of
        (Some sys, Some cust) \<Rightarrow>
          if cust = sys then (None, e)
          else
            (let merged = cust @ CHR '':'' # sys in
             if SP_PATH_MAX * 4 \<le> length merged then (None, e)
             else
               (Some merged,
                case replace_first (starts_with ''LD_LIBRARY_PATH='') (''LD_LIBRARY_PATH='' @ merged) e of
                  Some e' \<Rightarrow> e' | None \<Rightarrow> e))
      | _ \<Rightarrow> (None, e))"

definition SP_CHAIN_MAX_ARGS :: nat where
  "SP_CHAIN_MAX_ARGS = 4096"

datatype build = NoLoader | CapOverflow | Built "cstr list"

definition sp_build_loader_argv :: "xworld \<Rightarrow> nat \<Rightarrow> cstr \<Rightarrow> cstr list \<Rightarrow> cptr \<Rightarrow> build" where
  "sp_build_loader_argv w vmax host argv lp_override =
     (case sp_loader_path (w_env w) (w_snap w) of
        None \<Rightarrow> NoLoader
      | Some loader \<Rightarrow>
          (let lp = (case lp_override of Some l \<Rightarrow> Some l | None \<Rightarrow> sp_library_path_v (w_env w) (w_snap w));
               musl = (sp_libc_kind (w_env w) (w_snap w) = Some ''musl'');
               v = [loader, ''--argv0'', if argv = [] then host else hd argv]
                   @ (if musl then [] else [''--inhibit-cache''])
                   @ [''--library-path'', case lp of None \<Rightarrow> [] | Some l \<Rightarrow> l, host] in
           if vmax < length v + length argv then CapOverflow else Built (v @ tl argv)))"

section \<open>The binfmt adapter\<close>

definition EM_386 :: nat where "EM_386 = 3"
definition EM_X86_64 :: nat where "EM_X86_64 = 62"
definition EM_AARCH64 :: nat where "EM_AARCH64 = 183"

definition BOX64 :: cstr where "BOX64 = ''/usr/local/bin/box64''"

definition LIB_X86_64 :: "cstr \<times> cstr" where
  "LIB_X86_64 = (''BOX64_LD_LIBRARY_PATH'', ''/usr/lib/x86_64-linux-gnu:/lib/x86_64-linux-gnu:/usr/x86_64-linux-gnu'')"

definition LIB_I386 :: "cstr \<times> cstr" where
  "LIB_I386 = (''BOX32_LD_LIBRARY_PATH'', ''/usr/lib/i386-linux-gnu:/lib/i386-linux-gnu:/usr/lib32'')"

definition the_or :: "cptr \<Rightarrow> cstr \<Rightarrow> cstr" where
  "the_or p d = (case nonempty_or p None of None \<Rightarrow> d | Some v \<Rightarrow> v)"

definition sp_binfmt_always :: "env \<Rightarrow> bool" where
  "sp_binfmt_always e = env_is_1 (getenv e ''SPROUT_BINFMT_ALWAYS'')"

text \<open>The emulator of a foreign image with its library variable; None: not this adapter's business.\<close>

definition pick_emulator :: "env \<Rightarrow> elf_meta \<Rightarrow> (cstr \<times> cstr \<times> cstr) option" where
  "pick_emulator e m =
     (let x64 = getenv e ''SPROUT_BINFMT_X86_64'' in
      if e_class m = 2 \<and> e_machine m = EM_X86_64 then Some (the_or x64 BOX64, LIB_X86_64)
      else if e_class m = 1 \<and> e_machine m = EM_386 then
        Some (the_or (nonempty_or (getenv e ''SPROUT_BINFMT_I386'') x64) BOX64, LIB_I386)
      else if e_machine m = EM_AARCH64 then
        (if sp_binfmt_always e then Some (the_or x64 BOX64, LIB_X86_64) else None)
      else None)"

definition sp_host_emu_sysvipc_shim :: "cstr \<Rightarrow> bool" where
  "sp_host_emu_sysvipc_shim base \<longleftrightarrow>
     starts_with ''FEX'' base \<or> starts_with ''qemu-'' base \<or> starts_with ''box64'' base \<or> starts_with ''box32'' base"

definition SHIM_X86_64 :: cstr where "SHIM_X86_64 = ''/usr/lib/sprout-sysvipc/x86_64/libsprout-sysvipc.so''"
definition SHIM_I386 :: cstr where "SHIM_I386 = ''/usr/lib/sprout-sysvipc/i386/libsprout-sysvipc.so''"
definition SHIM_ARM64 :: cstr where "SHIM_ARM64 = ''/usr/lib/sprout-sysvipc/arm64/libsprout-sysvipc.so''"
definition SYMFIX_I386 :: cstr where "SYMFIX_I386 = ''/usr/lib/sprout-symfix/i386/libsprout-symfix.so''"

definition add_x86_64_shim :: "xworld \<Rightarrow> elf_meta \<Rightarrow> bool \<Rightarrow> env \<Rightarrow> env" where
  "add_x86_64_shim w m have_pre e =
     (if \<not> have_pre \<and> e_machine m = EM_X86_64 \<and> has_interp m \<and> getenv (w_env w) ''SPROUT_SYSVIPC_OFF'' = None \<and> w_rok w SHIM_X86_64
      then e @ [''BOX64_LD_PRELOAD='' @ SHIM_X86_64] else e)"

definition add_host_shim :: "xworld \<Rightarrow> cstr \<Rightarrow> bool \<Rightarrow> env \<Rightarrow> env" where
  "add_host_shim w emu bionic e =
     (if \<not> bionic \<and> getenv (w_env w) ''SPROUT_SYSVIPC_EMU_OFF'' = None \<and> sp_host_emu_sysvipc_shim (basename emu) \<and> w_rok w SHIM_ARM64
      then
        (case filter (starts_with ''LD_PRELOAD='') e of
           [] \<Rightarrow> e @ [''LD_PRELOAD='' @ SHIM_ARM64]
         | r # _ \<Rightarrow>
             if strstr r SHIM_ARM64 then e
             else (case replace_first (starts_with ''LD_PRELOAD='') (''LD_PRELOAD='' @ SHIM_ARM64 @ CHR '':'' # drop 11 r) e of
                     Some e' \<Rightarrow> e' | None \<Rightarrow> e))
      else e)"

definition add_i386_shims :: "xworld \<Rightarrow> elf_meta \<Rightarrow> bool \<Rightarrow> env \<Rightarrow> env" where
  "add_i386_shims w m have_pre e =
     (if \<not> have_pre \<and> e_machine m = EM_386 \<and> has_interp m then
        (let symfix = (getenv (w_env w) ''SPROUT_SYMFIX'' \<noteq> Some ''0'' \<and> w_rok w SYMFIX_I386);
             ipc = (getenv (w_env w) ''SPROUT_SYSVIPC_OFF'' = None \<and> w_rok w SHIM_I386);
             pv = (if symfix then SYMFIX_I386 else []) @ (if ipc then (if symfix then '':'' else []) @ SHIM_I386 else []) in
         if pv \<noteq> [] then e @ [''BOX64_LD_PRELOAD='' @ pv] else e)
      else e)"

text \<open>\<open>%s%s%.*s\<close> for each directory of the default, into a buffer of \<^verbatim>\<open>SP_PATH_MAX * 2\<close> bytes.\<close>

fun rooted_dirs :: "cstr \<Rightarrow> cstr \<Rightarrow> cstr list \<Rightarrow> cstr" where
  "rooted_dirs root hl [] = hl"
| "rooted_dirs root hl (d # ds) =
     rooted_dirs root (if length d < SP_PATH_MAX then hl @ (if hl \<noteq> [] then '':'' else []) @ root @ d else hl) ds"

definition add_libdirs :: "xworld \<Rightarrow> cstr \<times> cstr \<Rightarrow> bool \<Rightarrow> bool \<Rightarrow> env \<Rightarrow> env" where
  "add_libdirs w lib have_lib bionic e =
     (let (libenv, libdef) = lib in
      if have_lib then e
      else if bionic then
        e @ [libenv @ ''='' @ take (SP_PATH_MAX * 2 - 1) (rooted_dirs (rootfs (x_cfg (w_x w))) [] (strtok_all (CHR '':'') libdef))]
      else e @ [libenv @ ''='' @ libdef])"

definition unsafe_for_bionic :: "cstr \<Rightarrow> bool" where
  "unsafe_for_bionic row \<longleftrightarrow> starts_with ''LD_PRELOAD='' row \<or> starts_with ''LD_LIBRARY_PATH='' row"

definition emulator_env :: "xworld \<Rightarrow> elf_meta \<Rightarrow> cstr \<Rightarrow> cstr \<times> cstr \<Rightarrow> bool \<Rightarrow> env \<Rightarrow> env" where
  "emulator_env w m emu lib bionic e =
     (let kept = (if bionic then filter (\<lambda>r. \<not> unsafe_for_bionic r) e else e);
          have_lib = has_key (fst lib) kept;
          have_pre = list_ex (starts_with ''BOX64_LD_PRELOAD='') kept in
      add_libdirs w lib have_lib bionic
        (add_i386_shims w m have_pre (add_host_shim w emu bionic (add_x86_64_shim w m have_pre kept))))"

datatype binfmt = NotForeign | NoEmulator | Wrap cstr "cstr list" env

definition sp_binfmt_maybe_exec :: "xworld \<Rightarrow> cstr \<Rightarrow> cstr \<Rightarrow> cstr list \<Rightarrow> env \<Rightarrow> xst \<Rightarrow> binfmt \<times> xst" where
  "sp_binfmt_maybe_exec w guest_path host_abs argv merged st =
     (case sp_elf_meta (w_file w host_abs) of
        None \<Rightarrow> (NotForeign, st)
      | Some m \<Rightarrow>
          (case pick_emulator (w_env w) m of
             None \<Rightarrow> (NotForeign, st)
           | Some (emu, lib) \<Rightarrow>
               (let (eraw, st1) = xlate w st emu;
                    ehost = sp_resolve_absolute_symlink w (snprintf_s SP_PATH_MAX eraw) in
                if ehost = host_abs then (NotForeign, st1)
                else if \<not> w_xok w ehost then (NoEmulator, st1)
                else
                  (let bionic = sp_elf_interp_bionic (w_file w ehost);
                       nv = emu # argv_with (if bionic then host_abs else guest_path) argv in
                   (Wrap emu nv (emulator_env w m emu lib bionic merged), st1)))))"

section \<open>The chain\<close>

definition is_self_alias :: "cstr \<Rightarrow> bool" where
  "is_self_alias p \<longleftrightarrow> p = ''/proc/self/exe'' \<or> p = ''/proc/thread-self/exe''"

definition guest_abs :: "xworld \<Rightarrow> cstr \<Rightarrow> cstr" where
  "guest_abs w path =
     (if char_at path 0 = slash then snprintf_s SP_PATH_MAX path
      else
        (let cw = (case w_cwd w of Some (c # cs) \<Rightarrow> take (SP_PATH_MAX - 1) (c # cs) | _ \<Rightarrow> ''/'');
             gcw = (case sp_reverse (x_cfg (w_x w)) cw SP_PATH_MAX of None \<Rightarrow> [] | Some g \<Rightarrow> g) in
         snprintf_s SP_PATH_MAX (gcw @ slash # path)))"

definition canonical_guest :: "xworld \<Rightarrow> cstr \<Rightarrow> xst \<Rightarrow> cstr \<times> xst" where
  "canonical_guest w gabs st =
     (let (habs, st1) = xlate w st gabs in
      (case sp_reverse (x_cfg (w_x w)) habs SP_PATH_MAX of
         None \<Rightarrow> gabs
       | Some g \<Rightarrow>
           if char_at g 0 = slash \<and> 1 < length (sp_normalize_abs g) then sp_normalize_abs g else gabs, st1))"

definition is_emu_target :: "env \<Rightarrow> cstr \<Rightarrow> bool" where
  "is_emu_target e gabs \<longleftrightarrow>
     starts_with ''emu-direct-'' (basename gabs) \<or> sp_emu_fixed_base (basename gabs)
     \<or> nonempty_or (getenv e ''SPROUT_BINFMT_I386'') None = Some gabs
     \<or> nonempty_or (getenv e ''SPROUT_BINFMT_X86_64'') None = Some gabs"

definition stamp_target :: "xworld \<Rightarrow> cstr \<Rightarrow> env \<Rightarrow> xst \<Rightarrow> env \<times> xst" where
  "stamp_target w path e st =
     (if is_self_alias path then (e, st)
      else
        (let (gabs, st1) = canonical_guest w (guest_abs w path) st in
         (if \<not> is_emu_target (w_env w) gabs \<or> getenv (w_env w) ''SPROUT_EXE'' = None then sp_stamp_exe gabs e else e, st1)))"

text \<open>The tokens of \<^verbatim>\<open>/proc/self/cmdline\<close>: the first path behind the loader's options.\<close>

definition valued_option :: "cstr \<Rightarrow> bool" where
  "valued_option t \<longleftrightarrow> t \<in> {''--argv0'', ''--preload'', ''--library-path'', ''--list'', ''--verify''}"

fun cmdline_program :: "bool \<Rightarrow> cstr list \<Rightarrow> cptr" where
  "cmdline_program skip [] = None"
| "cmdline_program skip (t # ts) =
     (if skip then cmdline_program False ts
      else if valued_option t then cmdline_program True ts
      else if char_at t 0 = CHR ''-'' then cmdline_program False ts
      else if char_at t 0 \<noteq> slash then cmdline_program False ts
      else if strstr t ''ldso-sanitized'' \<or> strstr t ''ld-linux'' \<or> strstr t ''ld-musl'' then cmdline_program False ts
      else Some (take (SP_PATH_MAX - 1) t))"

definition self_image :: "xworld \<Rightarrow> cstr \<Rightarrow> cptr" where
  "self_image w path =
     (case sp_self_exe_answer (w_env w) (w_pid w) (Some path) (SP_PATH_MAX - 1) of
        Some s \<Rightarrow> Some s
      | None \<Rightarrow>
          (case nonempty_or (getenv (w_env w) ''SPROUT_EXE'') None of
             Some s \<Rightarrow> Some (take (SP_PATH_MAX - 1) s)
           | None \<Rightarrow> cmdline_program False (strtok_all NUL (take 4095 (w_cmdline w)))))"

definition emu_env :: "cptr \<Rightarrow> env \<Rightarrow> env option" where
  "emu_env lp e =
     (case lp of
        None \<Rightarrow> if list_ex (starts_with ''LD_LIBRARY_PATH='') e then None else Some e
      | Some l \<Rightarrow>
          (let row = ''LD_LIBRARY_PATH='' @ l in
           Some (map (\<lambda>r. if starts_with ''LD_LIBRARY_PATH='' r then row else r) e
                 @ (if list_ex (starts_with ''LD_LIBRARY_PATH='') e then [] else [row]))))"

text \<open>The direct exec of an emulator derivative: its outcome, or None to go on with the loader chain.\<close>

definition exec_direct :: "xworld \<Rightarrow> cstr \<Rightarrow> cstr list \<Rightarrow> env \<Rightarrow> xout option \<times> env" where
  "exec_direct w host argv e =
     (let is_der = starts_with ''emu-direct-'' (basename host) in
      if \<not> is_der \<and> \<not> sp_emu_fixed_base (basename host) then (None, e)
      else
        (let (m, e1) = sp_chain_libpath (w_env w) e;
             lp = (case m of Some l \<Rightarrow> Some l | None \<Rightarrow> sp_library_path_v (w_env w) (w_snap w));
             der = (if is_der then Some host
                    else map_option fst (sp_emu_direct_derivative (sp_loader_path (w_env w) (w_snap w)) (w_file w) (w_stat w)
                           (w_xok w) (w_writable w) host)) in
         case der of
           None \<Rightarrow> (None, e1)
         | Some d \<Rightarrow>
             (case emu_env lp e1 of
                None \<Rightarrow> (Some Crash, e1)
              | Some de \<Rightarrow>
                  (case sp_real_execve w d (argv_with d argv) de of
                     Fail err \<Rightarrow> (if err \<noteq> ENOENT \<and> err \<noteq> EACCES then Some (Fail err) else None, e1)
                   | out \<Rightarrow> (Some out, e1)))))"

definition exec_dynamic :: "xworld \<Rightarrow> cstr \<Rightarrow> cstr list \<Rightarrow> env \<Rightarrow> xout" where
  "exec_dynamic w host argv e =
     (case exec_direct w host argv e of
        (Some out, _) \<Rightarrow> out
      | (None, e1) \<Rightarrow>
          (let (lp, e2) = sp_chain_libpath (w_env w) e1 in
           case sp_build_loader_argv w (SP_CHAIN_MAX_ARGS + 8) host argv lp of
             NoLoader \<Rightarrow> Fail EIO
           | CapOverflow \<Rightarrow> Fail E2BIG
           | Built v \<Rightarrow> sp_real_execve w (hd v) v e2))"

definition exec_static :: "xworld \<Rightarrow> cstr \<Rightarrow> cstr list \<Rightarrow> env \<Rightarrow> xout" where
  "exec_static w host argv e =
     (if getenv (w_env w) ''SPROUT_SUPERVISED'' \<noteq> None then sp_real_execve w host argv e
      else
        (case getenv (w_env w) ''SPROUT_PTRACE'' of
           None \<Rightarrow> Fail ENOENT
         | Some px \<Rightarrow> sp_real_execve w px ([px, ''--''] @ argv_with host argv) (filter (\<lambda>r. \<not> unsafe_for_bionic r) e)))"

definition script_argv :: "cstr \<Rightarrow> cstr \<Rightarrow> cstr \<Rightarrow> cstr list \<Rightarrow> cstr list" where
  "script_argv ires opt path argv = [ires] @ (if opt \<noteq> [] then [opt] else []) @ argv_with path argv"

fun sp_execve_chain :: "xworld \<Rightarrow> nat \<Rightarrow> cstr \<Rightarrow> cstr list \<Rightarrow> env \<Rightarrow> xst \<Rightarrow> xout \<times> xst" where
  "sp_execve_chain w 0 path argv envp st = (Fail ELOOP, st)"
| "sp_execve_chain w (Suc n) path argv envp st =
     (let e0 = sp_chain_env (w_env w) (w_snap w) envp;
          (e1, st1) = stamp_target w path e0 st;
          (host_raw, st2) = xlate w st1 path;
          hx0 = snprintf_s SP_PATH_MAX host_raw;
          hx1 = (if is_self_alias path then (case self_image w path of None \<Rightarrow> hx0 | Some s \<Rightarrow> s) else hx0);
          hx = sp_resolve_absolute_symlink w hx1;
          (host, abi) = sp_abi_cleanse (sp_loader_path (w_env w) (w_snap w)) (w_file w)
                          (\<lambda>p. case w_stat w p of None \<Rightarrow> \<lparr>st_ino = 0, st_size = 0, st_mtime = 0\<rparr> | Some s \<Rightarrow> s)
                          (w_made w) hx (s_abi st2);
          e2 = (if is_self_alias path then sp_stamp_exe hx e1 else e1);
          (b, st3) = sp_binfmt_maybe_exec w path host argv e2 (st2\<lparr>s_abi := abi\<rparr>) in
      case b of
        NoEmulator \<Rightarrow> (Fail ENOEXEC, st3)
      | Wrap emu nv nev \<Rightarrow> sp_execve_chain w n emu nv nev st3
      | NotForeign \<Rightarrow>
          (case sp_classify_host (w_file w host) of
             ElfDynamic _ \<Rightarrow> (exec_dynamic w host argv e2, st3)
           | ElfStatic \<Rightarrow> (exec_static w host argv e2, st3)
           | Script interp opt \<Rightarrow>
               (case sp_guest_path_search w interp st3 of
                  (None, st4) \<Rightarrow> (Fail ENOENT, st4)
                | (Some ires, st4) \<Rightarrow>
                    if SP_CHAIN_MAX_ARGS + 8 < length argv + 2 + (if opt \<noteq> [] then 1 else 0) then (Fail ENOMEM, st4)
                    else sp_execve_chain w n ires (script_argv ires opt path argv) e2 st4)
           | NotElf \<Rightarrow> (Fail (if w_file w host = None then w_ferr w host else ENOEXEC), st3)))"

definition MAX_DEPTH :: nat where
  "MAX_DEPTH = 5"

section \<open>The exec family\<close>

definition clear_caches :: "xst \<Rightarrow> xst" where
  "clear_caches st = (let (x, e) = sp_exec_caches_clear (s_x st, s_e st) in st\<lparr>s_x := x, s_e := e\<rparr>)"

definition execve :: "xworld \<Rightarrow> cstr \<Rightarrow> cstr list \<Rightarrow> env \<Rightarrow> xst \<Rightarrow> xout \<times> xst" where
  "execve w path argv envp st =
     (case sp_execve_chain w MAX_DEPTH path argv envp st of
        (Fail ENOENT, st1) \<Rightarrow> sp_execve_chain w MAX_DEPTH path argv envp (clear_caches st1)
      | r \<Rightarrow> r)"

text \<open>The variadic forms collect at most 127 arguments.\<close>

definition collect_args :: "cstr list \<Rightarrow> cstr list" where
  "collect_args args = take 127 args"

definition execl :: "xworld \<Rightarrow> cstr \<Rightarrow> cstr list \<Rightarrow> xst \<Rightarrow> xout \<times> xst" where
  "execl w path args st = sp_execve_chain w MAX_DEPTH path (collect_args args) (w_env w) st"

definition execle :: "xworld \<Rightarrow> cstr \<Rightarrow> cstr list \<Rightarrow> env option \<Rightarrow> xst \<Rightarrow> xout \<times> xst" where
  "execle w path args envp st =
     sp_execve_chain w MAX_DEPTH path (collect_args args) (case envp of None \<Rightarrow> w_env w | Some e \<Rightarrow> e) st"

definition execlp :: "xworld \<Rightarrow> cstr \<Rightarrow> cstr list \<Rightarrow> xst \<Rightarrow> xout \<times> xst" where
  "execlp w file args st =
     (case sp_guest_path_search w file st of
        (Some cand, st1) \<Rightarrow> sp_execve_chain w MAX_DEPTH cand (collect_args args) (w_env w) st1
      | (None, st1) \<Rightarrow> (Fail ENOENT, st1))"

definition execv :: "xworld \<Rightarrow> cstr \<Rightarrow> cstr list \<Rightarrow> xst \<Rightarrow> xout \<times> xst" where
  "execv w path argv st = sp_execve_chain w MAX_DEPTH path argv (w_env w) st"

definition execvpe :: "xworld \<Rightarrow> cstr \<Rightarrow> cstr list \<Rightarrow> env \<Rightarrow> xst \<Rightarrow> xout \<times> xst" where
  "execvpe w path argv envp st =
     (case sp_guest_path_search w path st of
        (None, st1) \<Rightarrow> (Fail ENOENT, st1)
      | (Some cand, st1) \<Rightarrow>
          (case sp_execve_chain w MAX_DEPTH cand argv envp st1 of
             (Fail ENOENT, st2) \<Rightarrow>
               (case sp_guest_path_search w path (clear_caches st2) of
                  (Some cand', st3) \<Rightarrow> sp_execve_chain w MAX_DEPTH cand' argv envp st3
                | (None, st3) \<Rightarrow> (Fail ENOENT, st3))
           | r \<Rightarrow> r))"

definition execvp :: "xworld \<Rightarrow> cstr \<Rightarrow> cstr list \<Rightarrow> xst \<Rightarrow> xout \<times> xst" where
  "execvp w path argv st = execvpe w path argv (w_env w) st"

text \<open>\<open>host\<close> is the target of \<^verbatim>\<open>/proc/self/fd/N\<close>.\<close>

definition fexecve :: "xworld \<Rightarrow> cptr \<Rightarrow> cstr list \<Rightarrow> env \<Rightarrow> xout" where
  "fexecve w host argv envp =
     (case nonempty_or host None of
        None \<Rightarrow> Fail ENOENT
      | Some h0 \<Rightarrow>
          (let h = take (SP_PATH_MAX - 1) h0 in
           case sp_classify_host (w_file w h) of
             ElfDynamic _ \<Rightarrow>
               (case sp_build_loader_argv w (SP_CHAIN_MAX_ARGS + 8) h argv None of
                  NoLoader \<Rightarrow> Fail EIO
                | CapOverflow \<Rightarrow> Fail E2BIG
                | Built v \<Rightarrow> sp_real_execve w (hd v) v envp)
           | _ \<Rightarrow> Fail ENOEXEC))"

section \<open>Lemmas: the chained environment\<close>

lemma has_key_append [simp]: "has_key k (e @ [r]) \<longleftrightarrow> has_key k e \<or> row_of_key k r"
  by (simp add: has_key_def)

lemma key_of_row: "key_of row = Some k \<Longrightarrow> row_of_key k row"
  using strchr_Some [of row "CHR ''=''"]
  by (auto simp: key_of_def row_of_key_def strncmp_eq_def min_def split: option.splits)

lemma merge_text_key: "row_of_key ''LD_PRELOAD'' (merge_text ours r)"
  by (simp add: merge_text_def Let_def row_of_key_def strncmp_eq_def char_at_def)

text \<open>Keys are cut at the first \<open>=\<close>, so a row has one key only.\<close>

lemma row_of_key_prefix: "row_of_key k row \<longleftrightarrow> (\<exists>v. row = k @ CHR ''='' # v)"
proof
  assume r: "row_of_key k row"
  then have "take (length k) row = k" "length k < length row" "row ! length k = CHR ''=''"
    by (auto simp: row_of_key_def strncmp_eq_def char_at_def split: if_splits)
  then have "row = k @ CHR ''='' # drop (Suc (length k)) row" by (metis append_take_drop_id Cons_nth_drop_Suc)
  then show "\<exists>v. row = k @ CHR ''='' # v" ..
qed auto

lemma key_takeWhile:
  assumes "row_of_key k row" "CHR ''='' \<notin> set k"
  shows "takeWhile (\<lambda>c. c \<noteq> CHR ''='') row = k"
proof -
  obtain v where "row = k @ CHR ''='' # v" using assms(1) row_of_key_prefix by blast
  moreover have "takeWhile (\<lambda>c. c \<noteq> CHR ''='') k = k" using assms(2) by (auto simp: takeWhile_eq_all_conv)
  ultimately show ?thesis using assms(2) by (simp add: takeWhile_append)
qed

lemma row_of_key_unique:
  "row_of_key k row \<Longrightarrow> row_of_key k' row \<Longrightarrow> CHR ''='' \<notin> set k \<Longrightarrow> CHR ''='' \<notin> set k' \<Longrightarrow> k = k'"
  using key_takeWhile by metis

lemma key_of_clean: "key_of row = Some k \<Longrightarrow> CHR ''='' \<notin> set k"
  using strchr_Some [of row "CHR ''=''"] by (auto simp: key_of_def split: option.splits)

lemma length_merge_preload [simp]: "length (merge_preload ours e) = length e"
  by (simp add: merge_preload_def split: list.split)

lemma row_of_key_take:
  assumes "row_of_key k row" "length k < n"
  shows "row_of_key k (take n row)"
proof -
  obtain v where v: "row = k @ CHR ''='' # v" using assms(1) row_of_key_prefix by blast
  obtain m where m: "n = Suc (length k + m)" using assms(2) less_iff_Suc_add by blast
  have "take n row = k @ CHR ''='' # take m v" by (simp add: v m Suc_diff_le)
  then show ?thesis by simp
qed

lemma merge_preload_rows:
  assumes "r \<in> set (merge_preload ours e)"
  shows "r \<in> set e \<or> row_of_key ''LD_PRELOAD'' r"
proof -
  have "row_of_key ''LD_PRELOAD'' (snprintf_s MP_CAP (merge_text ours l))" for l
    using row_of_key_take [OF merge_text_key, of "MP_CAP - 1"] by (simp add: snprintf_s_def MP_CAP_def SP_PATH_MAX_def)
  then show ?thesis using assms by (auto simp: merge_preload_def split: list.splits if_splits)
qed

lemma merge_preload_keeps:
  assumes "r \<in> set e" "\<not> row_of_key ''LD_PRELOAD'' r"
  shows "r \<in> set (merge_preload ours e)"
  using assms by (auto simp: merge_preload_def needs_merge_def image_iff split: list.split intro!: bexI [of _ r])

lemma merge_preload_key:
  assumes "has_key k e" "CHR ''='' \<notin> set k"
  shows "has_key k (merge_preload ours e)"
proof -
  obtain r where r: "r \<in> set e" "row_of_key k r" using assms(1) by (auto simp: has_key_def list_ex_iff)
  show ?thesis
  proof (cases "row_of_key ''LD_PRELOAD'' r")
    case False
    then show ?thesis using merge_preload_keeps [OF r(1)] r(2) by (auto simp: has_key_def list_ex_iff)
  next
    case True
    then have k: "k = ''LD_PRELOAD''" using row_of_key_unique [OF r(2) True assms(2)] by simp
    obtain i where i: "i < length e" "e ! i = r" using r(1) by (auto simp: in_set_conv_nth)
    have "row_of_key k (merge_preload ours e ! i)"
      using i r True row_of_key_take [OF merge_text_key, of "MP_CAP - 1"]
      by (auto simp: merge_preload_def k snprintf_s_def MP_CAP_def SP_PATH_MAX_def split: list.split)
    moreover have "merge_preload ours e ! i \<in> set (merge_preload ours e)" using i(1) by simp
    ultimately show ?thesis unfolding has_key_def list_ex_iff by blast
  qed
qed

text \<open>What one injection step keeps, and what it adds.\<close>

lemma inject_row_cases:
  "inject_row snap pfx row e = e \<or> (\<exists>k. key_of row = Some k \<and> starts_with pfx row \<and> \<not> has_key k e \<and> inject_row snap pfx row e = e @ [row])
   \<or> (\<exists>ours. inject_row snap pfx row e = merge_preload ours e)"
  by (auto simp: inject_row_def key_of_def Let_def split: option.splits)

lemma inject_row_key: "has_key k e \<Longrightarrow> CHR ''='' \<notin> set k \<Longrightarrow> has_key k (inject_row snap pfx row e)"
  using inject_row_cases [of snap pfx row e] merge_preload_key [of k e] by auto

lemma inject_row_row: "r \<in> set e \<Longrightarrow> \<not> row_of_key ''LD_PRELOAD'' r \<Longrightarrow> r \<in> set (inject_row snap pfx row e)"
  using inject_row_cases [of snap pfx row e] merge_preload_keeps [of r e] by auto

lemma inject_row_length:
  "length (inject_row snap pfx row e) \<le> length e + (if starts_with pfx row then 1 else 0)"
  using inject_row_cases [of snap pfx row e] by auto

lemma inject_row_adds:
  assumes "length e < 500" "starts_with pfx row" "key_of row = Some k"
  shows "has_key k (inject_row snap pfx row e)"
proof -
  obtain kl where kl: "strchr row (CHR ''='') = Some kl" "k = take kl row"
    using assms(3) by (auto simp: key_of_def split: option.splits)
  have "row_of_key k row" using assms(3) by (rule key_of_row)
  then show ?thesis
    using assms kl merge_preload_key [of k e] key_of_clean [OF assms(3)]
    by (auto simp: inject_row_def Let_def)
qed

lemma fold_inject_key: "has_key k e \<Longrightarrow> CHR ''='' \<notin> set k \<Longrightarrow> has_key k (fold (inject_row snap pfx) rows e)"
  by (induction rows arbitrary: e) (auto intro: inject_row_key)

lemma fold_inject_row: "r \<in> set e \<Longrightarrow> \<not> row_of_key ''LD_PRELOAD'' r \<Longrightarrow> r \<in> set (fold (inject_row snap pfx) rows e)"
  by (induction rows arbitrary: e) (auto intro: inject_row_row)

lemma fold_inject_length:
  "length (fold (inject_row snap pfx) rows e) \<le> length e + length (filter (starts_with pfx) rows)"
proof (induction rows arbitrary: e)
  case (Cons r rs)
  show ?case using Cons.IH [of "inject_row snap pfx r e"] inject_row_length [of snap pfx r e] by auto
qed simp

lemma fold_inject_adds:
  assumes "row \<in> set rows" "starts_with pfx row" "key_of row = Some k"
    and "length e + length (filter (starts_with pfx) rows) \<le> 500"
  shows "has_key k (fold (inject_row snap pfx) rows e)"
  using assms
proof (induction rows arbitrary: e)
  case (Cons r rs)
  show ?case
  proof (cases "r = row")
    case True
    then have "has_key k (inject_row snap pfx r e)" using Cons.prems by (intro inject_row_adds) auto
    then show ?thesis using fold_inject_key key_of_clean [OF Cons.prems(3)] by simp
  next
    case False
    have "length (inject_row snap pfx r e) + length (filter (starts_with pfx) rs) \<le> 500"
      using inject_row_length [of snap pfx r e] Cons.prems(4) by (auto split: if_splits)
    then show ?thesis using Cons False by simp
  qed
qed simp

lemma recover_row_keeps:
  "has_key k e \<Longrightarrow> has_key k (fold recover_row snap e)"
  "r \<in> set e \<Longrightarrow> r \<in> set (fold recover_row snap e)"
  by (induction snap arbitrary: e) (auto simp: recover_row_def split: option.split)

definition vital :: "cstr \<Rightarrow> bool" where
  "vital row \<longleftrightarrow> starts_with ''LD_'' row \<or> starts_with ''SPROUT_'' row"

lemma ld_sprout_disjoint: "starts_with ''LD_'' row \<Longrightarrow> \<not> starts_with ''SPROUT_'' row"
  by (cases row) (auto simp: starts_with_iff)

lemma vital_split:
  "length (filter vital rows) = length (filter (starts_with ''LD_'') rows) + length (filter (starts_with ''SPROUT_'') rows)"
  using ld_sprout_disjoint by (induction rows) (auto simp: vital_def)

lemma chain_env_room:
  assumes "length (filter vital environ) \<le> 100"
  shows "length (take 400 envp) + length (filter (starts_with ''LD_'') environ) \<le> 500"
    and "length (fold (inject_row snap ''LD_'') environ (take 400 envp)) + length (filter (starts_with ''SPROUT_'') environ) \<le> 500"
  using assms vital_split [of environ] fold_inject_length [of snap "''LD_''" environ "take 400 envp"] by auto

text \<open>C31: An exec hands every variable of the interposer down: as long as the process has at most a hundred LD_ and SPROUT_
  variables, each of them is defined in the environment the chain passes on, whatever the caller's environment is; and every row of the
  caller but LD_PRELOAD is passed on unchanged (of its first 400).\<close>

theorem sp_chain_env_complete:
  assumes "length (filter vital environ) \<le> 100"
  shows "(\<forall>row \<in> set environ. \<forall>k. vital row \<longrightarrow> key_of row = Some k \<longrightarrow> has_key k (sp_chain_env environ snap envp))
    \<and> (\<forall>r \<in> set (take 400 envp). \<not> row_of_key ''LD_PRELOAD'' r \<longrightarrow> r \<in> set (sp_chain_env environ snap envp))"
proof (intro conjI ballI allI impI)
  note room = chain_env_room [OF assms]
  fix row k
  assume row: "row \<in> set environ" "vital row" "key_of row = Some k"
  have "has_key k (fold (inject_row snap ''SPROUT_'') environ (fold (inject_row snap ''LD_'') environ (take 400 envp)))"
    using row(2) unfolding vital_def
  proof
    assume "starts_with ''LD_'' row"
    then show ?thesis using fold_inject_adds [OF row(1) _ row(3) room(1)] fold_inject_key key_of_clean [OF row(3)] by blast
  next
    assume "starts_with ''SPROUT_'' row"
    then show ?thesis using fold_inject_adds [OF row(1) _ row(3) room(2)] by blast
  qed
  then show "has_key k (sp_chain_env environ snap envp)"
    unfolding sp_chain_env_def Let_def by (rule recover_row_keeps)
next
  fix r
  assume "r \<in> set (take 400 envp)" "\<not> row_of_key ''LD_PRELOAD'' r"
  then show "r \<in> set (sp_chain_env environ snap envp)"
    unfolding sp_chain_env_def Let_def by (intro recover_row_keeps(2) fold_inject_row)
qed

theorem sp_chain_env_complete_witness:
  "has_key ''SPROUT_ROOTFS'' (sp_chain_env [''HOME=/'', ''SPROUT_ROOTFS=/r''] [] [''A=b''])
   \<and> ''A=b'' \<in> set (sp_chain_env [''HOME=/'', ''SPROUT_ROOTFS=/r''] [] [''A=b''])"
proof -
  have l: "length (filter vital [''HOME=/'', ''SPROUT_ROOTFS=/r'']) \<le> 100" by code_simp
  have "vital ''SPROUT_ROOTFS=/r''" "key_of ''SPROUT_ROOTFS=/r'' = Some ''SPROUT_ROOTFS''" "\<not> row_of_key ''LD_PRELOAD'' ''A=b''"
    by code_simp+
  then show ?thesis using sp_chain_env_complete [OF l, of "[]" "[''A=b'']"] by simp
qed

section \<open>Lemmas: the interposer stays loaded\<close>

abbreviation "core \<equiv> ''libsprout-core''"

text \<open>Rows of LD_PRELOAD that lack the interposer still fit the merge buffer (\<open>mergeable\<close>), or there are none (\<open>loaded\<close>).\<close>

definition mergeable :: "cstr \<Rightarrow> env \<Rightarrow> bool" where
  "mergeable ours e \<longleftrightarrow> has_key ''LD_PRELOAD'' e \<and> (\<forall>r \<in> set e. needs_merge r \<longrightarrow> length (merge_text ours r) < MP_CAP)"

definition loaded :: "env \<Rightarrow> bool" where
  "loaded e \<longleftrightarrow> has_key ''LD_PRELOAD'' e \<and> (\<forall>r \<in> set e. \<not> needs_merge r)"

lemma loaded_mergeable: "loaded e \<Longrightarrow> mergeable ours e"
  by (simp add: loaded_def mergeable_def)

lemma merge_text_core: "strstr ours core \<Longrightarrow> \<not> needs_merge (merge_text ours r)"
proof -
  assume "strstr ours core"
  then obtain a b where "ours = a @ core @ b" by (auto simp: strstr_iff)
  then have "merge_text ours r = (''LD_PRELOAD='' @ a) @ core @ (b @ (if drop 11 r \<noteq> [] then CHR '':'' # drop 11 r else []))"
    by (simp add: merge_text_def Let_def)
  then have "strstr (merge_text ours r) core" unfolding strstr_iff by blast
  then show ?thesis by (simp add: needs_merge_def)
qed

lemma merge_preload_loads:
  assumes "mergeable ours e" "strstr ours core"
  shows "loaded (merge_preload ours e)"
proof -
  have k: "has_key ''LD_PRELOAD'' (merge_preload ours e)"
    using assms(1) by (auto simp: mergeable_def intro: merge_preload_key)
  show ?thesis
  proof (cases "rev (filter needs_merge e)")
    case Nil
    then have "\<forall>r \<in> set e. \<not> needs_merge r" by (simp add: filter_empty_conv)
    then show ?thesis using k Nil by (simp add: loaded_def merge_preload_def)
  next
    case (Cons l ls)
    then have "l \<in> set (filter needs_merge e)" by (metis list.set_intros(1) set_rev)
    then have l: "length (merge_text ours l) < MP_CAP" using assms(1) by (simp add: mergeable_def)
    then have "\<forall>r \<in> set (merge_preload ours e). \<not> needs_merge r"
      using Cons assms(1) merge_text_core [OF assms(2)] by (auto simp: merge_preload_def mergeable_def)
    then show ?thesis using k by (simp add: loaded_def)
  qed
qed

lemma our_preload_snapshot: "our_preload snap [] \<noteq> [] \<Longrightarrow> our_preload snap live = our_preload snap []"
  by (auto simp: our_preload_def split: list.splits)

lemma inject_preload_loads:
  assumes "mergeable (our_preload snap []) e" "strstr (our_preload snap []) core" "length e < 500"
    and "starts_with ''LD_'' row" "key_of row = Some ''LD_PRELOAD''"
  shows "loaded (inject_row snap ''LD_'' row e)"
proof -
  have ne: "our_preload snap [] \<noteq> []" using assms(2) by (auto simp: strstr_iff)
  obtain kl where "strchr row (CHR ''='') = Some kl" "take kl row = ''LD_PRELOAD''"
    using assms(5) by (auto simp: key_of_def split: option.splits)
  then have "inject_row snap ''LD_'' row e = merge_preload (our_preload snap []) e"
    using assms(1,3,4) ne our_preload_snapshot [OF ne, of "drop (Suc kl) row"] by (simp add: inject_row_def Let_def mergeable_def)
  then show ?thesis using merge_preload_loads [OF assms(1,2)] by simp
qed

lemma inject_other:
  assumes "key_of row \<noteq> Some ''LD_PRELOAD''"
  shows "inject_row snap pfx row e = e \<or> inject_row snap pfx row e = e @ [row] \<and> \<not> needs_merge row"
proof -
  have "\<not> needs_merge row" if "key_of row = Some k" for k
  proof
    assume "needs_merge row"
    then have "row_of_key ''LD_PRELOAD'' row" by (simp add: needs_merge_def)
    then have "k = ''LD_PRELOAD''" using row_of_key_unique [OF key_of_row [OF that]] key_of_clean [OF that] by simp
    then show False using assms that by simp
  qed
  then show ?thesis using assms
    by (auto simp: inject_row_def key_of_def Let_def split: option.splits)
qed

lemma inject_other_mergeable: "key_of row \<noteq> Some ''LD_PRELOAD'' \<Longrightarrow> mergeable ours e \<Longrightarrow> mergeable ours (inject_row snap pfx row e)"
  using inject_other [of row snap pfx e] by (auto simp: mergeable_def)

lemma inject_loaded: "loaded e \<Longrightarrow> loaded (inject_row snap pfx row e)"
proof (cases "key_of row = Some ''LD_PRELOAD''")
  case True
  assume l: "loaded e"
  then have "merge_preload ours e = e" for ours
    by (auto simp: loaded_def merge_preload_def filter_empty_conv split: list.splits)
  moreover have "\<not> (\<exists>k. key_of row = Some k \<and> \<not> has_key k e)" using True l by (simp add: loaded_def)
  ultimately show ?thesis using l inject_row_cases [of snap pfx row e] by auto
next
  case False
  assume "loaded e"
  then show ?thesis using inject_other [OF False, of snap pfx e] by (auto simp: loaded_def)
qed

lemma fold_inject_loaded: "loaded e \<Longrightarrow> loaded (fold (inject_row snap pfx) rows e)"
  by (induction rows arbitrary: e) (auto intro: inject_loaded)

lemma fold_inject_loads:
  assumes "row \<in> set rows" "starts_with ''LD_'' row" "key_of row = Some ''LD_PRELOAD''"
    and "mergeable (our_preload snap []) e" "strstr (our_preload snap []) core"
    and "length e + length (filter (starts_with ''LD_'') rows) \<le> 500"
  shows "loaded (fold (inject_row snap ''LD_'') rows e)"
  using assms
proof (induction rows arbitrary: e)
  case (Cons r rs)
  show ?case
  proof (cases "key_of r = Some ''LD_PRELOAD''")
    case True
    then have "starts_with ''LD_'' r" using key_of_row [OF True] by (auto simp: row_of_key_prefix starts_with_iff)
    then have "loaded (inject_row snap ''LD_'' r e)"
      using Cons.prems True by (intro inject_preload_loads) auto
    then show ?thesis using fold_inject_loaded by simp
  next
    case False
    have "length (inject_row snap ''LD_'' r e) + length (filter (starts_with ''LD_'') rs) \<le> 500"
      using inject_row_length [of snap "''LD_''" r e] Cons.prems(6) by (auto split: if_splits)
    moreover have "row \<in> set rs" using Cons.prems(1,3) False by auto
    ultimately show ?thesis
      using Cons.IH [OF _ Cons.prems(2,3) inject_other_mergeable [OF False Cons.prems(4)] Cons.prems(5)] by simp
  qed
qed simp

lemma recover_loaded: "loaded e \<Longrightarrow> loaded (fold recover_row snap e)"
proof (induction snap arbitrary: e)
  case (Cons r rs)
  have "loaded (recover_row r e)"
  proof (cases "recover_row r e = e")
    case False
    then obtain k where k: "key_of r = Some k" "\<not> has_key k e" "recover_row r e = e @ [r]"
      by (auto simp: recover_row_def split: option.splits if_splits)
    then have "k \<noteq> ''LD_PRELOAD''" using Cons.prems by (auto simp: loaded_def)
    then have "\<not> row_of_key ''LD_PRELOAD'' r"
      using row_of_key_unique [OF key_of_row [OF k(1)] _ key_of_clean [OF k(1)]] by fastforce
    then show ?thesis using k Cons.prems by (simp add: loaded_def needs_merge_def)
  qed (use Cons.prems in simp)
  then show ?case using Cons.IH by simp
qed simp

text \<open>C30: While a process still has an LD_PRELOAD variable, whatever its value, a program does not shed the interposer by putting its
  own LD_PRELOAD into the environment of an exec: when the process started with the core library in LD_PRELOAD, and the caller's
  environment sets the variable within its first 400 rows, every LD_PRELOAD row that is passed on names the core library, as long as
  the texts fit the merge buffer and at most 100 variables have the two prefixes. The variable in the process is needed: without
  it the caller's row is passed on as it is (\<open>unset_sheds_core\<close>).\<close>

theorem sp_chain_env_keeps_core:
  assumes "strstr (our_preload snap []) core"
    and "row \<in> set environ" "key_of row = Some ''LD_PRELOAD''"
    and "length (filter vital environ) \<le> 100"
    and "has_key ''LD_PRELOAD'' (take 400 envp)"
    and "\<forall>r \<in> set (take 400 envp). length (our_preload snap []) + length r < MP_CAP - 12"
  shows "\<forall>r \<in> set (sp_chain_env environ snap envp). row_of_key ''LD_PRELOAD'' r \<longrightarrow> strstr r core"
proof -
  have "mergeable (our_preload snap []) (take 400 envp)"
    using assms(5,6) by (auto simp: mergeable_def merge_text_def Let_def)
  moreover have "starts_with ''LD_'' row" using key_of_row [OF assms(3)] by (auto simp: row_of_key_prefix starts_with_iff)
  ultimately have "loaded (fold (inject_row snap ''LD_'') environ (take 400 envp))"
    using fold_inject_loads [OF assms(2) _ assms(3) _ assms(1) chain_env_room(1) [OF assms(4)]] by blast
  then have "loaded (sp_chain_env environ snap envp)"
    unfolding sp_chain_env_def Let_def by (rule recover_loaded [OF fold_inject_loaded])
  then show ?thesis by (simp add: loaded_def needs_merge_def)
qed

theorem sp_chain_env_keeps_core_witness:
  "''LD_PRELOAD=/libsprout-core.so:/mine.so'' \<in> set (sp_chain_env [''LD_PRELOAD=''] [''LD_PRELOAD=/libsprout-core.so''] [''LD_PRELOAD=/mine.so''])
   \<and> strstr ''LD_PRELOAD=/libsprout-core.so:/mine.so'' core"
proof -
  let ?snap = "[''LD_PRELOAD=/libsprout-core.so'']" and ?envp = "[''LD_PRELOAD=/mine.so'']" and ?row = "''LD_PRELOAD=''"
  have "strstr (our_preload ?snap []) core" "?row \<in> set [?row]" "key_of ?row = Some ''LD_PRELOAD''"
    "length (filter vital [?row]) \<le> 100" "has_key ''LD_PRELOAD'' (take 400 ?envp)"
    "\<forall>r \<in> set (take 400 ?envp). length (our_preload ?snap []) + length r < MP_CAP - 12" by code_simp+
  from sp_chain_env_keeps_core [OF this]
  have a: "\<forall>r \<in> set (sp_chain_env [?row] ?snap ?envp). row_of_key ''LD_PRELOAD'' r \<longrightarrow> strstr r core" .
  have b: "''LD_PRELOAD=/libsprout-core.so:/mine.so'' \<in> set (sp_chain_env [?row] ?snap ?envp)" by code_simp
  have c: "row_of_key ''LD_PRELOAD'' ''LD_PRELOAD=/libsprout-core.so:/mine.so''" by code_simp
  show ?thesis using a b c by blast
qed

text \<open>The case the theorem leaves out: the variable blanked in the process and absent from the caller's environment. The blank row
  is what is passed on, and the interposer is lost although the snapshot still names it.\<close>

lemma chain_env_loses_core:
  "sp_chain_env [''LD_PRELOAD=''] [''LD_PRELOAD=/libsprout-core.so''] [] = [''LD_PRELOAD='']"
  by code_simp

text \<open>And the variable removed from the process: no row is left that would start the merge, and the caller's own value is passed on
  alone although the snapshot names the core library.\<close>

lemma unset_sheds_core:
  "sp_chain_env [] [''LD_PRELOAD=/libsprout-core.so''] [''LD_PRELOAD=/mine.so''] = [''LD_PRELOAD=/mine.so'']"
  by code_simp

section \<open>What an exec may start\<close>

text \<open>
  The launches the design allows: the sanitized loader with the program as an argument; an emulator the kernel starts through a
  derivative; a static program inside the supervisor, or handed to the supervisor without the variables that the host's own linker
  would obey.
\<close>

definition plain_emulator :: "cstr \<Rightarrow> bool" where
  "plain_emulator host \<longleftrightarrow> starts_with ''emu-direct-'' (basename host) \<or> sp_emu_fixed_base (basename host)"

inductive launch :: "xworld \<Rightarrow> cstr \<Rightarrow> cstr list \<Rightarrow> env \<Rightarrow> bool" for w where
  by_loader: "sp_classify_host (w_file w host) = ElfDynamic i \<Longrightarrow> sp_loader_path (w_env w) (w_snap w) = Some l
    \<Longrightarrow> opts = [] \<or> opts = [''--inhibit-cache''] \<Longrightarrow> length args \<le> SP_CHAIN_MAX_ARGS + 8
    \<Longrightarrow> launch w l ([l, ''--argv0'', a0] @ opts @ [''--library-path'', lib, host] @ args) e"
| by_derivative: "sp_classify_host (w_file w host) = ElfDynamic i \<Longrightarrow> plain_emulator host
    \<Longrightarrow> p = host \<or> (\<exists>img. sp_emu_direct_derivative (sp_loader_path (w_env w) (w_snap w)) (w_file w) (w_stat w)
                          (w_xok w) (w_writable w) host = Some (p, img))
    \<Longrightarrow> launch w p (argv_with p argv) e"
| supervised: "sp_classify_host (w_file w host) = ElfStatic \<Longrightarrow> getenv (w_env w) ''SPROUT_SUPERVISED'' \<noteq> None
    \<Longrightarrow> launch w host argv e"
| by_supervisor: "sp_classify_host (w_file w host) = ElfStatic \<Longrightarrow> getenv (w_env w) ''SPROUT_PTRACE'' = Some px
    \<Longrightarrow> \<forall>r \<in> set e. \<not> unsafe_for_bionic r \<Longrightarrow> launch w px ([px, ''--''] @ argv_with host argv) e"

lemma sp_real_execve_Became: "sp_real_execve w p a e = Became p' a' e' \<longleftrightarrow> w_kexec w p a e = None \<and> p' = p \<and> a' = a \<and> e' = e"
  by (auto simp: sp_real_execve_def split: option.split)

lemma sp_build_loader_argv_Built:
  assumes "sp_build_loader_argv w vmax host argv lp = Built v"
  obtains l a0 opts lib where "sp_loader_path (w_env w) (w_snap w) = Some l" "opts = [] \<or> opts = [''--inhibit-cache'']"
    "length argv \<le> vmax" "v = [l, ''--argv0'', a0] @ opts @ [''--library-path'', lib, host] @ tl argv"
  using assms by (auto simp: sp_build_loader_argv_def Let_def split: option.splits if_splits)

lemma exec_static_launch:
  "exec_static w host argv e = Became p a e' \<Longrightarrow> sp_classify_host (w_file w host) = ElfStatic \<Longrightarrow> launch w p a e'"
  using launch.by_supervisor [of w host p "filter (\<lambda>r. \<not> unsafe_for_bionic r) e" argv]
  by (auto simp: exec_static_def sp_real_execve_Became split: if_splits option.splits intro: launch.supervised)

lemma exec_direct_launch:
  assumes "exec_direct w host argv e = (Some (Became p a e'), e1)" "sp_classify_host (w_file w host) = ElfDynamic i"
  shows "launch w p a e'"
proof -
  let ?lp = "sp_loader_path (w_env w) (w_snap w)"
  define der where "der = (if starts_with ''emu-direct-'' (basename host) then Some host
     else map_option fst (sp_emu_direct_derivative ?lp (w_file w) (w_stat w) (w_xok w) (w_writable w) host))"
  have pe: "plain_emulator host" using assms(1) by (cases "plain_emulator host") (auto simp: exec_direct_def plain_emulator_def)
  have "\<exists>de. der = Some p \<and> a = argv_with p argv \<and> sp_real_execve w p a de = Became p a e'"
    using assms(1) unfolding exec_direct_def Let_def der_def [symmetric]
    by (auto split: if_splits prod.splits option.splits xout.splits simp: sp_real_execve_Became)
  then have d: "der = Some p" "a = argv_with p argv" by auto
  have "p = host \<or> (\<exists>img. sp_emu_direct_derivative ?lp (w_file w) (w_stat w) (w_xok w) (w_writable w) host = Some (p, img))"
    using d(1) by (auto simp: der_def split: if_splits)
  then show ?thesis using launch.by_derivative [OF assms(2) pe] d(2) by simp
qed

lemma exec_dynamic_launch:
  assumes "exec_dynamic w host argv e = Became p a e'" "sp_classify_host (w_file w host) = ElfDynamic i"
  shows "launch w p a e'"
proof (cases "exec_direct w host argv e")
  case (Pair d e1)
  show ?thesis
  proof (cases d)
    case (Some out)
    then show ?thesis using assms Pair exec_direct_launch by (simp add: exec_dynamic_def)
  next
    case None
    obtain lp e2 where lp: "sp_chain_libpath (w_env w) e1 = (lp, e2)" by (cases "sp_chain_libpath (w_env w) e1")
    then obtain v where v: "sp_build_loader_argv w (SP_CHAIN_MAX_ARGS + 8) host argv lp = Built v"
        "sp_real_execve w (hd v) v e2 = Became p a e'"
      using assms(1) Pair None by (auto simp: exec_dynamic_def split: build.splits)
    obtain l a0 opts lib where b: "sp_loader_path (w_env w) (w_snap w) = Some l" "opts = [] \<or> opts = [''--inhibit-cache'']"
      "length argv \<le> SP_CHAIN_MAX_ARGS + 8" "v = [l, ''--argv0'', a0] @ opts @ [''--library-path'', lib, host] @ tl argv"
      using v(1) by (rule sp_build_loader_argv_Built)
    have "length (tl argv) \<le> SP_CHAIN_MAX_ARGS + 8" using b(3) by simp
    then have "launch w l v e'" unfolding b(4) by (rule launch.by_loader [OF assms(2) b(1,2)])
    moreover have "p = l" "a = v" using v(2) b(4) by (simp_all add: sp_real_execve_Became)
    ultimately show ?thesis by simp
  qed
qed

text \<open>C5: Whatever a guest asks to execute - a program, a script, a foreign binary, an alias of itself, through any chain of
  interpreters and emulators - the process the kernel is asked to start is one of the allowed launches: the sanitized loader with the
  program as an argument, an emulator derivative, or a static program in the hands of the supervisor.\<close>

theorem sp_execve_chain_launches:
  assumes "sp_execve_chain w n path argv envp st = (Became p a e, st')"
  shows "launch w p a e"
  using assms
proof (induction n arbitrary: path argv envp st)
  case (Suc n)
  show ?case using Suc.prems
    by (auto simp: Let_def split: prod.splits binfmt.splits hclass.splits option.splits if_splits
        intro: Suc.IH exec_static_launch exec_dynamic_launch)
qed simp

text \<open>A process without any library path crashes when the caller passes an LD_LIBRARY_PATH row to an emulator.\<close>

lemma emu_env_crash: "emu_env None [''LD_LIBRARY_PATH=/x''] = None"
  by code_simp

text \<open>A static program at \<^verbatim>\<open>/r/b\<close>, in a process that knows a supervisor.\<close>

definition static_img :: bytes where
  "static_img = [0x7f, 0x45, 0x4c, 0x46, 2, 1, 1] @ replicate 9 0 @ [2, 0, 183, 0] @ replicate 12 0 @ [64] @ replicate 21 0
     @ [56, 0, 1, 0] @ replicate 6 0 @ [1] @ replicate 55 0"

definition demo_world :: xworld where
  "demo_world = \<lparr>w_x = demo_x, w_env = [''SPROUT_PTRACE=/sv'', ''LD_PRELOAD=/libsprout-core.so''], w_snap = [], w_pid = 1,
     w_cwd = None, w_cmdline = [], w_file = (\<lambda>p. if p = ''/r/b'' then Some static_img else None), w_ferr = (\<lambda>_. ENOENT),
     w_xok = (\<lambda>_. True), w_rok = (\<lambda>_. False), w_lnk = (\<lambda>_. None), w_stat = (\<lambda>_. None), w_made = (\<lambda>_. False),
     w_writable = (\<lambda>_. False), w_kexec = (\<lambda>_ _ _. None)\<rparr>"

definition xst_empty :: xst where
  "xst_empty = \<lparr>s_x = x_empty, s_e = replicate SP_ECACHE_CAP None, s_abi = ([], [])\<rparr>"

theorem sp_execve_chain_launches_witness:
  "launch demo_world ''/sv'' [''/sv'', ''--'', ''/r/b'', ''-v''] [''A=b'', ''SPROUT_PTRACE=/sv'', ''SPROUT_EXE=/b'']"
proof -
  have "fst (sp_execve_chain demo_world MAX_DEPTH ''/b'' [''b'', ''-v''] [''A=b''] xst_empty)
      = Became ''/sv'' [''/sv'', ''--'', ''/r/b'', ''-v''] [''A=b'', ''SPROUT_PTRACE=/sv'', ''SPROUT_EXE=/b'']" by code_simp
  then obtain st' where "sp_execve_chain demo_world MAX_DEPTH ''/b'' [''b'', ''-v''] [''A=b''] xst_empty
      = (Became ''/sv'' [''/sv'', ''--'', ''/r/b'', ''-v''] [''A=b'', ''SPROUT_PTRACE=/sv'', ''SPROUT_EXE=/b''], st')"
    by (metis prod.collapse)
  then show ?thesis by (rule sp_execve_chain_launches)
qed

end
