(* ===== verification/Spec2Isabelle.thy ===== *)
theory Spec2Isabelle
  imports Sprout_Shm Sprout_Semlock Sprout_Net Sprout_Symfix Sprout_Exec
begin

text \<open>
  A verification development for sprout, a rootless container runtime for Android. A guest program runs
  under an interposer library (\<^verbatim>\<open>crates/sprout-preload/csrc\<close>) that rewrites every path of the guest to a path
  of the host, answers calls the kernel refuses, and turns an exec of a guest program into an exec of a sanitized loader. An owner
  process publishes mounts through a shared table, and a second library (\<^verbatim>\<open>csrc/sprout-sysvipc\<close>) emulates
  System V semaphores and shared memory on plain files.

  \<^bold>\<open>Conventions.\<close> A C string is the list of its characters without the NUL (\<^verbatim>\<open>cstr\<close>), a pointer that may be NULL
  an option (\<^verbatim>\<open>cptr\<close>), a fixed buffer a bound on the length, with the truncation of \<^verbatim>\<open>snprintf\<close> written out. Integers
  are words of the width the source gives them where it matters. The kernel and the C library are arguments: functions for
  \<^verbatim>\<open>lstat\<close>, \<^verbatim>\<open>readlink\<close>, \<^verbatim>\<open>access\<close>, file contents, \<^verbatim>\<open>mmap\<close>, the clock, the datagram exchange. Errors
  are values. Static variables of the source are fields of a state that the operations take and return.

  \<^bold>\<open>Theories, in the order of their imports.\<close>

  \<^item> \<open>Sprout_Prelude\<close>: strings, words, bounded loops over links, the collections of rules the others share.
  \<^item> \<open>Sprout_Config\<close> (\<^verbatim>\<open>sp_config_load\<close>): the environment becomes a configuration; it is always well-formed and its bind
    table is sorted stably, longest guest path first.
  \<^item> \<open>Sprout_Paths\<close> (\<^verbatim>\<open>path_within\<close>, \<^verbatim>\<open>sp_dotdot_canon\<close>, \<^verbatim>\<open>sp_normalize_abs\<close>): the in-place canonicalisation
    computes a stack of components with a virtual root.
  \<^item> \<open>Sprout_Translate\<close> (\<^verbatim>\<open>sp_translate_f\<close>, \<^verbatim>\<open>sp_chase_final\<close>, \<^verbatim>\<open>sp_resolve_intermediate_links\<close>,
    \<^verbatim>\<open>sp_reverse\<close>): translated paths stay inside the rootfs for every state of the links below it, as long as the rootfs
    directory itself is not a relative link, and translation and its reverse are inverse on plain paths. The two link loops are interpretations of the locale of bounded loops.
  \<^item> \<open>Sprout_Shadow\<close> (\<^verbatim>\<open>sprout_shadow.c\<close>, \<^verbatim>\<open>sprout_shadow_owner.c\<close>): the shared table as words and bytes, refined to
    a list of mounts by the locale \<open>mount_table\<close>, which both sides interpret.
  \<^item> \<open>Sprout_Caches\<close>: the translate cache and the exec-name cache, two interpretations of the locale \<open>memo\<close>; the snapshot of the
    environment that the constructor takes.
  \<^item> \<open>Sprout_Xlate\<close> (\<^verbatim>\<open>sp_translate_xf\<close>): translation with shadow mounts, working directory, cache and link-to-symlink chase,
    and the synthetic files of \<^verbatim>\<open>/proc\<close>; the cache is transparent.
  \<^item> \<open>Sprout_Sysvipc\<close> (\<^verbatim>\<open>sprout_sysvipc.c\<close>): object files, ids, descriptor cache, semaphore passes and the retry loop, and a
    transition relation whose steps are the locked sections of all processes, with the stages of a creation apart; the invariant of the
    store, that an id leads back to its file, and that the retry loop returns with the result of the first deciding pass. The loop has
    fuel; the property gives a number of passes that suffices.
  \<^item> \<open>Sprout_Semlock\<close> (\<^verbatim>\<open>sprout_sysvipc.c\<close>): the same passes as single system calls (\<^verbatim>\<open>flock\<close>, \<^verbatim>\<open>lseek\<close>, \<^verbatim>\<open>read\<close>, \<^verbatim>\<open>write\<close>)
    over open file descriptions. Without a description that two processes share, every interleaving is serial, which is what
    \<open>Sprout_Sysvipc\<close> relies on, and P and V exclude; with one that a fork has shared they do not.
  \<^item> \<open>Sprout_Arena\<close>: address reservations, the retry of \<^verbatim>\<open>mmap\<close> below 4 GB and the arena behind \<^verbatim>\<open>malloc\<close>; separation
    of live blocks in every run.
  \<^item> \<open>Sprout_Dns\<close>: the stub resolver, from \<^verbatim>\<open>resolv.conf\<close> to \<^verbatim>\<open>getaddrinfo\<close>; the packet walker never reads outside the
    packet and inverts the encoder.
  \<^item> \<open>Sprout_Identity\<close>: fake user and group ids, the repair of status buffers, the emulated permission check, which is the POSIX
    rule, and the parsed passwd and group files, which give back what the file says.
  \<^item> \<open>Sprout_Symfix\<close> (\<^verbatim>\<open>symfix.c\<close>): functions the 32-bit lane lacks. The expansion of compressed names is memory-safe and inverts
    the compression; the merge sort is a stable sort.
  \<^item> \<open>Sprout_Wrappers\<close>: the exported path-taking functions, from \<^verbatim>\<open>open\<close> to \<^verbatim>\<open>symlinkat\<close>, as programs of the state monad over
    the state of the interposer and the calls made so far; and \<^verbatim>\<open>syscall\<close>. The locale \<open>state_invariant\<close> has the rules for an
    invariant of such a program. Every path that leaves a wrapper is a translation or relative to a descriptor, except
    in the calls that \<open>unrouted\<close> lists.
  \<^item> \<open>Sprout_Net\<close>: local socket names, the moved ports of \<^verbatim>\<open>bind\<close>, credentials, \<^verbatim>\<open>mount\<close> and the other calls that are
    answered without the kernel; the port table is a map from descriptors to ports, for both internet families.
  \<^item> \<open>Sprout_Shm\<close> (\<^verbatim>\<open>sprout_shm.inc\<close>): the registry of shared-memory segments and the exchange with their owner; a segment
    created in one process is what another one attaches, found through the socket name the owner has bound.
  \<^item> \<open>Sprout_Image\<close>: scripts and ELF files as byte lists (\<^verbatim>\<open>sp_classify_host\<close>, \<^verbatim>\<open>sp_elf_meta\<close>, \<^verbatim>\<open>sp_abi_cleanse\<close>,
    \<^verbatim>\<open>sp_emu_direct_derivative\<close>).
  \<^item> \<open>Sprout_Exec\<close>: the exec chain. The environment that is passed on keeps the interposer's variables, and every process
    that is started is an allowed launch. The recursion of \<^verbatim>\<open>sp_execve_chain\<close> counts its five levels down, as the source's
    \<^verbatim>\<open>depth\<close> does upwards, so the model is total.

  \<^bold>\<open>Observations.\<close> Lemmas at the end of a theory whose text does not carry a property's number record behaviour that differs from what
  the source or its comments intend; each has an entry among the findings.

  \<^bold>\<open>Not modelled.\<close> Allocation failures, except where a wrapper reports them, and trace output; interrupted and partial
  reads, writes and lock requests of the semaphore files; the constructor's seccomp and signal
  set-up; \<^verbatim>\<open>link\<close> and \<^verbatim>\<open>linkat\<close>, whose fallback copies a file through the interposer's own wrappers in a loop that the data
  bounds; the reentrant group lookups, which keep a pointer array inside the caller's bytes; the repaired \<^verbatim>\<open>stdio\<close> functions that only
  exchange a stream pointer; of \<^verbatim>\<open>symfix.c\<close> the copy loop of \<^verbatim>\<open>copy_file_range\<close>, the random source and the font stubs; the ptrace supervisor and its stub, which are register and memory traffic with another process; the UML
  agent; the command-line front end in Rust, scripts, benchmarks and tests.
\<close>

end
